(* ===== verification/Aml_Prelude.thy ===== *)
theory Aml_Prelude
  imports Main "HOL-Library.Word" "HOL-Library.Monad_Syntax"
begin

text \<open>
  The vocabulary that every component of the development shares: the C integer types of the
  kernel sources, the conversions between them that the code performs, the error numbers it
  returns, byte buffers with checked access, and the little-endian layout of 32 and 64 bit
  fields on the arm64 targets this repository is built for.

  A byte buffer is a list of bytes.  A read or a write that leaves the buffer has no meaning
  in C; here it is the value \<open>None\<close> of the option type, and the option monad carries it
  through the code.  A function of the model that returns \<open>Some\<close> therefore never left the
  objects it was given.
\<close>

unbundle bit_operations_syntax

section \<open>Integer types, conversions and error numbers\<close>

type_synonym u8 = "8 word"
type_synonym u32 = "32 word"
type_synonym u64 = "64 word"

text \<open>A C string is the list of its bytes before the terminating zero.\<close>

type_synonym cstr = "u8 list"

abbreviation (input) EPERM :: int where "EPERM \<equiv> 1"
abbreviation (input) ENOMEM :: int where "ENOMEM \<equiv> 12"
abbreviation (input) EFAULT :: int where "EFAULT \<equiv> 14"
abbreviation (input) EBUSY :: int where "EBUSY \<equiv> 16"
abbreviation (input) ENODEV :: int where "ENODEV \<equiv> 19"
abbreviation (input) EINVAL :: int where "EINVAL \<equiv> 22"
abbreviation (input) EOPNOTSUPP :: int where "EOPNOTSUPP \<equiv> 95"

text \<open>Conversion of an integer to \<open>int32_t\<close>, two's complement.\<close>

definition s32 :: "int \<Rightarrow> int" where
  "s32 x = (x + 2 ^ 31) mod 2 ^ 32 - 2 ^ 31"

lemma s32_id: "- (2 ^ 31) \<le> x \<Longrightarrow> x < 2 ^ 31 \<Longrightarrow> s32 x = x"
  by (simp add: s32_def)

lemma s32_bounds: "- (2 ^ 31) \<le> s32 x" "s32 x < 2 ^ 31"
  by (simp_all add: s32_def)

lemma sint_small:
  assumes "unat (w :: u32) < 2 ^ 31"
  shows "sint w = int (unat w)"
proof -
  have "uint w < 2 ^ 31"
    using assms by (simp only: uint_nat of_nat_less_iff [symmetric, where 'a = int]) simp
  then have "signed_take_bit 31 (uint w) = uint w"
    by (intro signed_take_bit_int_eq_self) (auto intro: order_trans [of _ 0])
  then show ?thesis by (simp add: sint_uint)
qed

lemma ucast_small: "unat (w :: u32) + k < 2 ^ 64 \<Longrightarrow> unat (ucast w + of_nat k :: u64) = unat w + k"
proof -
  assume k: "unat w + k < 2 ^ 64"
  have "(ucast w + of_nat k :: u64) = of_nat (unat w + k)" by (simp add: of_nat_unat)
  then show ?thesis using k by (simp add: unat_of_nat take_bit_nat_eq_self del: of_nat_add)
qed

lemma s32_nat_diff: "n \<le> m \<Longrightarrow> m < 2 ^ 31 \<Longrightarrow> s32 (int m - int n) = int m - int n"
  by (rule s32_id) auto

lemma unat_of_nat32: "n < 2 ^ 32 \<Longrightarrow> unat (of_nat n :: u32) = n"
  by (simp add: unat_of_nat take_bit_nat_eq_self)

lemma unat_lt32: "unat (w :: u32) < 2 ^ 32"
proof -
  have "unat w < 2 ^ LENGTH(32)" by (rule unsigned_less)
  then show ?thesis by simp
qed

section \<open>Byte buffers\<close>

named_theorems buf_simps \<open>reading and writing byte buffers\<close>

definition get_bytes :: "u8 list \<Rightarrow> nat \<Rightarrow> nat \<Rightarrow> u8 list option" where
  "get_bytes buf off n = (if off + n \<le> length buf then Some (take n (drop off buf)) else None)"

definition put_bytes :: "u8 list \<Rightarrow> nat \<Rightarrow> u8 list \<Rightarrow> u8 list option" where
  "put_bytes buf off bs =
     (if off + length bs \<le> length buf
      then Some (take off buf @ bs @ drop (off + length bs) buf) else None)"

text \<open>A typed load of a fixed-width field.\<close>

definition fetch :: "(u8 list \<Rightarrow> 'a) \<Rightarrow> nat \<Rightarrow> u8 list \<Rightarrow> nat \<Rightarrow> 'a option" where
  "fetch dec w buf off = map_option dec (get_bytes buf off w)"

lemma put_bytes_Some_iff: "(\<exists>buf'. put_bytes buf off bs = Some buf') \<longleftrightarrow> off + length bs \<le> length buf"
  by (simp add: put_bytes_def)

lemma length_put_bytes: "put_bytes buf off bs = Some buf' \<Longrightarrow> length buf' = length buf"
  by (auto simp: put_bytes_def split: if_splits)

lemma put_bytes_Nil [simp]: "off \<le> length buf \<Longrightarrow> put_bytes buf off [] = Some buf"
  by (simp add: put_bytes_def)

text \<open>Two adjacent writes are one write of the concatenation.\<close>

lemma put_bytes_append:
  "put_bytes buf off (xs @ ys) =
     do { b \<leftarrow> put_bytes buf off xs; put_bytes b (off + length xs) ys }"
proof (cases "off + length xs + length ys \<le> length buf")
  case True
  then show ?thesis by (simp add: put_bytes_def min_absorb2 ac_simps)
next
  case False
  then show ?thesis by (simp add: put_bytes_def min_absorb2)
qed

lemma put_bytes_overwrite:
  assumes "put_bytes buf off xs = Some b" and "length ys = length xs"
  shows "put_bytes b off ys = put_bytes buf off ys"
  using assms by (auto simp: put_bytes_def min_absorb2 split: if_splits)

lemma put_bytes_over_prefix:
  assumes "put_bytes buf off xs = Some b" and "length ys \<le> length xs"
  shows "put_bytes b off ys = put_bytes buf off (ys @ drop (length ys) xs)"
  using assms
  by (auto simp: put_bytes_def min_absorb2 ac_simps split: if_splits)

text \<open>Writes to disjoint ranges commute.\<close>

lemma put_bytes_commute:
  assumes "put_bytes buf i xs = Some b" and "put_bytes b j ys = Some c" and "j + length ys \<le> i"
  shows "\<exists>d. put_bytes buf j ys = Some d \<and> put_bytes d i xs = Some c"
proof -
  from assms have l: "i + length xs \<le> length buf" "j + length ys \<le> i"
    and b: "b = take i buf @ xs @ drop (i + length xs) buf"
    by (auto simp: put_bytes_def split: if_splits)
  from assms(2) b l have c: "c = take j b @ ys @ drop (j + length ys) b"
    by (auto simp: put_bytes_def split: if_splits)
  let ?d = "take j buf @ ys @ drop (j + length ys) buf"
  have "take i ?d @ xs @ drop (i + length xs) ?d = c"
    unfolding c b using l by (simp add: min_absorb1 min_absorb2 drop_take)
  moreover have "length ?d = length buf" using l by simp
  ultimately show ?thesis using l by (auto simp: put_bytes_def)
qed

lemma get_bytes_put_bytes_same:
  "put_bytes buf off bs = Some buf' \<Longrightarrow> get_bytes buf' off (length bs) = Some bs"
  by (auto simp: put_bytes_def get_bytes_def split: if_splits)

lemma get_bytes_put_bytes_other:
  assumes "put_bytes buf off bs = Some buf'" and "i + n \<le> off \<or> off + length bs \<le> i"
  shows "get_bytes buf' i n = get_bytes buf i n"
  using assms
  by (auto simp: put_bytes_def get_bytes_def drop_take min_absorb1 min_absorb2 split: if_splits)

lemma put_bytes_prefix:
  "put_bytes buf off bs = Some buf' \<Longrightarrow> take off buf' = take off buf"
  by (auto simp: put_bytes_def split: if_splits)

lemma put_bytes_suffix:
  "put_bytes buf off bs = Some buf' \<Longrightarrow>
     drop off buf' = bs @ drop (off + length bs) buf"
  by (auto simp: put_bytes_def split: if_splits)

lemma put_bytes_drop_after:
  "put_bytes buf off bs = Some buf' \<Longrightarrow> off + length bs \<le> k \<Longrightarrow> drop k buf' = drop k buf"
  by (auto simp: put_bytes_def split: if_splits)

lemma put_bytes_take_before:
  "put_bytes buf off bs = Some buf' \<Longrightarrow> k \<le> off \<Longrightarrow> take k buf' = take k buf"
  by (auto simp: put_bytes_def min_def split: if_splits)

lemma get_bytes_all: "off \<le> length buf \<Longrightarrow> n = length buf - off \<Longrightarrow> get_bytes buf off n = Some (drop off buf)"
  by (simp add: get_bytes_def)

lemma get_bytes_0 [simp]: "n \<le> length buf \<Longrightarrow> get_bytes buf 0 n = Some (take n buf)"
  by (simp add: get_bytes_def)

lemma get_bytes_drop [buf_simps]:
  "off \<le> length buf \<Longrightarrow> get_bytes (drop off buf) i n = get_bytes buf (off + i) n"
  by (auto simp: get_bytes_def add.commute)

lemma get_bytes_append [buf_simps]:
  "get_bytes (xs @ ys) (length xs + i) n = get_bytes ys i n"
  by (simp add: get_bytes_def)

lemma get_bytes_within:
  assumes "get_bytes part i n = Some bs" and "drop off buf = part @ rest" and "off \<le> length buf"
  shows "get_bytes buf (off + i) n = Some bs"
proof -
  from assms(1) have "i + n \<le> length part" and bs: "bs = take n (drop i part)"
    by (auto simp: get_bytes_def split: if_splits)
  moreover have "length buf = off + length part + length rest"
    using arg_cong [OF assms(2), of length] assms(3) by simp
  moreover have "drop (off + i) buf = drop i part @ drop (i - length part) rest"
    using assms(2) by (metis add.commute drop_append drop_drop)
  ultimately show ?thesis by (simp add: get_bytes_def)
qed

lemma drop_after: "drop off xs = ys @ zs \<Longrightarrow> drop (off + length ys) xs = zs"
  by (metis add.commute append_eq_conv_conj drop_drop)

lemma length_get_bytes: "get_bytes buf off n = Some bs \<Longrightarrow> length bs = n"
  by (auto simp: get_bytes_def split: if_splits)

lemma fetch_within:
  "fetch dec w part i = Some v \<Longrightarrow> drop off buf = part @ rest \<Longrightarrow> off \<le> length buf \<Longrightarrow>
     fetch dec w buf (off + i) = Some v"
  by (auto simp: fetch_def dest: get_bytes_within)

section \<open>Fixed-width fields\<close>

text \<open>
  An interface to the layout of one field type: an encoder to a fixed number of bytes and the
  decoder that a typed load applies.  The components use it for the \<open>u32\<close> and \<open>u64\<close>
  fields of the on-flash structures.
\<close>

locale fixed_codec =
  fixes enc :: "'a \<Rightarrow> u8 list" and dec :: "u8 list \<Rightarrow> 'a" and width :: nat
  assumes length_enc: "length (enc v) = width"
    and dec_enc: "dec (enc v) = v"
begin

lemma enc_inject: "enc v = enc w \<longleftrightarrow> v = w"
  using dec_enc by metis

lemma fetch_at: "fetch dec width (xs @ enc v @ ys) (length xs) = Some v"
  by (simp add: fetch_def get_bytes_def length_enc dec_enc)

lemma fetch_start: "fetch dec width (enc v @ ys) 0 = Some v"
  using fetch_at [of "[]"] by simp

lemma fetch_put:
  "put_bytes buf off (enc v) = Some buf' \<Longrightarrow> fetch dec width buf' off = Some v"
  by (auto simp: fetch_def length_enc dec_enc dest: get_bytes_put_bytes_same)

lemma fetch_put_other:
  "put_bytes buf off (enc v) = Some buf' \<Longrightarrow> i + width \<le> off \<or> off + width \<le> i \<Longrightarrow>
     fetch dec width buf' i = fetch dec width buf i"
  by (simp add: fetch_def get_bytes_put_bytes_other length_enc)

end

definition le32 :: "u32 \<Rightarrow> u8 list" where
  "le32 w = [ucast w, ucast (drop_bit 8 w), ucast (drop_bit 16 w), ucast (drop_bit 24 w)]"

fun of_le32 :: "u8 list \<Rightarrow> u32" where
  "of_le32 [a, b, c, d] =
     ucast a OR push_bit 8 (ucast b) OR push_bit 16 (ucast c) OR push_bit 24 (ucast d)"
| "of_le32 _ = 0"

definition le64 :: "u64 \<Rightarrow> u8 list" where
  "le64 w = le32 (ucast w) @ le32 (ucast (drop_bit 32 w))"

definition of_le64 :: "u8 list \<Rightarrow> u64" where
  "of_le64 bs = ucast (of_le32 (take 4 bs)) OR push_bit 32 (ucast (of_le32 (drop 4 bs)))"

abbreviation rd32 :: "u8 list \<Rightarrow> nat \<Rightarrow> u32 option" where
  "rd32 \<equiv> fetch of_le32 4"

abbreviation rd64 :: "u8 list \<Rightarrow> nat \<Rightarrow> u64 option" where
  "rd64 \<equiv> fetch of_le64 8"

lemma length_le32 [simp]: "length (le32 w) = 4"
  by (simp add: le32_def)

lemma length_le64 [simp]: "length (le64 w) = 8"
  by (simp add: le64_def)

lemma bit_of_le32_le32:
  assumes "n < 32"
  shows "bit (of_le32 (le32 w)) n = bit w n"
proof -
  from assms consider "n < 8" | "8 \<le> n" "n < 16" | "16 \<le> n" "n < 24" | "24 \<le> n"
    by linarith
  then show ?thesis
    using assms by cases (auto simp: le32_def bit_simps)
qed

lemma of_le32_le32 [simp]: "of_le32 (le32 w) = w"
  by (rule bit_word_eqI) (simp add: bit_of_le32_le32)

lemma of_le64_le64 [simp]: "of_le64 (le64 w) = w"
  unfolding le64_def of_le64_def by (rule bit_word_eqI) (auto simp: bit_simps)

interpretation f32: fixed_codec le32 of_le32 4
  by unfold_locales simp_all

interpretation f64: fixed_codec le64 of_le64 8
  by unfold_locales simp_all

lemma rd32_in_range: "off + 4 \<le> length buf \<Longrightarrow> \<exists>w. rd32 buf off = Some w"
  by (simp add: fetch_def get_bytes_def)

end
