(* ===== verification/Normal_Key_Tlv.thy ===== *)
theory Normal_Key_Tlv
  imports Aml_Prelude
begin

text \<open>
  The tag-length-value codec of \<open>soc/amlogic/unifykey/normal_key.c\<close>, in which the normal
  key store is kept on flash: the writers \<open>Tlv_WriteUint32\<close>, \<open>Tlv_WriteBuf\<close>,
  \<open>Tlv_WriteHead\<close> and \<open>Tlv_WriteObject\<close>, the readers \<open>Tlv_ReadTl\<close>,
  \<open>Tlv_ReadHead\<close> and \<open>Tlv_ReadObject\<close>, and the theorems that a reader recovers what a
  writer produced.

  A pointer into a buffer is a pair of the buffer and an offset.  \<open>len\<close> arguments are the
  \<open>int32_t\<close> lengths of the source and keep their sign.  The readers add lengths taken from
  the input to \<open>idx\<close>; the check \<open>8 + length > len\<close> of \<open>Tlv_ReadTl\<close> bounds every such
  sum by \<open>len < 2 ^ 31\<close>, so the \<open>u32\<close> additions cannot wrap and are plain additions here.
\<close>

section \<open>Objects and tags\<close>

datatype emTLVTag =
    EMTLVNONE
  | EMTLVHEAD | EMTLVHEADSIZE
  | EMTLVOBJECT | EMTLVOBJNAMESIZE | EMTLVOBJNAME | EMTLVOBJDATASIZE | EMTLVOBJDATABUF
  | EMTLVOBJTYPE | EMTLVOBJATTR | EMTLVOBJHASHBUF
  | EMTLVHEADFLASHSIZE

primrec tagval :: "emTLVTag \<Rightarrow> u32" where
  "tagval EMTLVNONE = 0"
| "tagval EMTLVHEAD = 1"
| "tagval EMTLVHEADSIZE = 2"
| "tagval EMTLVOBJECT = 3"
| "tagval EMTLVOBJNAMESIZE = 4"
| "tagval EMTLVOBJNAME = 5"
| "tagval EMTLVOBJDATASIZE = 6"
| "tagval EMTLVOBJDATABUF = 7"
| "tagval EMTLVOBJTYPE = 8"
| "tagval EMTLVOBJATTR = 9"
| "tagval EMTLVOBJHASHBUF = 10"
| "tagval EMTLVHEADFLASHSIZE = 11"

abbreviation (input) MAX_OBJ_NAME_LEN :: nat where "MAX_OBJ_NAME_LEN \<equiv> 80"

text \<open>\<open>struct storage_object\<close>; the data pointer is \<open>None\<close> for NULL and otherwise the whole
  allocated buffer, whose length is its capacity.\<close>

record storage_object =
  oname :: "u8 list"
  namesize :: u32
  attribute :: u32
  otype :: u32
  datasize :: u32
  dataptr :: "u8 list option"
  hashptr :: "u8 list"

record storage_block_enc_head =
  blocksize :: u32
  flashsize :: u32

definition zero_object :: storage_object where
  "zero_object = \<lparr>oname = replicate MAX_OBJ_NAME_LEN 0, namesize = 0, attribute = 0, otype = 0,
     datasize = 0, dataptr = None, hashptr = replicate 32 0\<rparr>"

text \<open>
  The kernel allocator is a parameter: \<open>km n sz\<close> is the outcome of the \<open>n\<close>th call of
  \<open>kmalloc\<close>, for \<open>sz\<close> bytes: \<open>None\<close> if it fails, otherwise the (uninitialised)
  contents of the new buffer.  Its documented behaviour is that a buffer has the size asked for.
\<close>

type_synonym kmalloc_t = "nat \<Rightarrow> nat \<Rightarrow> u8 list option"

definition kmalloc_sized :: "kmalloc_t \<Rightarrow> bool" where
  "kmalloc_sized km \<longleftrightarrow> (\<forall>n sz bs. km n sz = Some bs \<longrightarrow> length bs = sz)"

definition kmalloc_succeeds :: "kmalloc_t \<Rightarrow> bool" where
  "kmalloc_succeeds km \<longleftrightarrow> (\<forall>n sz. \<exists>bs. km n sz = Some bs \<and> length bs = sz)"

lemma kmalloc_succeeds_sized: "kmalloc_succeeds km \<Longrightarrow> kmalloc_sized km"
  unfolding kmalloc_sized_def kmalloc_succeeds_def by (metis option.inject)

section \<open>Writers\<close>

definition Tlv_WriteUint32 :: "u8 list \<Rightarrow> nat \<Rightarrow> int \<Rightarrow> u32 \<Rightarrow> u32 \<Rightarrow> (u8 list \<times> nat) option" where
  "Tlv_WriteUint32 out off len tag value =
     (if len < 12 then Some (out, 0)
      else do {
        out \<leftarrow> put_bytes out off (le32 tag);
        out \<leftarrow> put_bytes out (off + 4) (le32 4);
        out \<leftarrow> put_bytes out (off + 8) (le32 value);
        Some (out, 12)
      })"

definition tlv_tmplen :: "u32 \<Rightarrow> nat" where
  "tlv_tmplen blen = ((unat blen + 3) div 4 * 4) mod 2 ^ 32"

definition Tlv_WriteBuf ::
    "u8 list \<Rightarrow> nat \<Rightarrow> int \<Rightarrow> u32 \<Rightarrow> u32 \<Rightarrow> u8 list \<Rightarrow> (u8 list \<times> nat) option" where
  "Tlv_WriteBuf out off len tag blen input =
     (if len < s32 (8 + int (tlv_tmplen blen)) then Some (out, 0)
      else do {
        out \<leftarrow> put_bytes out off (le32 tag);
        out \<leftarrow> put_bytes out (off + 4) (le32 (of_nat (tlv_tmplen blen)));
        out \<leftarrow> put_bytes out (off + 8) (replicate (tlv_tmplen blen) 0);
        src \<leftarrow> get_bytes input 0 (unat blen);
        out \<leftarrow> put_bytes out (off + 8) src;
        Some (out, (tlv_tmplen blen + 8) mod 2 ^ 32)
      })"

text \<open>
  The macros \<open>WRT_UINT32\<close> and \<open>WRT_BUF\<close> write at \<open>output + idx\<close> and advance \<open>idx\<close>;
  the flag says whether the value of the macro is non-zero.  \<open>wrt_all\<close> is the sequence of
  \<open>if (!WRT_...) return 0;\<close> statements of a writer.
\<close>

type_synonym wstep = "u8 list \<Rightarrow> nat \<Rightarrow> (u8 list \<times> nat \<times> bool) option"

definition WRT_UINT32 :: "nat \<Rightarrow> int \<Rightarrow> u32 \<Rightarrow> u32 \<Rightarrow> wstep" where
  "WRT_UINT32 output len tag val out idx =
     do { (out, t) \<leftarrow> Tlv_WriteUint32 out (output + idx) (s32 (len - int idx)) tag val;
          Some (out, idx + t, t \<noteq> 0) }"

definition WRT_BUF :: "nat \<Rightarrow> int \<Rightarrow> u32 \<Rightarrow> u32 \<Rightarrow> u8 list \<Rightarrow> wstep" where
  "WRT_BUF output len tag blen buf out idx =
     do { (out, t) \<leftarrow> Tlv_WriteBuf out (output + idx) (s32 (len - int idx)) tag blen buf;
          Some (out, idx + t, t \<noteq> 0) }"

fun wrt_all :: "wstep list \<Rightarrow> wstep" where
  "wrt_all [] out idx = Some (out, idx, True)"
| "wrt_all (st # sts) out idx =
     do { (out, idx, ok) \<leftarrow> st out idx;
          if ok then wrt_all sts out idx else Some (out, idx, False) }"

definition Tlv_WriteHead ::
    "storage_block_enc_head \<Rightarrow> u8 list \<Rightarrow> nat \<Rightarrow> int \<Rightarrow> (u8 list \<times> nat) option" where
  "Tlv_WriteHead h out output len =
     (if len < 8 then Some (out, 0)
      else do {
        out \<leftarrow> put_bytes out output (le32 (tagval EMTLVHEAD));
        (out, idx, ok) \<leftarrow> wrt_all
           [WRT_UINT32 output len (tagval EMTLVHEADSIZE) (blocksize h),
            WRT_UINT32 output len (tagval EMTLVHEADFLASHSIZE) (flashsize h)] out 8;
        if \<not> ok then Some (out, 0)
        else do {
          out \<leftarrow> put_bytes out (output + 4) (le32 (of_nat (idx - 8)));
          Some (out, idx)
        }
      })"

definition obj_wsteps :: "storage_object \<Rightarrow> nat \<Rightarrow> int \<Rightarrow> wstep list" where
  "obj_wsteps obj output len =
     (if namesize obj \<noteq> 0
      then [WRT_UINT32 output len (tagval EMTLVOBJNAMESIZE) (namesize obj),
            WRT_BUF output len (tagval EMTLVOBJNAME) (namesize obj) (oname obj)]
      else []) @
     (case dataptr obj of
        Some d \<Rightarrow>
          (if datasize obj \<noteq> 0
           then [WRT_UINT32 output len (tagval EMTLVOBJDATASIZE) (datasize obj),
                 WRT_BUF output len (tagval EMTLVOBJDATABUF) (datasize obj) d]
           else [])
      | None \<Rightarrow> []) @
     [WRT_BUF output len (tagval EMTLVOBJHASHBUF) 32 (hashptr obj),
      WRT_UINT32 output len (tagval EMTLVOBJTYPE) (otype obj),
      WRT_UINT32 output len (tagval EMTLVOBJATTR) (attribute obj)]"

definition Tlv_WriteObject ::
    "storage_object \<Rightarrow> u8 list \<Rightarrow> nat \<Rightarrow> int \<Rightarrow> (u8 list \<times> nat) option" where
  "Tlv_WriteObject obj out output len =
     (if len < 8 then Some (out, 0)
      else do {
        out \<leftarrow> put_bytes out output (le32 (tagval EMTLVOBJECT));
        (out, idx, ok) \<leftarrow> wrt_all (obj_wsteps obj output len) out 8;
        if \<not> ok then Some (out, 0)
        else do {
          out \<leftarrow> put_bytes out (output + 4) (le32 (of_nat (idx - 8)));
          Some (out, idx)
        }
      })"

section \<open>Readers\<close>

text \<open>\<open>Some None\<close> is a return value of 0; \<open>Some (Some (tag, length))\<close> is a return value of 8.\<close>

definition Tlv_ReadTl :: "u8 list \<Rightarrow> nat \<Rightarrow> int \<Rightarrow> (u32 \<times> u32) option option" where
  "Tlv_ReadTl input off len =
     (if len < 8 then Some None
      else do {
        tag \<leftarrow> rd32 input off;
        l \<leftarrow> rd32 input (off + 4);
        if 8 + uint l > len then Some None else Some (Some (tag, l))
      })"

function tlv_head_loop ::
    "u8 list \<Rightarrow> nat \<Rightarrow> int \<Rightarrow> nat \<Rightarrow> nat \<Rightarrow> storage_block_enc_head \<Rightarrow>
       (nat \<times> storage_block_enc_head) option" where
  "tlv_head_loop input base len tot idx h =
     (if idx < tot then do {
        r \<leftarrow> Tlv_ReadTl input (base + idx) (s32 (len - int idx));
        (case r of
           None \<Rightarrow> Some (0, h)
         | Some (tag, l) \<Rightarrow> do {
             h \<leftarrow> (if tag = tagval EMTLVHEADSIZE then do {
                      v \<leftarrow> rd32 input (base + idx + 8); Some (h\<lparr>blocksize := v\<rparr>) }
                    else if tag = tagval EMTLVHEADFLASHSIZE then do {
                      v \<leftarrow> rd32 input (base + idx + 8); Some (h\<lparr>flashsize := v\<rparr>) }
                    else Some h);
             tlv_head_loop input base len tot (idx + 8 + unat l) h })
      } else Some (tot, h))"
  by pat_completeness auto
termination
  by (relation "measure (\<lambda>(input, base, len, tot, idx, h). tot - idx)") auto

declare tlv_head_loop.simps [simp del]

definition Tlv_ReadHead ::
    "u8 list \<Rightarrow> nat \<Rightarrow> int \<Rightarrow> storage_block_enc_head \<Rightarrow> (nat \<times> storage_block_enc_head) option" where
  "Tlv_ReadHead input base len h =
     do { r \<leftarrow> Tlv_ReadTl input base len;
          case r of
            None \<Rightarrow> Some (0, h)
          | Some (tag, tot) \<Rightarrow>
              if tag \<noteq> tagval EMTLVHEAD then Some (0, h)
              else tlv_head_loop input base len (unat tot + 8) 8 h }"

text \<open>
  One round of the \<open>switch\<close> of \<open>Tlv_ReadObject\<close> at the payload position \<open>p\<close>:
  \<open>Some None\<close> is the jump to the error label.
\<close>

definition tlv_obj_field ::
    "kmalloc_t \<Rightarrow> u8 list \<Rightarrow> nat \<Rightarrow> u32 \<Rightarrow> u32 \<Rightarrow> storage_object \<Rightarrow> nat \<Rightarrow>
       (storage_object \<times> nat) option option" where
  "tlv_obj_field km input p tag l pc n =
     (if tag = tagval EMTLVOBJNAMESIZE then do {
        v \<leftarrow> rd32 input p; Some (Some (pc\<lparr>namesize := v\<rparr>, n)) }
      else if tag = tagval EMTLVOBJNAME then do {
        src \<leftarrow> get_bytes input p (unat (namesize pc));
        nm \<leftarrow> put_bytes (replicate MAX_OBJ_NAME_LEN 0) 0 src;
        Some (Some (pc\<lparr>oname := nm\<rparr>, n)) }
      else if tag = tagval EMTLVOBJTYPE then do {
        v \<leftarrow> rd32 input p; Some (Some (pc\<lparr>otype := v\<rparr>, n)) }
      else if tag = tagval EMTLVOBJATTR then do {
        v \<leftarrow> rd32 input p; Some (Some (pc\<lparr>attribute := v\<rparr>, n)) }
      else if tag = tagval EMTLVOBJDATASIZE then do {
        v \<leftarrow> rd32 input p; Some (Some (pc\<lparr>datasize := v\<rparr>, n)) }
      else if tag = tagval EMTLVOBJHASHBUF then
        (if l \<noteq> 32 then Some None
         else do { h \<leftarrow> get_bytes input p 32; Some (Some (pc\<lparr>hashptr := h\<rparr>, n)) })
      else if tag = tagval EMTLVOBJDATABUF then
        (case km n (unat (datasize pc)) of
           None \<Rightarrow> Some None
         | Some buf \<Rightarrow> do {
             src \<leftarrow> get_bytes input p (unat (datasize pc));
             buf \<leftarrow> put_bytes buf 0 src;
             Some (Some (pc\<lparr>dataptr := Some buf\<rparr>, Suc n)) })
      else Some (Some (pc, n)))"

function tlv_object_loop ::
    "kmalloc_t \<Rightarrow> u8 list \<Rightarrow> nat \<Rightarrow> int \<Rightarrow> nat \<Rightarrow> nat \<Rightarrow> storage_object \<Rightarrow> nat \<Rightarrow>
       (nat \<times> storage_object \<times> nat) option" where
  "tlv_object_loop km input base len tot idx pc n =
     (if idx < tot then do {
        r \<leftarrow> Tlv_ReadTl input (base + idx) (s32 (len - int idx));
        (case r of
           None \<Rightarrow> Some (0, pc, n)
         | Some (tag, l) \<Rightarrow> do {
             f \<leftarrow> tlv_obj_field km input (base + idx + 8) tag l pc n;
             (case f of
                None \<Rightarrow> Some (0, pc, n)
              | Some (pc, n) \<Rightarrow> tlv_object_loop km input base len tot (idx + 8 + unat l) pc n) })
      } else Some (tot, pc, n))"
  by pat_completeness auto
termination
  by (relation "measure (\<lambda>(km, input, base, len, tot, idx, pc, n). tot - idx)") auto

declare tlv_object_loop.simps [simp del]

definition Tlv_ReadObject ::
    "kmalloc_t \<Rightarrow> u8 list \<Rightarrow> nat \<Rightarrow> int \<Rightarrow> nat \<Rightarrow> (nat \<times> storage_object \<times> nat) option" where
  "Tlv_ReadObject km input base len n =
     do { r \<leftarrow> Tlv_ReadTl input base len;
          case r of
            None \<Rightarrow> Some (0, zero_object, n)
          | Some (tag, tot) \<Rightarrow>
              if tag \<noteq> tagval EMTLVOBJECT then Some (0, zero_object, n)
              else tlv_object_loop km input base len (unat tot + 8) 8 zero_object n }"

section \<open>The format\<close>

text \<open>
  The byte format as a specification: an entry is a tag, a length and a payload; an object is
  an entry whose payload is the concatenation of its field entries.
\<close>

definition tlv_entry :: "u32 \<Rightarrow> u8 list \<Rightarrow> u8 list" where
  "tlv_entry tag p = le32 tag @ le32 (of_nat (length p)) @ p"

definition pad4 :: "u8 list \<Rightarrow> u8 list" where
  "pad4 bs = bs @ replicate ((length bs + 3) div 4 * 4 - length bs) 0"

definition entries_bytes :: "(u32 \<times> u8 list) list \<Rightarrow> u8 list" where
  "entries_bytes es = concat (map (\<lambda>(t, p). tlv_entry t p) es)"

definition obj_entries :: "storage_object \<Rightarrow> (u32 \<times> u8 list) list" where
  "obj_entries obj =
     (if namesize obj \<noteq> 0
      then [(tagval EMTLVOBJNAMESIZE, le32 (namesize obj)),
            (tagval EMTLVOBJNAME, pad4 (take (unat (namesize obj)) (oname obj)))]
      else []) @
     (case dataptr obj of
        Some d \<Rightarrow>
          (if datasize obj \<noteq> 0
           then [(tagval EMTLVOBJDATASIZE, le32 (datasize obj)),
                 (tagval EMTLVOBJDATABUF, pad4 (take (unat (datasize obj)) d))]
           else [])
      | None \<Rightarrow> []) @
     [(tagval EMTLVOBJHASHBUF, hashptr obj),
      (tagval EMTLVOBJTYPE, le32 (otype obj)),
      (tagval EMTLVOBJATTR, le32 (attribute obj))]"

definition obj_bytes :: "storage_object \<Rightarrow> u8 list" where
  "obj_bytes obj = tlv_entry (tagval EMTLVOBJECT) (entries_bytes (obj_entries obj))"

definition head_bytes :: "storage_block_enc_head \<Rightarrow> u8 list" where
  "head_bytes h = tlv_entry (tagval EMTLVHEAD)
     (tlv_entry (tagval EMTLVHEADSIZE) (le32 (blocksize h)) @
      tlv_entry (tagval EMTLVHEADFLASHSIZE) (le32 (flashsize h)))"

text \<open>Well-formed objects: what the store keeps in memory.\<close>

definition wf_object :: "storage_object \<Rightarrow> bool" where
  "wf_object obj \<longleftrightarrow>
     length (oname obj) = MAX_OBJ_NAME_LEN \<and> unat (namesize obj) \<le> MAX_OBJ_NAME_LEN \<and>
     length (hashptr obj) = 32 \<and>
     (case dataptr obj of None \<Rightarrow> datasize obj = 0 | Some d \<Rightarrow> unat (datasize obj) \<le> length d) \<and>
     unat (datasize obj) < 2 ^ 30"

text \<open>What a reader recovers: the name padded with zeros, the data cut to its size.\<close>

definition obj_norm :: "storage_object \<Rightarrow> storage_object" where
  "obj_norm obj = obj\<lparr>
     oname := take (unat (namesize obj)) (oname obj) @
              replicate (MAX_OBJ_NAME_LEN - unat (namesize obj)) 0,
     dataptr := (if datasize obj = 0 then None
                 else map_option (take (unat (datasize obj))) (dataptr obj))\<rparr>"

subsection \<open>Sizes\<close>

lemma length_tlv_entry [simp]: "length (tlv_entry t p) = 8 + length p"
  by (simp add: tlv_entry_def)

lemma length_pad4: "length (pad4 bs) = (length bs + 3) div 4 * 4"
  by (simp add: pad4_def)

lemma entries_bytes_simps [simp]:
  "entries_bytes [] = []"
  "entries_bytes ((t, p) # es) = tlv_entry t p @ entries_bytes es"
  "entries_bytes (es @ fs) = entries_bytes es @ entries_bytes fs"
  by (simp_all add: entries_bytes_def)

lemma wf_object_take_data:
  "wf_object obj \<Longrightarrow> dataptr obj = Some d \<Longrightarrow> length (take (unat (datasize obj)) d) = unat (datasize obj)"
  by (auto simp: wf_object_def min_def)

lemma wf_object_take_name:
  "wf_object obj \<Longrightarrow> length (take (unat (namesize obj)) (oname obj)) = unat (namesize obj)"
  by (auto simp: wf_object_def min_def)

lemma length_head_bytes [simp]: "length (head_bytes h) = 32"
  by (simp add: head_bytes_def)

lemma tlv_tmplen_small: "unat blen < 2 ^ 30 \<Longrightarrow> tlv_tmplen blen = (unat blen + 3) div 4 * 4"
proof -
  assume "unat blen < 2 ^ 30"
  then have "(unat blen + 3) div 4 * 4 < 2 ^ 32" by simp
  then show ?thesis by (simp add: tlv_tmplen_def)
qed

section \<open>The writers produce the format\<close>

lemma Tlv_WriteUint32_bytes:
  assumes "12 \<le> len"
  shows "Tlv_WriteUint32 out off len tag v =
     map_option (\<lambda>o'. (o', 12)) (put_bytes out off (tlv_entry tag (le32 v)))"
  using assms
  by (simp add: Tlv_WriteUint32_def tlv_entry_def put_bytes_append map_conv_bind_option
      comp_def add.commute [of 8])

lemma Tlv_WriteBuf_bytes:
  assumes "8 + int ((unat blen + 3) div 4 * 4) \<le> len" and "unat blen < 2 ^ 30"
    and "unat blen \<le> length input"
  shows "Tlv_WriteBuf out off len tag blen input =
     map_option (\<lambda>o'. (o', 8 + (unat blen + 3) div 4 * 4))
       (put_bytes out off (tlv_entry tag (pad4 (take (unat blen) input))))"
proof -
  define t where "t = (unat blen + 3) div 4 * 4"
  have t: "tlv_tmplen blen = t" using assms(2) by (simp add: tlv_tmplen_small t_def)
  have ge: "unat blen \<le> t" and lt: "t < 2 ^ 31 - 8" using assms(2) by (simp_all add: t_def)
  have s: "s32 (8 + int t) = 8 + int t" using lt by (intro s32_id) auto
  have m: "(t + 8) mod 4294967296 = 8 + t" using lt by simp
  define src where "src = take (unat blen) input"
  have src: "get_bytes input 0 (unat blen) = Some src" "length src = unat blen"
    using assms(3) by (simp_all add: src_def)
  have pad: "pad4 src = src @ replicate (t - length src) 0" by (simp add: pad4_def t_def src(2))
  have zeros: "do { o' \<leftarrow> put_bytes b j (replicate t 0); put_bytes o' j src } = put_bytes b j (pad4 src)"
    for b j
    using src(2) ge
    by (cases "put_bytes b j (replicate t 0)")
      (auto simp: pad put_bytes_over_prefix, auto simp: put_bytes_def)
  have "Tlv_WriteBuf out off len tag blen input =
      do { o' \<leftarrow> put_bytes out off (le32 tag);
           o' \<leftarrow> put_bytes o' (off + 4) (le32 (of_nat t));
           o' \<leftarrow> do { z \<leftarrow> put_bytes o' (off + 8) (replicate t 0); put_bytes z (off + 8) src };
           Some (o', 8 + t) }"
    using assms(1) by (simp add: Tlv_WriteBuf_def t s m src t_def [symmetric])
  also have "\<dots> = map_option (\<lambda>o'. (o', 8 + t)) (put_bytes out off (tlv_entry tag (pad4 src)))"
    unfolding zeros using ge src(2)
    by (simp add: tlv_entry_def pad put_bytes_append map_conv_bind_option comp_def
        add.commute [of 8])
  finally show ?thesis by (simp add: t_def src_def)
qed

text \<open>A write step of a writer and the entry it writes, if there is room for it.\<close>

definition step_writes :: "nat \<Rightarrow> int \<Rightarrow> wstep \<Rightarrow> u32 \<times> u8 list \<Rightarrow> bool" where
  "step_writes base len st e \<longleftrightarrow>
     (\<forall>out idx. int idx \<le> len \<longrightarrow>
        st out idx =
          (if int idx + int (length (entries_bytes [e])) \<le> len
           then map_option (\<lambda>o'. (o', idx + length (entries_bytes [e]), True))
                  (put_bytes out (base + idx) (entries_bytes [e]))
           else Some (out, idx, False)))"

lemma WRT_UINT32_writes:
  assumes "len < 2 ^ 31"
  shows "step_writes base len (WRT_UINT32 base len tag v) (tag, le32 v)"
  unfolding step_writes_def
proof (intro allI impI)
  fix out idx assume i: "int idx \<le> len"
  have s: "s32 (len - int idx) = len - int idx" using assms i by (intro s32_id) auto
  show "WRT_UINT32 base len tag v out idx =
     (if int idx + int (length (entries_bytes [(tag, le32 v)])) \<le> len
      then map_option (\<lambda>o'. (o', idx + length (entries_bytes [(tag, le32 v)]), True))
             (put_bytes out (base + idx) (entries_bytes [(tag, le32 v)]))
      else Some (out, idx, False))"
  proof (cases "12 \<le> len - int idx")
    case True
    then show ?thesis
      by (simp add: WRT_UINT32_def s Tlv_WriteUint32_bytes map_conv_bind_option comp_def)
  next
    case False
    then show ?thesis by (simp add: WRT_UINT32_def s Tlv_WriteUint32_def)
  qed
qed

lemma WRT_BUF_writes:
  assumes "len < 2 ^ 31" and "unat blen < 2 ^ 30" and "unat blen \<le> length buf"
  shows "step_writes base len (WRT_BUF base len tag blen buf) (tag, pad4 (take (unat blen) buf))"
  unfolding step_writes_def
proof (intro allI impI)
  fix out idx assume i: "int idx \<le> len"
  have s: "s32 (len - int idx) = len - int idx" using assms(1) i by (intro s32_id) auto
  define t where "t = (unat blen + 3) div 4 * 4"
  have l: "length (entries_bytes [(tag, pad4 (take (unat blen) buf))]) = 8 + t"
    using assms(3) by (simp add: length_pad4 t_def min_def)
  have lt: "t < 2 ^ 31 - 8" using assms(2) by (simp add: t_def)
  then have s8: "s32 (8 + int t) = 8 + int t" by (intro s32_id) auto
  have tl: "tlv_tmplen blen = t" using assms(2) by (simp add: tlv_tmplen_small t_def)
  show "WRT_BUF base len tag blen buf out idx =
     (if int idx + int (length (entries_bytes [(tag, pad4 (take (unat blen) buf))])) \<le> len
      then map_option (\<lambda>o'. (o', idx + length (entries_bytes [(tag, pad4 (take (unat blen) buf))]), True))
             (put_bytes out (base + idx) (entries_bytes [(tag, pad4 (take (unat blen) buf))]))
      else Some (out, idx, False))"
  proof (cases "8 + int t \<le> len - int idx")
    case True
    then have "Tlv_WriteBuf out (base + idx) (len - int idx) tag blen buf =
        map_option (\<lambda>o'. (o', 8 + t))
          (put_bytes out (base + idx) (tlv_entry tag (pad4 (take (unat blen) buf))))"
      unfolding t_def using assms(2,3) by (intro Tlv_WriteBuf_bytes) auto
    with True l show ?thesis
      by (simp add: WRT_BUF_def s map_conv_bind_option comp_def)
  next
    case False
    then show ?thesis by (simp add: WRT_BUF_def s Tlv_WriteBuf_def tl s8 l del: entries_bytes_simps)
  qed
qed

lemma wrt_all_writes:
  assumes "list_all2 (step_writes base len) sts es"
    and "int idx + int (length (entries_bytes es)) \<le> len" and "base + idx \<le> length out"
  shows "wrt_all sts out idx =
     map_option (\<lambda>o'. (o', idx + length (entries_bytes es), True))
       (put_bytes out (base + idx) (entries_bytes es))"
  using assms
proof (induction sts es arbitrary: out idx rule: list_all2_induct)
  case Nil
  then show ?case by simp
next
  case (Cons st sts e es)
  obtain t p where e: "e = (t, p)" by (cases e)
  from Cons.hyps(1) Cons.prems(1) have st: "st out idx =
      map_option (\<lambda>o'. (o', idx + length (entries_bytes [e]), True))
        (put_bytes out (base + idx) (entries_bytes [e]))"
    by (simp add: step_writes_def e)
  show ?case
  proof (cases "put_bytes out (base + idx) (entries_bytes [e])")
    case None
    then show ?thesis using st by (simp add: e put_bytes_append)
  next
    case (Some b)
    then have lb: "length b = length out" and "base + idx + length (entries_bytes [e]) \<le> length out"
      by (auto simp: put_bytes_def split: if_splits)
    then have "wrt_all sts b (idx + length (entries_bytes [e])) =
        map_option (\<lambda>o'. (o', idx + length (entries_bytes [e]) + length (entries_bytes es), True))
          (put_bytes b (base + (idx + length (entries_bytes [e]))) (entries_bytes es))"
      using Cons.prems by (intro Cons.IH) (auto simp: e)
    with Some st show ?thesis by (simp add: e put_bytes_append ac_simps)
  qed
qed

lemma wrt_all_success_fits:
  assumes "list_all2 (step_writes base len) sts es" and "int idx \<le> len"
    and "wrt_all sts out idx = Some (out', idx', True)"
  shows "int idx + int (length (entries_bytes es)) \<le> len"
  using assms
proof (induction sts es arbitrary: out idx rule: list_all2_induct)
  case Nil
  then show ?case by simp
next
  case (Cons st sts e es)
  obtain t p where e: "e = (t, p)" by (cases e)
  note st = Cons.hyps(1) [unfolded step_writes_def, rule_format, OF Cons.prems(1), of out]
  show ?case
  proof (cases "int idx + int (length (entries_bytes [e])) \<le> len")
    case False
    then show ?thesis using st Cons.prems(2) by simp
  next
    case True
    with st Cons.prems(2) obtain b where
      b: "wrt_all sts b (idx + length (entries_bytes [e])) = Some (out', idx', True)"
      by (auto simp: Option.bind_eq_Some_conv)
    have "int (idx + length (entries_bytes [e])) + int (length (entries_bytes es)) \<le> len"
      using True b by (intro Cons.IH) auto
    then show ?thesis by (simp add: e)
  qed
qed

lemma put_header_last:
  assumes "length a = 4" and "length s = 4"
  shows "do { b \<leftarrow> put_bytes out off a; b \<leftarrow> put_bytes b (off + 8) body; put_bytes b (off + 4) s }
     = put_bytes out off (a @ s @ body)"
proof (cases "off + 8 + length body \<le> length out")
  case True
  then show ?thesis
    using assms by (simp add: put_bytes_def min_absorb1 min_absorb2 drop_take ac_simps)
next
  case False
  then show ?thesis using assms by (auto simp: put_bytes_def)
qed

text \<open>The common shape of \<open>Tlv_WriteHead\<close> and \<open>Tlv_WriteObject\<close>: tag, entries, then the sum.\<close>

lemma wrt_container:
  assumes "list_all2 (step_writes base len) sts es"
    and "8 + int (length (entries_bytes es)) \<le> len" and "base + 8 \<le> length out"
  shows "do {
        out \<leftarrow> put_bytes out base (le32 tag);
        (out, idx, ok) \<leftarrow> wrt_all sts out 8;
        if \<not> ok then Some (out, 0)
        else do { out \<leftarrow> put_bytes out (base + 4) (le32 (of_nat (idx - 8))); Some (out, idx) } } =
     map_option (\<lambda>o'. (o', 8 + length (entries_bytes es)))
       (put_bytes out base (tlv_entry tag (entries_bytes es)))"
    (is "?lhs = ?rhs")
proof -
  from assms(3) obtain b where b: "put_bytes out base (le32 tag) = Some b" and lb: "length b = length out"
    by (simp add: put_bytes_def)
  have "wrt_all sts b 8 = map_option (\<lambda>o'. (o', 8 + length (entries_bytes es), True))
       (put_bytes b (base + 8) (entries_bytes es))"
    using lb assms by (intro wrt_all_writes) auto
  then have "?lhs = map_option (\<lambda>o'. (o', 8 + length (entries_bytes es)))
      (do { c \<leftarrow> put_bytes b (base + 8) (entries_bytes es);
            put_bytes c (base + 4) (le32 (of_nat (length (entries_bytes es)))) })"
    by (simp add: b map_conv_bind_option comp_def)
  also have "\<dots> = ?rhs"
    using put_header_last [of "le32 tag" "le32 (of_nat (length (entries_bytes es)))" out base
        "entries_bytes es"] b
    by (simp add: tlv_entry_def)
  finally show ?thesis .
qed

lemma wrt_container_fits:
  assumes "list_all2 (step_writes base len) sts es" and "8 \<le> len"
    and "do {
        out \<leftarrow> put_bytes out base (le32 tag);
        (out, idx, ok) \<leftarrow> wrt_all sts out 8;
        if \<not> ok then Some (out, 0)
        else do { out \<leftarrow> put_bytes out (base + 4) (le32 (of_nat (idx - 8))); Some (out, idx) } } =
       Some (out', r)" and "r \<noteq> 0"
  shows "8 + int (length (entries_bytes es)) \<le> len"
proof -
  from assms(3,4) obtain b c i where "wrt_all sts b 8 = Some (c, i, True)"
    by (auto simp: Option.bind_eq_Some_conv split: if_splits)
  from wrt_all_success_fits [OF assms(1) _ this] assms(2) show ?thesis by simp
qed

lemma obj_wsteps_write:
  assumes "wf_object obj" and "len < 2 ^ 31"
  shows "list_all2 (step_writes base len) (obj_wsteps obj base len) (obj_entries obj)"
proof -
  have h: "step_writes base len (WRT_BUF base len t 32 (hashptr obj)) (t, hashptr obj)" for t
    using WRT_BUF_writes [of len 32 "hashptr obj" base t] assms
    by (simp add: wf_object_def pad4_def)
  have n: "step_writes base len (WRT_BUF base len t (namesize obj) (oname obj))
       (t, pad4 (take (unat (namesize obj)) (oname obj)))" for t
    using assms by (intro WRT_BUF_writes) (auto simp: wf_object_def)
  have d: "step_writes base len (WRT_BUF base len t (datasize obj) d)
       (t, pad4 (take (unat (datasize obj)) d))" if "dataptr obj = Some d" for t d
    using assms that by (intro WRT_BUF_writes) (auto simp: wf_object_def)
  show ?thesis
    unfolding obj_wsteps_def obj_entries_def
    using h n d WRT_UINT32_writes [OF assms(2)]
    by (auto split: option.splits intro!: list_all2_appendI)
qed

lemma length_obj_bytes: "length (obj_bytes obj) = 8 + length (entries_bytes (obj_entries obj))"
  by (simp add: obj_bytes_def)

lemma Tlv_WriteObject_bytes:
  assumes "wf_object obj" and "len < 2 ^ 31" and "int (length (obj_bytes obj)) \<le> len"
    and "output + 8 \<le> length out"
  shows "Tlv_WriteObject obj out output len =
     map_option (\<lambda>o'. (o', length (obj_bytes obj))) (put_bytes out output (obj_bytes obj))"
proof -
  from assms(3) have l: "8 + int (length (entries_bytes (obj_entries obj))) \<le> len"
    by (simp add: length_obj_bytes)
  with wrt_container [OF obj_wsteps_write [OF assms(1,2)] l assms(4)] show ?thesis
    by (simp add: Tlv_WriteObject_def obj_bytes_def)
qed

lemma Tlv_WriteObject_fits:
  assumes "wf_object obj" and "len < 2 ^ 31"
    and "Tlv_WriteObject obj out output len = Some (out', r)" and "r \<noteq> 0"
  shows "int (length (obj_bytes obj)) \<le> len"
proof (cases "len < 8")
  case True
  with assms(3,4) show ?thesis by (simp add: Tlv_WriteObject_def)
next
  case False
  with assms(3) wrt_container_fits [OF obj_wsteps_write [OF assms(1,2)] _ _ assms(4)]
  show ?thesis by (simp add: Tlv_WriteObject_def length_obj_bytes)
qed

text \<open>A writer never leaves its buffer, also when the entries do not fit.\<close>

lemma wrt_all_total:
  assumes "list_all2 (step_writes base len) sts es" and "int idx \<le> len" and "int base + len \<le> int (length out)"
  shows "\<exists>o' i ok. wrt_all sts out idx = Some (o', i, ok) \<and> length o' = length out \<and> idx \<le> i \<and> int i \<le> len"
  using assms
proof (induction sts es arbitrary: out idx rule: list_all2_induct)
  case Nil
  then show ?case by auto
next
  case (Cons st sts e es)
  note st = Cons.hyps(1) [unfolded step_writes_def, rule_format, OF Cons.prems(1), of out]
  let ?n = "length (entries_bytes [e])"
  show ?case
  proof (cases "int idx + int ?n \<le> len")
    case False
    then show ?thesis using st Cons.prems by auto
  next
    case True
    with Cons.prems(2) obtain b where b: "put_bytes out (base + idx) (entries_bytes [e]) = Some b" "length b = length out"
      by (auto simp: put_bytes_def)
    have "\<exists>o' i ok. wrt_all sts b (idx + ?n) = Some (o', i, ok) \<and> length o' = length b \<and> idx + ?n \<le> i \<and> int i \<le> len"
      using True Cons.prems(2) b(2) by (intro Cons.IH) auto
    then show ?thesis using True st b by auto
  qed
qed

lemma Tlv_WriteObject_total:
  assumes "wf_object obj" and "len < 2 ^ 31" and "int output + len \<le> int (length out)"
  shows "\<exists>out' r. Tlv_WriteObject obj out output len = Some (out', r) \<and> length out' = length out \<and> (r = 0 \<or> int r \<le> len)"
proof (cases "len < 8")
  case True
  then show ?thesis by (simp add: Tlv_WriteObject_def)
next
  case False
  with assms(3) obtain b where b: "put_bytes out output (le32 (tagval EMTLVOBJECT)) = Some b" "length b = length out"
    by (auto simp: put_bytes_def)
  have "\<exists>o' i ok. wrt_all (obj_wsteps obj output len) b 8 = Some (o', i, ok) \<and> length o' = length b \<and> 8 \<le> i \<and> int i \<le> len"
    using False b(2) assms(3) by (intro wrt_all_total [OF obj_wsteps_write [OF assms(1,2)]]) auto
  then obtain o' i ok where w: "wrt_all (obj_wsteps obj output len) b 8 = Some (o', i, ok)" "length o' = length out"
    "8 \<le> i" "int i \<le> len" using b(2) by auto
  have "\<exists>c. put_bytes o' (output + 4) (le32 (of_nat (i - 8))) = Some c \<and> length c = length out"
    using False w(2) assms(3) by (auto simp: put_bytes_def)
  then show ?thesis using False b w by (cases ok) (auto simp: Tlv_WriteObject_def)
qed

lemma Tlv_WriteHead_bytes:
  assumes "32 \<le> len" and "len < 2 ^ 31" and "output + 32 \<le> length out"
  shows "Tlv_WriteHead h out output len =
     map_option (\<lambda>o'. (o', 32)) (put_bytes out output (head_bytes h))"
proof -
  let ?es = "[(tagval EMTLVHEADSIZE, le32 (blocksize h)), (tagval EMTLVHEADFLASHSIZE, le32 (flashsize h))]"
  have "list_all2 (step_writes output len)
      [WRT_UINT32 output len (tagval EMTLVHEADSIZE) (blocksize h),
       WRT_UINT32 output len (tagval EMTLVHEADFLASHSIZE) (flashsize h)] ?es"
    using WRT_UINT32_writes [OF assms(2)] by simp
  from wrt_container [OF this, of out "tagval EMTLVHEAD"] assms show ?thesis
    by (simp add: Tlv_WriteHead_def head_bytes_def)
qed

section \<open>The readers recover the format\<close>

lemma Tlv_ReadTl_entry:
  assumes "drop off input = tlv_entry tag p @ rest" and "off \<le> length input"
    and "8 + int (length p) \<le> len" and "len < 2 ^ 31"
  shows "Tlv_ReadTl input off len = Some (Some (tag, of_nat (length p)))"
proof -
  have t: "rd32 input off = Some tag"
    using f32.fetch_at [of "take off input" tag] assms(1,2)
    by (metis append_take_drop_id length_take min_absorb2 tlv_entry_def append.assoc)
  have i: "input = (take off input @ le32 tag) @ le32 (of_nat (length p)) @ p @ rest"
    using assms(1,2) by (metis append_take_drop_id tlv_entry_def append.assoc)
  have l: "rd32 input (off + 4) = Some (of_nat (length p))"
    by (subst i) (use f32.fetch_at [of "take off input @ le32 tag" "of_nat (length p)"] assms(2) in simp)
  have u: "uint (of_nat (length p) :: u32) = int (length p)"
    using assms(3,4) by (simp add: unsigned_of_nat take_bit_nat_eq_self)
  show ?thesis using assms(3) by (simp add: Tlv_ReadTl_def t l u)
qed

text \<open>A field that is read inside its payload is read alike in any buffer that holds the payload.\<close>

lemma tlv_obj_field_within:
  assumes "tlv_obj_field km p 0 tag l pc n = Some r"
    and "drop off input = p @ rest" and "off \<le> length input"
  shows "tlv_obj_field km input off tag l pc n = Some r"
proof -
  have g: "get_bytes input off m = Some bs" if "get_bytes p 0 m = Some bs" for m bs
    using get_bytes_within [OF that assms(2,3)] by simp
  have f: "rd32 input off = Some v" if "rd32 p 0 = Some v" for v
    using fetch_within [OF that assms(2,3)] by simp
  have gb: "get_bytes input off m \<bind> k = Some r" if "get_bytes p 0 m \<bind> k = Some r" for m k
    using that g by (cases "get_bytes p 0 m") simp_all
  have fb: "rd32 input off \<bind> k = Some r" if "rd32 p 0 \<bind> k = Some r" for k
    using that f by (cases "rd32 p 0") simp_all
  show ?thesis
    using assms(1) unfolding tlv_obj_field_def
    by (simp add: gb fb del: get_bytes_0 tagval.simps split: if_splits option.splits)
qed

fun run_entries ::
    "kmalloc_t \<Rightarrow> (u32 \<times> u8 list) list \<Rightarrow> storage_object \<Rightarrow> nat \<Rightarrow> (storage_object \<times> nat) option" where
  "run_entries km [] pc n = Some (pc, n)"
| "run_entries km ((t, p) # es) pc n =
     (case tlv_obj_field km p 0 t (of_nat (length p)) pc n of
        Some (Some (pc, n)) \<Rightarrow> run_entries km es pc n
      | _ \<Rightarrow> None)"

lemma run_entries_append:
  "run_entries km (es @ fs) pc n =
     (case run_entries km es pc n of None \<Rightarrow> None | Some (pc, n) \<Rightarrow> run_entries km fs pc n)"
  by (induction km es pc n rule: run_entries.induct) (auto split: option.splits)

lemma tlv_object_loop_entries:
  assumes "run_entries km es pc n = Some (pc', n')"
    and "drop (base + idx) input = entries_bytes es @ rest" and "base + idx \<le> length input"
    and "tot = idx + length (entries_bytes es)" and "int tot \<le> len" and "len < 2 ^ 31"
  shows "tlv_object_loop km input base len tot idx pc n = Some (tot, pc', n')"
  using assms(1-4)
proof (induction es arbitrary: pc n idx)
  case Nil
  then show ?case by (simp add: tlv_object_loop.simps)
next
  case (Cons e es)
  obtain t p where e: "e = (t, p)" by (cases e)
  from Cons.prems(1) obtain pc1 n1 where
    f: "tlv_obj_field km p 0 t (of_nat (length p)) pc n = Some (Some (pc1, n1))"
    and r: "run_entries km es pc1 n1 = Some (pc', n')"
    by (auto simp: e split: option.splits)
  from Cons.prems(2) have d: "drop (base + idx) input = tlv_entry t p @ entries_bytes es @ rest"
    by (simp add: e)
  have lp: "length (entries_bytes (e # es)) = 8 + length p + length (entries_bytes es)"
    by (simp add: e)
  have li: "base + idx + 8 + length p \<le> length input"
    using arg_cong [OF d, of length] Cons.prems(3) by simp
  have s: "s32 (len - int idx) = len - int idx"
    using Cons.prems(4) assms(5,6) by (intro s32_id) auto
  have tl: "Tlv_ReadTl input (base + idx) (len - int idx) = Some (Some (t, of_nat (length p)))"
    using d Cons.prems(3,4) assms(5,6) lp by (intro Tlv_ReadTl_entry) auto
  have d8: "drop (base + idx + 8) input = p @ entries_bytes es @ rest"
    using drop_after [of "base + idx" input "le32 t @ le32 (of_nat (length p))"] d
    by (simp add: tlv_entry_def)
  have fi: "tlv_obj_field km input (base + idx + 8) t (of_nat (length p)) pc n = Some (Some (pc1, n1))"
    using tlv_obj_field_within [OF f d8] li by simp
  have d': "drop (base + (idx + 8 + length p)) input = entries_bytes es @ rest"
    using drop_after [OF d8] by (simp add: ac_simps)
  have u: "unat (of_nat (length p) :: u32) = length p"
    using Cons.prems(4) assms(5,6) lp by (intro unat_of_nat32) auto
  have IH: "tlv_object_loop km input base len tot (idx + 8 + length p) pc1 n1 = Some (tot, pc', n')"
    using Cons.IH [OF r d'] li Cons.prems(4) lp by simp
  have lt: "idx < tot" using Cons.prems(4) lp by simp
  show ?case
    using lt by (subst tlv_object_loop.simps) (simp add: s tl fi u IH)
qed


lemma put_name: "length src \<le> 80 \<Longrightarrow> put_bytes (replicate 80 0) 0 src = Some (src @ replicate (80 - length src) 0)"
  by (simp add: put_bytes_def)

lemma put_whole: "length src = length buf \<Longrightarrow> put_bytes buf 0 src = Some src"
  by (simp add: put_bytes_def)

lemma rd32_le32 [simp]: "rd32 (le32 v) 0 = Some v"
  using f32.fetch_start [of v "[]"] by simp

lemma get_bytes_pad4: "get_bytes (pad4 bs) 0 (length bs) = Some bs"
  by (simp add: pad4_def get_bytes_def)

definition data_allocs :: "storage_object \<Rightarrow> nat" where
  "data_allocs obj = (if datasize obj \<noteq> 0 then 1 else 0)"

lemma run_name_entries:
  assumes "wf_object obj" and "namesize obj \<noteq> 0"
  shows "run_entries km
      [(tagval EMTLVOBJNAMESIZE, le32 (namesize obj)),
       (tagval EMTLVOBJNAME, pad4 (take (unat (namesize obj)) (oname obj)))] zero_object n =
     Some (zero_object\<lparr>namesize := namesize obj,
       oname := take (unat (namesize obj)) (oname obj) @
                replicate (MAX_OBJ_NAME_LEN - unat (namesize obj)) 0\<rparr>, n)"
proof -
  let ?src = "take (unat (namesize obj)) (oname obj)"
  have l: "length ?src = unat (namesize obj)" using assms(1) by (rule wf_object_take_name)
  have g: "get_bytes (pad4 ?src) 0 (unat (namesize obj)) = Some ?src"
    using get_bytes_pad4 [of ?src] l by simp
  have "unat (namesize obj) \<le> 80" using assms(1) by (simp add: wf_object_def)
  then have p: "put_bytes (replicate 80 0) 0 ?src = Some (?src @ replicate (80 - unat (namesize obj)) 0)"
    using put_name [of ?src] l by simp
  show ?thesis by (simp add: tlv_obj_field_def g p)
qed

lemma run_data_entries:
  assumes "wf_object obj" and "dataptr obj = Some d" and "datasize obj \<noteq> 0" and "kmalloc_succeeds km"
  shows "run_entries km
      [(tagval EMTLVOBJDATASIZE, le32 (datasize obj)),
       (tagval EMTLVOBJDATABUF, pad4 (take (unat (datasize obj)) d))] pc n =
     Some (pc\<lparr>datasize := datasize obj, dataptr := Some (take (unat (datasize obj)) d)\<rparr>, Suc n)"
proof -
  let ?src = "take (unat (datasize obj)) d"
  have l: "length ?src = unat (datasize obj)" using assms(1,2) by (rule wf_object_take_data)
  have g: "get_bytes (pad4 ?src) 0 (unat (datasize obj)) = Some ?src"
    using get_bytes_pad4 [of ?src] l by simp
  obtain buf where k: "km n (unat (datasize obj)) = Some buf" "length buf = unat (datasize obj)"
    using assms(4) by (auto simp: kmalloc_succeeds_def)
  have p: "put_bytes buf 0 ?src = Some ?src" using k(2) l by (intro put_whole) simp
  show ?thesis by (simp add: tlv_obj_field_def g p k)
qed

lemma run_tail_entries:
  assumes "length h = 32"
  shows "run_entries km
      [(tagval EMTLVOBJHASHBUF, h), (tagval EMTLVOBJTYPE, le32 ty), (tagval EMTLVOBJATTR, le32 at)] pc n =
     Some (pc\<lparr>hashptr := h, otype := ty, attribute := at\<rparr>, n)"
  using assms by (simp add: tlv_obj_field_def get_bytes_def)

lemma run_obj_entries:
  assumes "wf_object obj" and "kmalloc_succeeds km"
  shows "run_entries km (obj_entries obj) zero_object n = Some (obj_norm obj, n + data_allocs obj)"
proof -
  have h: "length (hashptr obj) = 32" using assms(1) by (simp add: wf_object_def)
  let ?nm = "zero_object\<lparr>namesize := namesize obj,
       oname := take (unat (namesize obj)) (oname obj) @
                replicate (MAX_OBJ_NAME_LEN - unat (namesize obj)) 0\<rparr>"
  have n: "run_entries km (if namesize obj \<noteq> 0
      then [(tagval EMTLVOBJNAMESIZE, le32 (namesize obj)),
            (tagval EMTLVOBJNAME, pad4 (take (unat (namesize obj)) (oname obj)))]
      else []) zero_object n = Some (?nm, n)"
    using run_name_entries [OF assms(1)] by (simp add: zero_object_def)
  have d: "run_entries km (case dataptr obj of
        Some d \<Rightarrow>
          (if datasize obj \<noteq> 0
           then [(tagval EMTLVOBJDATASIZE, le32 (datasize obj)),
                 (tagval EMTLVOBJDATABUF, pad4 (take (unat (datasize obj)) d))]
           else [])
      | None \<Rightarrow> []) ?nm n =
      Some (?nm\<lparr>datasize := datasize obj, dataptr := dataptr (obj_norm obj)\<rparr>, n + data_allocs obj)"
    using assms run_data_entries [OF assms(1) _ _ assms(2)]
    by (cases "dataptr obj")
      (auto simp: wf_object_def zero_object_def obj_norm_def data_allocs_def)
  show ?thesis
    unfolding obj_entries_def run_entries_append n option.case prod.case d run_tail_entries [OF h]
    by (simp add: obj_norm_def zero_object_def)
qed

lemma Tlv_ReadObject_bytes:
  assumes "wf_object obj" and "kmalloc_succeeds km"
    and "drop base input = obj_bytes obj @ rest" and "base \<le> length input"
    and "int (length (obj_bytes obj)) \<le> len" and "len < 2 ^ 31"
  shows "Tlv_ReadObject km input base len n =
     Some (length (obj_bytes obj), obj_norm obj, n + data_allocs obj)"
proof -
  let ?es = "obj_entries obj" and ?b = "entries_bytes (obj_entries obj)"
  have d: "drop base input = tlv_entry (tagval EMTLVOBJECT) ?b @ rest"
    using assms(3) by (simp add: obj_bytes_def)
  have len: "8 + int (length ?b) \<le> len" using assms(5) by (simp add: length_obj_bytes)
  have tl: "Tlv_ReadTl input base len = Some (Some (tagval EMTLVOBJECT, of_nat (length ?b)))"
    using Tlv_ReadTl_entry [OF d assms(4) len assms(6)] .
  have u: "unat (of_nat (length ?b) :: u32) = length ?b"
    using len assms(6) by (intro unat_of_nat32) auto
  have d8: "drop (base + 8) input = ?b @ rest"
    using drop_after [of base input "le32 (tagval EMTLVOBJECT) @ le32 (of_nat (length ?b))"] d
    by (simp add: tlv_entry_def)
  have b8: "base + 8 \<le> length input"
    using arg_cong [OF d, of length] assms(4) by simp
  have "tlv_object_loop km input base len (length ?b + 8) 8 zero_object n =
      Some (length ?b + 8, obj_norm obj, n + data_allocs obj)"
    using tlv_object_loop_entries [OF run_obj_entries [OF assms(1,2)] d8 b8 _ _ assms(6), of "length ?b + 8" n] len
    by simp
  then show ?thesis by (simp add: Tlv_ReadObject_def tl u length_obj_bytes)
qed

lemma tlv_head_loop_step:
  assumes "drop (base + idx) input = tlv_entry tag (le32 v) @ rest" and "base + idx \<le> length input"
    and "idx + 12 \<le> tot" and "int tot \<le> len" and "len < 2 ^ 31"
    and "tag = tagval EMTLVHEADSIZE \<or> tag = tagval EMTLVHEADFLASHSIZE"
  shows "tlv_head_loop input base len tot idx h =
     tlv_head_loop input base len tot (idx + 12)
       (if tag = tagval EMTLVHEADSIZE then h\<lparr>blocksize := v\<rparr> else h\<lparr>flashsize := v\<rparr>)"
proof -
  have s: "s32 (len - int idx) = len - int idx" using assms(3-5) by (intro s32_id) auto
  have tl: "Tlv_ReadTl input (base + idx) (len - int idx) = Some (Some (tag, 4))"
    using Tlv_ReadTl_entry [OF assms(1,2)] assms(3-5) by simp
  have "drop (base + idx + 8) input = le32 v @ rest"
    using drop_after [of "base + idx" input "le32 tag @ le32 4"] assms(1) by (simp add: tlv_entry_def)
  moreover have "base + idx + 8 \<le> length input"
    using arg_cong [OF assms(1), of length] assms(2) by simp
  ultimately have r: "rd32 input (base + idx + 8) = Some v"
    using fetch_within [of of_le32 4 "le32 v" 0 v] by simp
  show ?thesis
    using assms(3,6) by (subst tlv_head_loop.simps) (auto simp: s tl r add.commute [of 12])
qed

lemma Tlv_ReadHead_bytes:
  assumes "drop base input = head_bytes h @ rest" and "base \<le> length input"
    and "32 \<le> len" and "len < 2 ^ 31"
  shows "Tlv_ReadHead input base len h0 = Some (32, h)"
proof -
  let ?e1 = "tlv_entry (tagval EMTLVHEADSIZE) (le32 (blocksize h))"
    and ?e2 = "tlv_entry (tagval EMTLVHEADFLASHSIZE) (le32 (flashsize h))"
  have d: "drop base input = tlv_entry (tagval EMTLVHEAD) (?e1 @ ?e2) @ rest"
    using assms(1) by (simp add: head_bytes_def)
  have l: "base + 32 \<le> length input" using arg_cong [OF d, of length] assms(2) by simp
  have tl: "Tlv_ReadTl input base len = Some (Some (tagval EMTLVHEAD, 24))"
    using Tlv_ReadTl_entry [OF d assms(2)] assms(3,4) by simp
  have d8: "drop (base + 8) input = ?e1 @ ?e2 @ rest"
    using drop_after [of base input "le32 (tagval EMTLVHEAD) @ le32 24"] d by (simp add: tlv_entry_def)
  have d20: "drop (base + 20) input = ?e2 @ rest"
    using drop_after [OF d8] by (simp add: add.commute [of 20])
  have e: "h0\<lparr>blocksize := blocksize h, flashsize := flashsize h\<rparr> = h" by simp
  have "tlv_head_loop input base len 32 8 h0 = Some (32, h)"
    using tlv_head_loop_step [OF d8, of 32 len h0] tlv_head_loop_step [OF d20, of 32 len] l assms(3,4)
    by (simp add: tlv_head_loop.simps [of _ _ _ 32 32] e)
  then show ?thesis by (simp add: Tlv_ReadHead_def tl)
qed

section \<open>Round trip of an object\<close>

text \<open>C3: \<open>Tlv_ReadObject\<close> inverts \<open>Tlv_WriteObject\<close>: an object that fits is written in place without
  touching a byte before or after its encoding, and reading at the same place gives its fields
  back, the name padded with zeros and the data cut to its size.\<close>

theorem Tlv_object_roundtrip:
  assumes "wf_object obj" and "kmalloc_succeeds km"
    and "int (length (obj_bytes obj)) \<le> len" and "len < 2 ^ 31" and "int output + len \<le> int (length out)"
  shows "\<exists>out'. Tlv_WriteObject obj out output len = Some (out', length (obj_bytes obj)) \<and>
     (\<exists>n'. Tlv_ReadObject km out' output len n = Some (length (obj_bytes obj), obj_norm obj, n')) \<and>
     length out' = length out \<and> take output out' = take output out \<and>
     drop (output + length (obj_bytes obj)) out' = drop (output + length (obj_bytes obj)) out"
proof -
  let ?b = "obj_bytes obj"
  have l: "output + length ?b \<le> length out" and o8: "output + 8 \<le> length out"
    using assms(3,5) by (auto simp: length_obj_bytes)
  define out' where "out' = take output out @ ?b @ drop (output + length ?b) out"
  have p: "put_bytes out output ?b = Some out'"
    using l by (simp add: put_bytes_def out'_def)
  have d: "drop output out' = ?b @ drop (output + length ?b) out" and lo: "output \<le> length out'"
    using l by (simp_all add: out'_def)
  show ?thesis
    using Tlv_WriteObject_bytes [OF assms(1,4,3) o8] p l
      Tlv_ReadObject_bytes [OF assms(1,2) d lo assms(3,4), of n]
    by (auto simp: out'_def)
qed

definition sample_object :: storage_object where
  "sample_object = \<lparr>oname = replicate 80 0x61, namesize = 3, attribute = 0, otype = 0xA00000BF,
     datasize = 2, dataptr = Some [1, 2, 3], hashptr = replicate 32 9\<rparr>"

theorem Tlv_object_roundtrip_witness:
  "\<exists>out' n'. Tlv_WriteObject sample_object (replicate 200 0) 5 150 = Some (out', 120) \<and>
     Tlv_ReadObject (\<lambda>n sz. Some (replicate sz 0)) out' 5 150 0 = Some (120, obj_norm sample_object, n')"
proof -
  have s: "wf_object sample_object" "length (obj_bytes sample_object) = 120"
    by (simp add: wf_object_def sample_object_def) code_simp
  have "kmalloc_succeeds (\<lambda>n sz. Some (replicate sz 0))" by (simp add: kmalloc_succeeds_def)
  from Tlv_object_roundtrip [OF s(1) this, of 150 5 "replicate 200 0" 0] show ?thesis
    unfolding s(2) by force
qed

end
