(* ===== verification/Key_Map_Spec.thy ===== *)
theory Key_Map_Spec
  imports Aml_Prelude
begin

text \<open>
  The contract of a key store, as its clients rely on it: a finite map from names to a content
  and an attribute word, changed by requests that may be refused.  A refused request (a result
  other than 0) leaves the map alone; a carried-out one has the effect of the map operation.
\<close>

type_synonym key_map = "cstr \<Rightarrow> (u8 list \<times> u32) option"

datatype key_req = KAdd cstr "u8 list" u32 | KDel cstr

primrec req_name :: "key_req \<Rightarrow> cstr" where
  "req_name (KAdd nm d a) = nm"
| "req_name (KDel nm) = nm"

primrec req_effect :: "key_req \<Rightarrow> key_map \<Rightarrow> key_map" where
  "req_effect (KAdd nm d a) m = m(nm \<mapsto> (d, a))"
| "req_effect (KDel nm) m = m(nm := None)"

text \<open>The content of a request is bounded so that its length is a \<open>u32\<close> the allocator can serve.\<close>

primrec req_ok :: "key_req \<Rightarrow> bool" where
  "req_ok (KAdd nm d a) \<longleftrightarrow> length d < 2 ^ 30"
| "req_ok (KDel nm) \<longleftrightarrow> True"

text \<open>A run of requests on an implementation, and the run of the specification with the same results.\<close>

fun run_reqs :: "('s \<Rightarrow> key_req \<Rightarrow> ('s \<times> int) option) \<Rightarrow> 's \<Rightarrow> key_req list \<Rightarrow> ('s \<times> int list) option" where
  "run_reqs step s [] = Some (s, [])"
| "run_reqs step s (q # qs) =
     do { (s, r) \<leftarrow> step s q; (s, rs) \<leftarrow> run_reqs step s qs; Some (s, r # rs) }"

fun spec_run :: "key_map \<Rightarrow> key_req list \<Rightarrow> int list \<Rightarrow> key_map" where
  "spec_run m (q # qs) (r # rs) = spec_run (if r = 0 then req_effect q m else m) qs rs"
| "spec_run m _ _ = m"

lemma req_effect_other: "nm \<noteq> req_name q \<Longrightarrow> req_effect q m nm = m nm"
  by (cases q) auto

lemma spec_run_other: "nm \<notin> req_name ` set qs \<Longrightarrow> spec_run m qs rs nm = m nm"
  by (induction m qs rs rule: spec_run.induct) (auto simp: req_effect_other)

locale key_store =
  fixes step :: "'s \<Rightarrow> key_req \<Rightarrow> ('s \<times> int) option"
    and view :: "'s \<Rightarrow> key_map"
    and inv :: "'s \<Rightarrow> bool"
  assumes step_ok: "inv s \<Longrightarrow> req_ok q \<Longrightarrow>
     \<exists>s' r. step s q = Some (s', r) \<and> inv s' \<and> view s' = (if r = 0 then req_effect q (view s) else view s)"
begin

lemma run_refines:
  "inv s \<Longrightarrow> list_all req_ok qs \<Longrightarrow>
     \<exists>s' rs. run_reqs step s qs = Some (s', rs) \<and> inv s' \<and> length rs = length qs \<and>
       view s' = spec_run (view s) qs rs"
proof (induction qs arbitrary: s)
  case Nil
  then show ?case by simp
next
  case (Cons q qs)
  from step_ok [of s q] Cons.prems obtain s1 r where
    1: "step s q = Some (s1, r)" "inv s1" "view s1 = (if r = 0 then req_effect q (view s) else view s)"
    by auto
  with Cons obtain s' rs where
    "run_reqs step s1 qs = Some (s', rs)" "inv s'" "length rs = length qs" "view s' = spec_run (view s1) qs rs"
    by fastforce
  with 1 show ?case by auto
qed

lemma stored_survives:
  assumes "inv s" and "req_ok (KAdd nm d a)" and "list_all req_ok qs" and "nm \<notin> req_name ` set qs"
    and "run_reqs step s (KAdd nm d a # qs) = Some (s', 0 # rs)"
  shows "view s' nm = Some (d, a)"
proof -
  from run_refines [OF assms(1), of "KAdd nm d a # qs"] assms(2,3,5)
  have "view s' = spec_run (view s) (KAdd nm d a # qs) (0 # rs)" by auto
  then show ?thesis using spec_run_other [OF assms(4)] by simp
qed

end

end
