(* ===== verification/Normal_Key.thy ===== *)
theory Normal_Key
  imports Normal_Key_Tlv Key_Map_Spec
begin

text \<open>
  The normal (not hardware protected) key store of \<open>soc/amlogic/unifykey/normal_key.c\<close>: the
  list of keys in memory with \<open>normalkey_get\<close>, \<open>normalkey_add\<close> and \<open>normalkey_del\<close>, and the
  block image it is loaded from and saved to by \<open>normalkey_readfromblock\<close> and
  \<open>normalkey_writetoblock\<close>.

  The kernel services the file calls are parameters, collected in \<open>kenv\<close>: the allocator and
  the SHA-256 transform.  Each is indexed by the number of service calls made so far
  (\<open>ticks\<close>), so that it may fail at any call independently of the others.
\<close>

section \<open>State\<close>

record storage_block_raw_head =
  rh_mark :: "u8 list"
  rh_version :: u32
  rh_enctype :: u32
  rh_keycnt :: u32
  rh_initcnt :: u32
  rh_wrtcnt :: u32
  rh_errcnt :: u32
  rh_flags :: u32
  rh_headhash :: "u8 list"
  rh_hash :: "u8 list"

record kenv =
  kmalloc :: kmalloc_t
  crypto_alloc_shash :: "nat \<Rightarrow> bool"
  desc_size :: nat
  crypto_shash_digest :: "nat \<Rightarrow> u8 list \<Rightarrow> int \<times> u8 list"

record nk_state =
  keys :: "storage_object list"
  blockinited :: int
  rawhead :: storage_block_raw_head
  enchead :: storage_block_enc_head
  ticks :: nat

abbreviation (input) STORAGE_BLOCK_RAW_HEAD_SIZE :: nat where "STORAGE_BLOCK_RAW_HEAD_SIZE \<equiv> 512"
abbreviation (input) STORAGE_BLOCK_ENC_HEAD_SIZE :: nat where "STORAGE_BLOCK_ENC_HEAD_SIZE \<equiv> 512"
abbreviation (input) ERR_HEADER :: u32 where "ERR_HEADER \<equiv> 0x1"
abbreviation (input) ERR_KEYMEMFAIL :: u32 where "ERR_KEYMEMFAIL \<equiv> 0x2"
abbreviation (input) ERR_KEYRDFAIL :: u32 where "ERR_KEYRDFAIL \<equiv> 0x4"
abbreviation (input) ERR_KEYCHKFAIL :: u32 where "ERR_KEYCHKFAIL \<equiv> 0x8"
abbreviation (input) ERR_ENCHDFAIL :: u32 where "ERR_ENCHDFAIL \<equiv> 0x10"
abbreviation (input) ERR_DATASZ :: u32 where "ERR_DATASZ \<equiv> 0x20"
abbreviation (input) OBJ_ATTR_SECURE :: u32 where "OBJ_ATTR_SECURE \<equiv> 1"
abbreviation (input) OBJ_TYPE_GENERIC :: u32 where "OBJ_TYPE_GENERIC \<equiv> 0xA00000BF"

text \<open>\<open>sizeof(struct storage_node)\<close> on arm64: the list head (16), then the object (136).\<close>

abbreviation (input) SIZEOF_STORAGE_NODE :: nat where "SIZEOF_STORAGE_NODE \<equiv> 152"

definition blockmark :: cstr where
  "blockmark = [0x41, 0x4D, 0x4C, 0x4E, 0x4F, 0x52, 0x4D, 0x41, 0x4C]" \<comment> \<open>AMLNORMAL\<close>

definition raw_head_bytes :: "storage_block_raw_head \<Rightarrow> u8 list" where
  "raw_head_bytes r = rh_mark r @ le32 (rh_version r) @ le32 (rh_enctype r) @ le32 (rh_keycnt r) @
     le32 (rh_initcnt r) @ le32 (rh_wrtcnt r) @ le32 (rh_errcnt r) @ le32 (rh_flags r) @
     rh_headhash r @ rh_hash r"

section \<open>Operations\<close>

text \<open>The result of \<open>normalkey_hash\<close> is its return value, the 32 bytes it leaves in the
  destination and the new number of service calls.\<close>

definition normalkey_hash :: "kenv \<Rightarrow> nat \<Rightarrow> u8 list \<Rightarrow> int \<times> u8 list \<times> nat" where
  "normalkey_hash env n data =
     (if \<not> crypto_alloc_shash env n then (- EINVAL, replicate 32 0, Suc n)
      else case kmalloc env (Suc n) (desc_size env) of
             None \<Rightarrow> (- ENOMEM, replicate 32 0, n + 2)
           | Some _ \<Rightarrow>
               (let (ret, h) = crypto_shash_digest env (n + 2) data in (ret, h, n + 3)))"

definition normalkey_init :: "nk_state \<Rightarrow> nk_state \<times> int" where
  "normalkey_init s = (if blockinited s \<noteq> 0 then (s, -1) else (s\<lparr>blockinited := 1\<rparr>, 0))"

definition normalkey_deinit :: "nk_state \<Rightarrow> nk_state" where
  "normalkey_deinit s = (if blockinited s = 0 then s else s\<lparr>blockinited := 0, keys := []\<rparr>)"

text \<open>The object found is its position in the list; \<open>Some None\<close> is the NULL result.\<close>

fun nk_find :: "storage_object list \<Rightarrow> cstr \<Rightarrow> nat option option" where
  "nk_find [] name = Some None"
| "nk_find (obj # objs) name =
     (if length name = unat (namesize obj)
      then do {
        b \<leftarrow> get_bytes (oname obj) 0 (length name);
        if b = name then Some (Some 0) else map_option (map_option Suc) (nk_find objs name)
      }
      else map_option (map_option Suc) (nk_find objs name))"

definition normalkey_get :: "storage_object list \<Rightarrow> cstr option \<Rightarrow> nat option option" where
  "normalkey_get ks name = (case name of None \<Rightarrow> Some None | Some nm \<Rightarrow> nk_find ks nm)"

text \<open>The common tail of \<open>normalkey_add\<close>, for the object at position \<open>i\<close>.\<close>

definition nk_store :: "kenv \<Rightarrow> nk_state \<Rightarrow> nat \<Rightarrow> u8 list \<Rightarrow> u32 \<Rightarrow> (nk_state \<times> int) option" where
  "nk_store env s i buffer len =
     do {
       d \<leftarrow> dataptr (keys s ! i);
       src \<leftarrow> get_bytes buffer 0 (unat len);
       d \<leftarrow> put_bytes d 0 src;
       let (_, h, n) = normalkey_hash env (ticks s) src;
       Some (s\<lparr>keys := (keys s)[i := (keys s ! i)\<lparr>datasize := len, dataptr := Some d, hashptr := h\<rparr>],
               ticks := n\<rparr>, 0)
     }"

definition normalkey_add ::
    "kenv \<Rightarrow> nk_state \<Rightarrow> cstr option \<Rightarrow> u8 list option \<Rightarrow> u32 \<Rightarrow> u32 \<Rightarrow> (nk_state \<times> int) option" where
  "normalkey_add env s name buffer len attr =
     (if blockinited s \<noteq> 2 then Some (s, -1)
      else case (name, buffer) of
        (Some nm, Some buf) \<Rightarrow>
          if len = 0 \<or> attr AND OBJ_ATTR_SECURE \<noteq> 0 then Some (s, -1)
          else if length nm > MAX_OBJ_NAME_LEN then Some (s, -1)
          else do {
            r \<leftarrow> normalkey_get (keys s) name;
            case r of
              Some i \<Rightarrow>
                (let obj = keys s ! i in
                 if attr \<noteq> attribute obj then Some (s, -1)
                 else if datasize obj < len then
                   (case kmalloc env (ticks s) (unat len) of
                      None \<Rightarrow> Some (s\<lparr>ticks := Suc (ticks s)\<rparr>, -1)
                    | Some d \<Rightarrow>
                        nk_store env (s\<lparr>keys := (keys s)[i := obj\<lparr>dataptr := Some d\<rparr>],
                                        ticks := Suc (ticks s)\<rparr>) i buf len)
                 else nk_store env s i buf len)
            | None \<Rightarrow>
                (case kmalloc env (ticks s) SIZEOF_STORAGE_NODE of
                   None \<Rightarrow> Some (s\<lparr>ticks := Suc (ticks s)\<rparr>, -1)
                 | Some node \<Rightarrow>
                     (case kmalloc env (Suc (ticks s)) (unat len) of
                        None \<Rightarrow> Some (s\<lparr>ticks := ticks s + 2\<rparr>, -1)
                      | Some d \<Rightarrow> do {
                          onm \<leftarrow> put_bytes (take MAX_OBJ_NAME_LEN (drop 16 node)) 0 nm;
                          let obj = \<lparr>oname = onm, namesize = of_nat (length nm), attribute = attr,
                                     otype = OBJ_TYPE_GENERIC, datasize = 0, dataptr = Some d,
                                     hashptr = take 32 (drop 120 node)\<rparr>;
                          nk_store env (s\<lparr>keys := obj # keys s, ticks := ticks s + 2\<rparr>) 0 buf len
                        }))
          }
      | _ \<Rightarrow> Some (s, -1))"

definition normalkey_del :: "nk_state \<Rightarrow> cstr option \<Rightarrow> (nk_state \<times> int) option" where
  "normalkey_del s name =
     (if blockinited s \<noteq> 2 then Some (s, -1)
      else do {
        r \<leftarrow> normalkey_get (keys s) name;
        case r of
          None \<Rightarrow> Some (s, -1)
        | Some i \<Rightarrow> Some (s\<lparr>keys := take i (keys s) @ drop (Suc i) (keys s)\<rparr>, 0)
      })"

definition or_flag :: "u32 \<Rightarrow> nk_state \<Rightarrow> nk_state" where
  "or_flag f s = s\<lparr>rawhead := (rawhead s)\<lparr>rh_flags := rh_flags (rawhead s) OR f\<rparr>\<rparr>"

text \<open>The object's bytes that \<open>normalkey_hash(obj->dataptr, obj->datasize, hash)\<close> reads.\<close>

definition obj_data :: "storage_object \<Rightarrow> u8 list option" where
  "obj_data obj =
     (case dataptr obj of
        None \<Rightarrow> (if datasize obj = 0 then Some [] else None)
      | Some d \<Rightarrow> get_bytes d 0 (unat (datasize obj)))"

text \<open>The loop over the objects of a block; \<open>have\<close> says whether \<open>node\<close> is not NULL.\<close>

function nk_read_loop :: "kenv \<Rightarrow> u8 list \<Rightarrow> nat \<Rightarrow> nat \<Rightarrow> bool \<Rightarrow> nk_state \<Rightarrow> nk_state option" where
  "nk_read_loop env block bsz idx have s =
     (if idx < bsz then
        (case (if have then Some (ticks s)
               else case kmalloc env (ticks s) SIZEOF_STORAGE_NODE of
                      None \<Rightarrow> None | Some _ \<Rightarrow> Some (Suc (ticks s))) of
           None \<Rightarrow> Some (or_flag ERR_KEYMEMFAIL (s\<lparr>ticks := Suc (ticks s)\<rparr>))
         | Some n \<Rightarrow> do {
             (ret, obj, n) \<leftarrow> Tlv_ReadObject (kmalloc env) block (1024 + idx)
                                (s32 (int bsz - int idx)) n;
             if ret = 0 then Some (or_flag ERR_KEYRDFAIL (s\<lparr>ticks := n\<rparr>))
             else do {
               data \<leftarrow> obj_data obj;
               let (_, h, n) = normalkey_hash env n data;
               if h \<noteq> hashptr obj
               then nk_read_loop env block bsz (idx + ret) True
                      (or_flag ERR_KEYCHKFAIL (s\<lparr>ticks := n\<rparr>))
               else nk_read_loop env block bsz (idx + ret) False
                      (s\<lparr>keys := obj # keys s, ticks := n\<rparr>)
             }
           })
      else Some s)"
  by pat_completeness auto
termination
  by (relation "measure (\<lambda>(env, block, bsz, idx, have, s). bsz - idx)") auto

declare nk_read_loop.simps [simp del]

definition reset_raw_head :: storage_block_raw_head where
  "reset_raw_head = \<lparr>rh_mark = blockmark @ replicate 7 0, rh_version = 0, rh_enctype = 0,
     rh_keycnt = 0, rh_initcnt = 0, rh_wrtcnt = 0, rh_errcnt = 0, rh_flags = 0,
     rh_headhash = replicate 32 0, rh_hash = replicate 32 0\<rparr>"

text \<open>Lines 572--585: the check of the raw head and the counters taken from it.\<close>

definition nk_read_rawhead :: "kenv \<Rightarrow> u8 list \<Rightarrow> nk_state \<Rightarrow> nk_state option" where
  "nk_read_rawhead env block s =
     do {
       head \<leftarrow> get_bytes block 0 44;
       let (_, hh, n) = normalkey_hash env (ticks s) head;
       let r = (rawhead s)\<lparr>rh_headhash := hh\<rparr>;
       stored \<leftarrow> get_bytes block 44 32;
       r \<leftarrow> (if hh \<noteq> stored then Some (r\<lparr>rh_flags := rh_flags r OR ERR_HEADER\<rparr>)
             else do {
               kc \<leftarrow> rd32 block 24; ic \<leftarrow> rd32 block 28; wc \<leftarrow> rd32 block 32;
               ec \<leftarrow> rd32 block 36; fl \<leftarrow> rd32 block 40;
               Some (r\<lparr>rh_keycnt := kc, rh_initcnt := ic, rh_wrtcnt := wc, rh_errcnt := ec,
                       rh_flags := fl\<rparr>)
             });
       Some (s\<lparr>rawhead := r\<lparr>rh_initcnt := rh_initcnt r + 1\<rparr>, ticks := n\<rparr>)
     }"

definition normalkey_readfromblock ::
    "kenv \<Rightarrow> nk_state \<Rightarrow> u8 list option \<Rightarrow> nat \<Rightarrow> (nk_state \<times> int) option" where
  "normalkey_readfromblock env s block sz =
     (if blockinited s \<noteq> 1 then Some (s, -1)
      else case block of
        None \<Rightarrow> Some (s, -1)
      | Some block \<Rightarrow>
          if sz \<le> STORAGE_BLOCK_ENC_HEAD_SIZE + STORAGE_BLOCK_RAW_HEAD_SIZE then Some (s, -1)
          else do {
            let s = s\<lparr>blockinited := 2, rawhead := reset_raw_head,
                      enchead := (enchead s)\<lparr>flashsize := of_nat sz\<rparr>\<rparr>;
            m \<leftarrow> get_bytes block 0 10;
            if m \<noteq> blockmark @ [0] then Some (s, 0)
            else do {
              s \<leftarrow> nk_read_rawhead env block s;
              body \<leftarrow> get_bytes block STORAGE_BLOCK_RAW_HEAD_SIZE
                         (unat (of_nat (sz - STORAGE_BLOCK_RAW_HEAD_SIZE) :: u32));
              let (_, h, n) = normalkey_hash env (ticks s) body;
              let s = s\<lparr>rawhead := (rawhead s)\<lparr>rh_hash := h\<rparr>, ticks := n\<rparr>;
              stored \<leftarrow> get_bytes block 76 32;
              if h \<noteq> stored
              then Some (s\<lparr>rawhead := (rawhead s)\<lparr>rh_errcnt := rh_errcnt (rawhead s) + 1\<rparr>\<rparr>, 0)
              else do {
                (ret, eh) \<leftarrow> Tlv_ReadHead block STORAGE_BLOCK_RAW_HEAD_SIZE
                               (int STORAGE_BLOCK_ENC_HEAD_SIZE) (enchead s);
                let s = s\<lparr>enchead := eh\<rparr>;
                if ret = 0 then Some (or_flag ERR_ENCHDFAIL s, 0)
                else if sz < unat (blocksize eh + 1024) then Some (or_flag ERR_DATASZ s, 0)
                else do {
                  s \<leftarrow> nk_read_loop env block (unat (blocksize eh)) 0 False s;
                  Some (s, 0)
                }
              }
            }
          })"

text \<open>The loop over the keys of \<open>normalkey_writetoblock\<close>: block, bytes written, keys written,
  and whether all were written.\<close>

fun nk_write_loop ::
    "storage_object list \<Rightarrow> u8 list \<Rightarrow> nat \<Rightarrow> nat \<Rightarrow> u32 \<Rightarrow> (u8 list \<times> nat \<times> u32 \<times> bool) option" where
  "nk_write_loop [] block size_tmp idx cnt = Some (block, idx, cnt, True)"
| "nk_write_loop (obj # objs) block size_tmp idx cnt =
     do {
       (block, ret) \<leftarrow> Tlv_WriteObject obj block (1024 + idx) (s32 (int size_tmp - int idx));
       if ret = 0 then Some (block, idx, cnt, False)
       else nk_write_loop objs block size_tmp (idx + ret) (cnt + 1)
     }"

definition normalkey_writetoblock ::
    "kenv \<Rightarrow> nk_state \<Rightarrow> u8 list option \<Rightarrow> nat \<Rightarrow> (nk_state \<times> u8 list option \<times> int) option" where
  "normalkey_writetoblock env s block sz =
     (if blockinited s \<noteq> 2 then Some (s, block, -1)
      else case block of
        None \<Rightarrow> Some (s, block, -1)
      | Some blk \<Rightarrow>
          if sz \<le> STORAGE_BLOCK_ENC_HEAD_SIZE + STORAGE_BLOCK_RAW_HEAD_SIZE then Some (s, block, -1)
          else do {
            let s = s\<lparr>enchead := (enchead s)\<lparr>flashsize := of_nat sz\<rparr>\<rparr>;
            (blk, idx, cnt, ok) \<leftarrow> nk_write_loop (keys s) blk
               (sz - (STORAGE_BLOCK_ENC_HEAD_SIZE + STORAGE_BLOCK_RAW_HEAD_SIZE)) 0 0;
            let s = s\<lparr>rawhead := (rawhead s)\<lparr>rh_keycnt := cnt\<rparr>\<rparr>;
            if \<not> ok then Some (s, Some blk, -1)
            else do {
              let s = s\<lparr>enchead := (enchead s)\<lparr>blocksize := of_nat idx\<rparr>\<rparr>;
              (blk, ret) \<leftarrow> Tlv_WriteHead (enchead s) blk STORAGE_BLOCK_RAW_HEAD_SIZE
                              (int STORAGE_BLOCK_ENC_HEAD_SIZE);
              if ret = 0 then Some (s, Some blk, -1)
              else do {
                let r = (rawhead s)\<lparr>rh_wrtcnt := rh_wrtcnt (rawhead s) + 1\<rparr>;
                let (_, hh, n) = normalkey_hash env (ticks s) (take 44 (raw_head_bytes r));
                let r = r\<lparr>rh_headhash := hh\<rparr>;
                body \<leftarrow> get_bytes blk STORAGE_BLOCK_RAW_HEAD_SIZE
                   (unat (flashsize (enchead s) - of_nat STORAGE_BLOCK_RAW_HEAD_SIZE));
                let (_, h, n) = normalkey_hash env n body;
                let r = r\<lparr>rh_hash := h\<rparr>;
                blk \<leftarrow> put_bytes blk 0 (raw_head_bytes r);
                Some (s\<lparr>rawhead := r, ticks := n\<rparr>, Some blk, 0)
              }
            }
          })"

section \<open>The store as a finite map\<close>

text \<open>The name and the content of an object, and the map from names that a list of keys is.\<close>

definition obj_name :: "storage_object \<Rightarrow> cstr" where
  "obj_name obj = take (unat (namesize obj)) (oname obj)"

definition obj_content :: "storage_object \<Rightarrow> u8 list" where
  "obj_content obj = (case dataptr obj of None \<Rightarrow> [] | Some d \<Rightarrow> take (unat (datasize obj)) d)"

definition nk_map :: "storage_object list \<Rightarrow> cstr \<Rightarrow> (u8 list \<times> u32) option" where
  "nk_map ks = map_of (map (\<lambda>obj. (obj_name obj, (obj_content obj, attribute obj))) ks)"

lemma nk_map_Nil [simp]: "nk_map [] nm = None"
  by (simp add: nk_map_def)

lemma nk_map_Cons [simp]:
  "nk_map (obj # ks) nm =
     (if nm = obj_name obj then Some (obj_content obj, attribute obj) else nk_map ks nm)"
  by (simp add: nk_map_def)

lemma nk_map_None_iff: "nk_map ks nm = None \<longleftrightarrow> nm \<notin> obj_name ` set ks"
  by (auto simp: nk_map_def map_of_eq_None_iff image_image)

lemma obj_name_match:
  assumes "wf_object obj"
  shows "length nm = unat (namesize obj) \<and> get_bytes (oname obj) 0 (length nm) = Some nm
     \<longleftrightarrow> obj_name obj = nm"
  using assms by (auto simp: wf_object_def obj_name_def get_bytes_def)

lemma nk_find_Cons:
  assumes "wf_object obj"
  shows "nk_find (obj # ks) nm =
     (if obj_name obj = nm then Some (Some 0) else map_option (map_option Suc) (nk_find ks nm))"
  using assms obj_name_match [OF assms, of nm]
  by (auto simp: wf_object_def obj_name_def get_bytes_def)

declare nk_find.simps(2) [simp del]

lemma nk_find_spec:
  assumes "list_all wf_object ks"
  shows "(nm \<notin> obj_name ` set ks \<longrightarrow> nk_find ks nm = Some None) \<and>
     (nm \<in> obj_name ` set ks \<longrightarrow>
        (\<exists>i < length ks. nk_find ks nm = Some (Some i) \<and> obj_name (ks ! i) = nm \<and>
           (\<forall>j < i. obj_name (ks ! j) \<noteq> nm)))"
  using assms
proof (induction ks)
  case Nil
  then show ?case by simp
next
  case (Cons obj ks)
  then have wf: "wf_object obj" by simp
  show ?case
  proof (cases "obj_name obj = nm")
    case True
    then show ?thesis by (auto simp: nk_find_Cons [OF wf] intro!: exI [of _ 0])
  next
    case False
    show ?thesis
    proof (cases "nm \<in> obj_name ` set ks")
      case True
      with Cons obtain i where i: "i < length ks" "nk_find ks nm = Some (Some i)"
        "obj_name (ks ! i) = nm" "\<forall>j < i. obj_name (ks ! j) \<noteq> nm" by auto
      have "\<forall>j < Suc i. obj_name ((obj # ks) ! j) \<noteq> nm"
        using i(4) \<open>obj_name obj \<noteq> nm\<close> by (auto simp: less_Suc_eq_0_disj)
      then show ?thesis
        using True i(1-3) \<open>obj_name obj \<noteq> nm\<close>
        by (auto simp: nk_find_Cons [OF wf] intro!: exI [of _ "Suc i"])
    next
      case nin: False
      then show ?thesis using Cons \<open>obj_name obj \<noteq> nm\<close>
        by (auto simp: nk_find_Cons [OF wf])
    qed
  qed
qed

lemma nk_find_None: "list_all wf_object ks \<Longrightarrow> nk_map ks nm = None \<Longrightarrow> nk_find ks nm = Some None"
  using nk_find_spec by (simp add: nk_map_None_iff)

lemma nk_map_first:
  "i < length ks \<Longrightarrow> obj_name (ks ! i) = nm \<Longrightarrow> (\<forall>j < i. obj_name (ks ! j) \<noteq> nm) \<Longrightarrow>
     nk_map ks nm = Some (obj_content (ks ! i), attribute (ks ! i))"
proof (induction ks arbitrary: i)
  case Nil
  then show ?case by simp
next
  case (Cons obj ks)
  then show ?case by (cases i) (auto simp: All_less_Suc2)
qed

lemma nk_find_SomeE:
  assumes "list_all wf_object ks" and "nk_find ks nm = Some (Some i)"
  obtains "i < length ks" "obj_name (ks ! i) = nm" "\<forall>j < i. obj_name (ks ! j) \<noteq> nm"
    "nk_map ks nm = Some (obj_content (ks ! i), attribute (ks ! i))"
proof -
  have "nm \<in> obj_name ` set ks"
    using nk_find_spec [OF assms(1), of nm] assms(2) by (cases "nm \<in> obj_name ` set ks") auto
  with nk_find_spec [OF assms(1), of nm] assms(2) have
    "i < length ks" "obj_name (ks ! i) = nm" "\<forall>j < i. obj_name (ks ! j) \<noteq> nm" by auto
  with that nk_map_first show ?thesis by blast
qed

lemma nk_find_total: "list_all wf_object ks \<Longrightarrow> \<exists>r. nk_find ks nm = Some r"
  using nk_find_spec [of ks nm] by (cases "nm \<in> obj_name ` set ks") auto

lemma nk_map_update:
  "i < length ks \<Longrightarrow> obj_name (ks ! i) = nm \<Longrightarrow> (\<forall>j < i. obj_name (ks ! j) \<noteq> nm) \<Longrightarrow>
     obj_name o' = nm \<Longrightarrow>
     nk_map (ks[i := o']) = (nk_map ks)(nm \<mapsto> (obj_content o', attribute o'))"
proof (induction ks arbitrary: i)
  case Nil
  then show ?case by simp
next
  case (Cons obj ks)
  show ?case
  proof (cases i)
    case 0
    with Cons.prems show ?thesis by auto
  next
    case (Suc k)
    with Cons.prems have k: "k < length ks" "obj_name (ks ! k) = nm" "\<forall>j < k. obj_name (ks ! j) \<noteq> nm"
      by (auto simp: All_less_Suc2)
    have "nk_map (ks[k := o']) = (nk_map ks)(nm \<mapsto> (obj_content o', attribute o'))"
      by (rule Cons.IH [OF k Cons.prems(4)])
    moreover have "obj_name obj \<noteq> nm" using Cons.prems(3) Suc by force
    ultimately show ?thesis using Suc by auto
  qed
qed

lemma nk_map_remove:
  "i < length ks \<Longrightarrow> obj_name (ks ! i) = nm \<Longrightarrow> distinct (map obj_name ks) \<Longrightarrow>
     nk_map (take i ks @ drop (Suc i) ks) = (nk_map ks)(nm := None)"
proof (induction ks arbitrary: i)
  case Nil
  then show ?case by simp
next
  case (Cons obj ks)
  show ?case
  proof (cases i)
    case 0
    with Cons.prems show ?thesis
      by (auto simp: nk_map_None_iff)
  next
    case (Suc k)
    with Cons have "nk_map (take k ks @ drop (Suc k) ks) = (nk_map ks)(nm := None)" by auto
    moreover have "obj_name obj \<noteq> nm" using Cons.prems Suc by auto
    ultimately show ?thesis using Suc by auto
  qed
qed

lemma nk_map_rev:
  assumes "distinct (map obj_name ks)"
  shows "nk_map (rev ks) = nk_map ks"
proof -
  let ?f = "\<lambda>obj. (obj_name obj, (obj_content obj, attribute obj))"
  have "distinct (map fst (map ?f ks))" using assms by (simp add: comp_def)
  moreover have "distinct (map fst (map ?f (rev ks)))" using assms by (simp add: comp_def rev_map [symmetric])
  ultimately have "map_of (map ?f (rev ks)) = map_of (map ?f ks)"
    by (subst map_of_inject_set) auto
  then show ?thesis by (simp add: nk_map_def)
qed

section \<open>The invariant and the map operations\<close>

text \<open>The documented behaviour of the SHA-256 transform when none of its steps fails.\<close>

definition crypto_ok :: "kenv \<Rightarrow> (u8 list \<Rightarrow> u8 list) \<Rightarrow> bool" where
  "crypto_ok env H \<longleftrightarrow>
     (\<forall>n. crypto_alloc_shash env n) \<and> (\<forall>n. kmalloc env n (desc_size env) \<noteq> None) \<and>
     (\<forall>n d. crypto_shash_digest env n d = (0, H d)) \<and> (\<forall>d. length (H d) = 32)"

lemma normalkey_hash_ok: "crypto_ok env H \<Longrightarrow> normalkey_hash env n d = (0, H d, n + 3)"
  by (auto simp: crypto_ok_def normalkey_hash_def split: option.splits)

definition nk_obj_ok :: "(u8 list \<Rightarrow> u8 list) \<Rightarrow> storage_object \<Rightarrow> bool" where
  "nk_obj_ok H obj \<longleftrightarrow>
     wf_object obj \<and> dataptr obj \<noteq> None \<and> datasize obj \<noteq> 0 \<and>
     attribute obj AND OBJ_ATTR_SECURE = 0 \<and> hashptr obj = H (obj_content obj)"

definition nk_inv :: "(u8 list \<Rightarrow> u8 list) \<Rightarrow> nk_state \<Rightarrow> bool" where
  "nk_inv H s \<longleftrightarrow>
     blockinited s = 2 \<and> list_all (nk_obj_ok H) (keys s) \<and> distinct (map obj_name (keys s)) \<and>
     rh_mark (rawhead s) = blockmark @ replicate 7 0"

lemma nk_obj_ok_wf: "nk_obj_ok H obj \<Longrightarrow> wf_object obj"
  by (simp add: nk_obj_ok_def)

lemma nk_inv_wf: "nk_inv H s \<Longrightarrow> list_all wf_object (keys s)"
  by (auto simp: nk_inv_def list_all_iff nk_obj_ok_def)

lemma nk_store_eq:
  assumes "crypto_ok env H" and "dataptr (keys s ! i) = Some d" and "unat len \<le> length d"
    and "unat len \<le> length buf"
  shows "nk_store env s i buf len =
     Some (s\<lparr>keys := (keys s)[i := (keys s ! i)\<lparr>datasize := len,
               dataptr := Some (take (unat len) buf @ drop (unat len) d),
               hashptr := H (take (unat len) buf)\<rparr>],
             ticks := ticks s + 3\<rparr>, 0)"
  using assms
  by (simp add: nk_store_def normalkey_hash_ok put_bytes_def min_absorb2)

text \<open>
  The same with what the hashes may be left open: \<open>Hs d\<close> are the hashes that an object with content \<open>d\<close> may
  have.  One hash each is the invariant above; any 32 bytes is what remains true when the hash service fails,
  since \<open>normalkey_add\<close> then stores the key all the same.
\<close>

definition nk_obj_in :: "(u8 list \<Rightarrow> u8 list set) \<Rightarrow> storage_object \<Rightarrow> bool" where
  "nk_obj_in Hs obj \<longleftrightarrow>
     wf_object obj \<and> dataptr obj \<noteq> None \<and> datasize obj \<noteq> 0 \<and>
     attribute obj AND OBJ_ATTR_SECURE = 0 \<and> hashptr obj \<in> Hs (obj_content obj)"

definition nk_inv_in :: "(u8 list \<Rightarrow> u8 list set) \<Rightarrow> nk_state \<Rightarrow> bool" where
  "nk_inv_in Hs s \<longleftrightarrow>
     blockinited s = 2 \<and> list_all (nk_obj_in Hs) (keys s) \<and> distinct (map obj_name (keys s)) \<and>
     rh_mark (rawhead s) = blockmark @ replicate 7 0"

definition hash_in :: "kenv \<Rightarrow> (u8 list \<Rightarrow> u8 list set) \<Rightarrow> bool" where
  "hash_in env Hs \<longleftrightarrow>
     (\<forall>n d. fst (snd (normalkey_hash env n d)) \<in> Hs d) \<and> (\<forall>d. \<forall>h \<in> Hs d. length h = 32)"

definition any_hash :: "u8 list \<Rightarrow> u8 list set" where
  "any_hash d = {h. length h = 32}"

lemma nk_inv_in_one: "nk_inv_in (\<lambda>d. {H d}) s = nk_inv H s"
proof -
  have "nk_obj_in (\<lambda>d. {H d}) = nk_obj_ok H" by (auto simp: fun_eq_iff nk_obj_in_def nk_obj_ok_def)
  then show ?thesis by (simp add: nk_inv_in_def nk_inv_def)
qed

lemma crypto_ok_hash_in: "crypto_ok env H \<Longrightarrow> hash_in env (\<lambda>d. {H d})"
  by (auto simp: hash_in_def normalkey_hash_ok) (simp add: crypto_ok_def)

lemma any_hash_in: "(\<And>n d. length (snd (crypto_shash_digest env n d)) = 32) \<Longrightarrow> hash_in env any_hash"
  by (auto simp: hash_in_def any_hash_def normalkey_hash_def split: option.split prod.split) (metis snd_conv)

lemma nk_inv_in_wf: "nk_inv_in Hs s \<Longrightarrow> list_all wf_object (keys s)"
  by (auto simp: nk_inv_in_def list_all_iff nk_obj_in_def)

lemma nk_inv_any: "nk_inv H s \<Longrightarrow> nk_inv_in any_hash s"
  by (auto simp: nk_inv_def nk_inv_in_def list_all_iff nk_obj_ok_def nk_obj_in_def any_hash_def wf_object_def)

lemma nk_store_in:
  assumes "hash_in env Hs" and "dataptr (keys s ! i) = Some d" and "unat len \<le> length d"
    and "unat len \<le> length buf"
  shows "\<exists>h n. h \<in> Hs (take (unat len) buf) \<and> nk_store env s i buf len =
     Some (s\<lparr>keys := (keys s)[i := (keys s ! i)\<lparr>datasize := len,
               dataptr := Some (take (unat len) buf @ drop (unat len) d), hashptr := h\<rparr>], ticks := n\<rparr>, 0)"
proof -
  obtain r h n where h: "normalkey_hash env (ticks s) (take (unat len) buf) = (r, h, n)" by (rule prod_cases3)
  then have "h \<in> Hs (take (unat len) buf)" using assms(1) unfolding hash_in_def by (metis fst_conv snd_conv)
  then show ?thesis using assms(2-4) h by (auto simp: nk_store_def put_bytes_def min_absorb2)
qed

lemma nk_stored_obj:
  assumes "hash_in env Hs" and "h \<in> Hs (take (unat len) buf)" and "length (oname obj) = 80" and "unat (namesize obj) \<le> 80"
    and "attribute obj AND OBJ_ATTR_SECURE = 0"
    and "unat len \<le> length d" and "unat len \<le> length buf" and "unat len < 2 ^ 30" and "len \<noteq> 0"
  defines "obj' \<equiv> obj\<lparr>datasize := len,
               dataptr := Some (take (unat len) buf @ drop (unat len) d),
               hashptr := h\<rparr>"
  shows "nk_obj_in Hs obj'" and "obj_content obj' = take (unat len) buf"
    and "obj_name obj' = obj_name obj" and "attribute obj' = attribute obj"
  using assms
  by (auto simp: nk_obj_in_def wf_object_def obj_content_def obj_name_def hash_in_def min_absorb2)

lemma nk_inv_update:
  assumes "nk_inv_in Hs s" and "i < length (keys s)" and "nk_obj_in Hs obj"
    and "obj_name obj = obj_name (keys s ! i)"
  shows "nk_inv_in Hs (s\<lparr>keys := (keys s)[i := obj], ticks := n\<rparr>)"
proof -
  have "map obj_name ((keys s)[i := obj]) = map obj_name (keys s)"
    using assms(2,4) by (simp add: map_update) (metis length_map list_update_id nth_map)
  then show ?thesis
    using assms(1-3)
    by (auto simp: nk_inv_in_def list_all_iff dest: set_update_subset_insert [THEN subsetD])
qed

text \<open>
  The outcome of \<open>normalkey_add\<close> on a well-formed store: either it succeeded and the store is
  the old map updated at the name, or it returned \<open>-1\<close> and only the service counter moved.
\<close>

definition nk_add_outcome ::
    "(u8 list \<Rightarrow> u8 list set) \<Rightarrow> nk_state \<Rightarrow> cstr \<Rightarrow> u8 list \<Rightarrow> u32 \<Rightarrow> nk_state \<Rightarrow> int \<Rightarrow> bool" where
  "nk_add_outcome Hs s nm data attr s' r \<longleftrightarrow>
     r = 0 \<and> nk_inv_in Hs s' \<and> nk_map (keys s') = (nk_map (keys s))(nm \<mapsto> (data, attr)) \<or>
     r = -1 \<and> (\<exists>n. s' = s\<lparr>ticks := n\<rparr>)"

lemma nk_add_outcome_fail: "nk_add_outcome Hs s nm data attr (s\<lparr>ticks := n\<rparr>) (-1)"
  by (auto simp: nk_add_outcome_def)

lemma nk_add_outcome_same: "nk_add_outcome Hs s nm data attr s (-1)"
  unfolding nk_add_outcome_def by (intro disjI2 conjI exI [of _ "ticks s"]) simp_all

lemma nk_overwrite_outcome:
  assumes inv: "nk_inv_in Hs s" and cr: "hash_in env Hs" and f: "nk_find (keys s) nm = Some (Some i)"
    and at: "attribute (keys s ! i) = attr"
    and d: "unat len \<le> length d" and b: "unat len \<le> length buf" and l: "unat len < 2 ^ 30" "len \<noteq> 0"
    and h: "h \<in> Hs (take (unat len) buf)"
  shows "nk_add_outcome Hs s nm (take (unat len) buf) attr
     (s\<lparr>keys := (keys s)[i := (keys s ! i)\<lparr>datasize := len,
               dataptr := Some (take (unat len) buf @ drop (unat len) d),
               hashptr := h\<rparr>], ticks := n\<rparr>) 0"
proof -
  let ?obj = "(keys s ! i)\<lparr>datasize := len,
               dataptr := Some (take (unat len) buf @ drop (unat len) d),
               hashptr := h\<rparr>"
  obtain i: "i < length (keys s)" "obj_name (keys s ! i) = nm" "\<forall>j < i. obj_name (keys s ! j) \<noteq> nm"
    using nk_find_SomeE [OF nk_inv_in_wf [OF inv] f] by blast
  have ok: "nk_obj_in Hs (keys s ! i)" using inv i(1) by (simp add: nk_inv_in_def list_all_length)
  then have o: "length (oname (keys s ! i)) = 80" "unat (namesize (keys s ! i)) \<le> 80"
      "attribute (keys s ! i) AND OBJ_ATTR_SECURE = 0"
    by (auto simp: nk_obj_in_def wf_object_def)
  note ob = nk_stored_obj [OF cr h o d b l]
  have "nk_map ((keys s)[i := ?obj]) = (nk_map (keys s))(nm \<mapsto> (take (unat len) buf, attr))"
    using nk_map_update [OF i, of ?obj] ob at i(2) by simp
  moreover have "nk_inv_in Hs (s\<lparr>keys := (keys s)[i := ?obj], ticks := n\<rparr>)"
    using nk_inv_update [OF inv i(1) ob(1)] ob(3) by simp
  ultimately show ?thesis by (simp add: nk_add_outcome_def)
qed

lemma nk_insert_outcome:
  assumes inv: "nk_inv_in Hs s" and cr: "hash_in env Hs" and f: "nk_find (keys s) nm = Some None"
    and at: "attr AND OBJ_ATTR_SECURE = 0" and nm: "length nm \<le> 80" "length node = SIZEOF_STORAGE_NODE"
    and d: "unat len \<le> length d" and b: "unat len \<le> length buf" and l: "unat len < 2 ^ 30" "len \<noteq> 0"
    and h: "h \<in> Hs (take (unat len) buf)"
  shows "nk_add_outcome Hs s nm (take (unat len) buf) attr
     (s\<lparr>keys := \<lparr>oname = nm @ drop (length nm) (take 80 (drop 16 node)), namesize = of_nat (length nm),
               attribute = attr, otype = ty, datasize = len,
               dataptr = Some (take (unat len) buf @ drop (unat len) d),
               hashptr = h\<rparr> # keys s, ticks := n\<rparr>) 0"
proof -
  let ?obj0 = "\<lparr>oname = nm @ drop (length nm) (take 80 (drop 16 node)), namesize = of_nat (length nm),
               attribute = attr, otype = ty, datasize = 0, dataptr = None, hashptr = []\<rparr>"
  have u: "unat (of_nat (length nm) :: u32) = length nm" using nm(1) by (intro unat_of_nat32) simp
  have o: "length (oname ?obj0) = 80" "unat (namesize ?obj0) \<le> 80"
      "attribute ?obj0 AND OBJ_ATTR_SECURE = 0"
    using nm at u by (simp_all add: min_def)
  note ob = nk_stored_obj [OF cr h o d b l]
  have n0: "obj_name ?obj0 = nm" using u by (simp add: obj_name_def)
  have "nm \<notin> obj_name ` set (keys s)"
    using nk_find_spec [OF nk_inv_in_wf [OF inv], of nm] f by auto
  then show ?thesis
    using inv ob n0 by (auto simp: nk_add_outcome_def nk_inv_in_def)
qed

lemma nk_add_existing:
  assumes inv: "nk_inv_in Hs s" and cr: "hash_in env Hs" and km: "kmalloc_sized (kmalloc env)"
    and b: "unat len \<le> length buf" and l: "unat len < 2 ^ 30"
    and c: "len \<noteq> 0" "attr AND OBJ_ATTR_SECURE = 0" "length nm \<le> 80"
    and fi: "nk_find (keys s) nm = Some (Some i)"
  shows "\<exists>s' r. normalkey_add env s (Some nm) (Some buf) len attr = Some (s', r) \<and>
     nk_add_outcome Hs s nm (take (unat len) buf) attr s' r"
proof (cases "attr = attribute (keys s ! i)")
  case False
  then show ?thesis using c fi inv nk_add_outcome_same
    by (auto simp: normalkey_add_def normalkey_get_def nk_inv_in_def)
next
  case at: True
  have bi: "blockinited s = 2" using inv by (simp add: nk_inv_in_def)
  obtain i: "i < length (keys s)" using nk_find_SomeE [OF nk_inv_in_wf [OF inv] fi] by blast
  then obtain d where d: "dataptr (keys s ! i) = Some d" "unat (datasize (keys s ! i)) \<le> length d"
    using inv by (auto simp: nk_inv_in_def list_all_length nk_obj_in_def wf_object_def)
  note ow = nk_overwrite_outcome [OF inv cr fi at [symmetric] _ b l c(1)]
  consider "\<not> datasize (keys s ! i) < len"
    | "datasize (keys s ! i) < len" "kmalloc env (ticks s) (unat len) = None"
    | d' where "datasize (keys s ! i) < len" "kmalloc env (ticks s) (unat len) = Some d'"
    by (cases "kmalloc env (ticks s) (unat len)") auto
  then show ?thesis
  proof cases
    case 1
    then have ld: "unat len \<le> length d" using d(2) by (simp add: word_less_nat_alt)
    show ?thesis
      using ow [OF ld] c fi bi at 1 nk_store_in [OF cr d(1) ld b]
      by (auto simp: normalkey_add_def normalkey_get_def)
  next
    case 2
    then show ?thesis using c fi bi at nk_add_outcome_fail
      by (auto simp: normalkey_add_def normalkey_get_def)
  next
    case 3
    then have ld: "unat len \<le> length d'" using km by (simp add: kmalloc_sized_def)
    show ?thesis
      using ow [OF ld] c fi bi at 3 i ld b
        nk_store_in [OF cr, of "s\<lparr>keys := (keys s)[i := (keys s ! i)\<lparr>dataptr := Some d'\<rparr>],
          ticks := Suc (ticks s)\<rparr>" i d' len buf]
      by (auto simp: normalkey_add_def normalkey_get_def)
  qed
qed

lemma nk_add_fresh:
  assumes inv: "nk_inv_in Hs s" and cr: "hash_in env Hs" and km: "kmalloc_sized (kmalloc env)"
    and b: "unat len \<le> length buf" and l: "unat len < 2 ^ 30"
    and c: "len \<noteq> 0" "attr AND OBJ_ATTR_SECURE = 0" "length nm \<le> 80"
    and fn: "nk_find (keys s) nm = Some None"
  shows "\<exists>s' r. normalkey_add env s (Some nm) (Some buf) len attr = Some (s', r) \<and>
     nk_add_outcome Hs s nm (take (unat len) buf) attr s' r"
proof -
  have bi: "blockinited s = 2" using inv by (simp add: nk_inv_in_def)
  consider "kmalloc env (ticks s) SIZEOF_STORAGE_NODE = None"
    | node where "kmalloc env (ticks s) SIZEOF_STORAGE_NODE = Some node"
        "kmalloc env (Suc (ticks s)) (unat len) = None"
    | node d where "kmalloc env (ticks s) SIZEOF_STORAGE_NODE = Some node"
        "kmalloc env (Suc (ticks s)) (unat len) = Some d"
    by (cases "kmalloc env (ticks s) SIZEOF_STORAGE_NODE";
        cases "kmalloc env (Suc (ticks s)) (unat len)") auto
  then show ?thesis
  proof cases
    case 3
    then have ln: "length node = SIZEOF_STORAGE_NODE" and ld: "length d = unat len"
      using km by (simp_all add: kmalloc_sized_def)
    have p: "put_bytes (take 80 (drop 16 node)) 0 nm =
        Some (nm @ drop (length nm) (take 80 (drop 16 node)))"
      using ln c(3) by (simp add: put_bytes_def)
    let ?obj = "\<lparr>oname = nm @ drop (length nm) (take 80 (drop 16 node)), namesize = of_nat (length nm),
        attribute = attr, otype = OBJ_TYPE_GENERIC, datasize = 0, dataptr = Some d, hashptr = take 32 (drop 120 node)\<rparr>"
    show ?thesis
      using nk_insert_outcome [OF inv cr fn c(2,3) ln _ b l c(1), of d] c fn bi 3 ld b p
        nk_store_in [OF cr, of "s\<lparr>keys := ?obj # keys s, ticks := ticks s + 2\<rparr>" 0 d len buf]
      by (auto simp: normalkey_add_def normalkey_get_def)
  qed (use c fn bi nk_add_outcome_fail in \<open>auto simp: normalkey_add_def normalkey_get_def\<close>)
qed

lemma normalkey_add_in:
  assumes inv: "nk_inv_in Hs s" and cr: "hash_in env Hs" and km: "kmalloc_sized (kmalloc env)"
    and b: "unat len \<le> length buf" and l: "unat len < 2 ^ 30"
  shows "\<exists>s' r. normalkey_add env s (Some nm) (Some buf) len attr = Some (s', r) \<and>
     nk_add_outcome Hs s nm (take (unat len) buf) attr s' r"
proof (cases "len = 0 \<or> attr AND OBJ_ATTR_SECURE \<noteq> 0 \<or> length nm > 80")
  case True
  then show ?thesis using inv nk_add_outcome_same
    by (auto simp: normalkey_add_def nk_inv_in_def)
next
  case False
  then have c: "len \<noteq> 0" "attr AND OBJ_ATTR_SECURE = 0" "length nm \<le> 80" by auto
  obtain r where f: "nk_find (keys s) nm = Some r" using nk_find_total nk_inv_in_wf [OF inv] by blast
  show ?thesis
    by (cases r) (use f nk_add_fresh [OF assms c] nk_add_existing [OF assms c] in auto)
qed

lemma normalkey_add_spec:
  assumes inv: "nk_inv H s" and cr: "crypto_ok env H" and km: "kmalloc_sized (kmalloc env)"
    and b: "unat len \<le> length buf" and l: "unat len < 2 ^ 30"
  shows "\<exists>s' r. normalkey_add env s (Some nm) (Some buf) len attr = Some (s', r) \<and>
     nk_add_outcome (\<lambda>d. {H d}) s nm (take (unat len) buf) attr s' r"
  using normalkey_add_in [OF _ crypto_ok_hash_in [OF cr] km b l, of s nm attr] inv by (simp add: nk_inv_in_one)

text \<open>With an allocator that does not fail, every admissible request is carried out.\<close>

lemma normalkey_add_succeeds:
  assumes inv: "nk_inv H s" and cr: "crypto_ok env H" and km: "kmalloc_succeeds (kmalloc env)"
    and b: "unat len \<le> length buf" and l: "unat len < 2 ^ 30"
    and c: "len \<noteq> 0" "attr AND OBJ_ATTR_SECURE = 0" "length nm \<le> 80"
    and same: "\<And>d a. nk_map (keys s) nm = Some (d, a) \<Longrightarrow> a = attr"
  shows "\<exists>s'. normalkey_add env s (Some nm) (Some buf) len attr = Some (s', 0)"
proof -
  have bi: "blockinited s = 2" using inv by (simp add: nk_inv_def)
  obtain r where f: "nk_find (keys s) nm = Some r" using nk_find_total nk_inv_wf [OF inv] by blast
  obtain node where k1: "kmalloc env (ticks s) SIZEOF_STORAGE_NODE = Some node" "length node = SIZEOF_STORAGE_NODE"
    using km unfolding kmalloc_succeeds_def by blast
  obtain d0 where k2: "kmalloc env (ticks s) (unat len) = Some d0" "length d0 = unat len"
    using km unfolding kmalloc_succeeds_def by blast
  obtain d1 where k3: "kmalloc env (Suc (ticks s)) (unat len) = Some d1" "length d1 = unat len"
    using km unfolding kmalloc_succeeds_def by blast
  show ?thesis
  proof (cases r)
    case None
    have "put_bytes (take 80 (drop 16 node)) 0 nm =
        Some (nm @ drop (length nm) (take 80 (drop 16 node)))"
      using k1(2) c(3) by (simp add: put_bytes_def)
    with None f bi c k1 k3 b show ?thesis
      by (simp add: normalkey_add_def normalkey_get_def nk_store_eq [OF cr])
  next
    case (Some i)
    with f have fi: "nk_find (keys s) nm = Some (Some i)" by simp
    obtain i: "i < length (keys s)" "nk_map (keys s) nm = Some (obj_content (keys s ! i), attribute (keys s ! i))"
      using nk_find_SomeE [OF nk_inv_wf [OF inv] fi] by blast
    then obtain d where d: "dataptr (keys s ! i) = Some d" "unat (datasize (keys s ! i)) \<le> length d"
      using inv by (auto simp: nk_inv_def list_all_length nk_obj_ok_def wf_object_def)
    show ?thesis
    proof (cases "datasize (keys s ! i) < len")
      case True
      with same [OF i(2)] fi bi c k2 b i(1) show ?thesis
        by (simp add: normalkey_add_def normalkey_get_def nk_store_eq [OF cr])
    next
      case False
      then have "unat len \<le> length d" using d(2) by (simp add: word_less_nat_alt)
      with False same [OF i(2)] fi bi c b d(1) show ?thesis
        by (simp add: normalkey_add_def normalkey_get_def nk_store_eq [OF cr])
    qed
  qed
qed

lemma normalkey_del_in:
  assumes inv: "nk_inv_in Hs s"
  shows "\<exists>s' r. normalkey_del s (Some nm) = Some (s', r) \<and>
     (r = 0 \<and> nk_map (keys s) nm \<noteq> None \<and> nk_inv_in Hs s' \<and> nk_map (keys s') = (nk_map (keys s))(nm := None) \<or>
      r = -1 \<and> nk_map (keys s) nm = None \<and> s' = s)"
proof -
  have bi: "blockinited s = 2" and ds: "distinct (map obj_name (keys s))"
    using inv by (simp_all add: nk_inv_in_def)
  obtain r where f: "nk_find (keys s) nm = Some r" using nk_find_total nk_inv_in_wf [OF inv] by blast
  show ?thesis
  proof (cases r)
    case None
    then have "nk_map (keys s) nm = None"
      using f nk_find_spec [OF nk_inv_in_wf [OF inv], of nm] by (auto simp: nk_map_None_iff)
    with None f bi show ?thesis by (simp add: normalkey_del_def normalkey_get_def)
  next
    case (Some i)
    with f have fi: "nk_find (keys s) nm = Some (Some i)" by simp
    obtain i: "i < length (keys s)" "obj_name (keys s ! i) = nm"
        "nk_map (keys s) nm = Some (obj_content (keys s ! i), attribute (keys s ! i))"
      using nk_find_SomeE [OF nk_inv_in_wf [OF inv] fi] by blast
    have "set (take i (keys s) @ drop (Suc i) (keys s)) \<subseteq> set (keys s)"
      by (auto dest: in_set_takeD in_set_dropD)
    moreover have "distinct (map obj_name (take i (keys s) @ drop (Suc i) (keys s)))"
      using ds set_take_disj_set_drop_if_distinct [OF ds, of i "Suc i"]
      by (simp add: take_map [symmetric] drop_map [symmetric] del: set_map)
    ultimately have "nk_inv_in Hs (s\<lparr>keys := take i (keys s) @ drop (Suc i) (keys s)\<rparr>)"
      using inv by (auto simp: nk_inv_in_def list_all_iff)
    with fi i bi nk_map_remove [OF i(1,2) ds] show ?thesis
      by (simp add: normalkey_del_def normalkey_get_def)
  qed
qed

lemma normalkey_del_spec:
  assumes inv: "nk_inv H s"
  shows "\<exists>s' r. normalkey_del s (Some nm) = Some (s', r) \<and>
     (r = 0 \<and> nk_map (keys s) nm \<noteq> None \<and> nk_inv H s' \<and> nk_map (keys s') = (nk_map (keys s))(nm := None) \<or>
      r = -1 \<and> nk_map (keys s) nm = None \<and> s' = s)"
  using normalkey_del_in [of "\<lambda>d. {H d}" s nm] inv unfolding nk_inv_in_one by blast

section \<open>The block image\<close>

definition objs_bytes :: "storage_object list \<Rightarrow> u8 list" where
  "objs_bytes ks = concat (map obj_bytes ks)"

lemma objs_bytes_simps [simp]:
  "objs_bytes [] = []" "objs_bytes (obj # ks) = obj_bytes obj @ objs_bytes ks"
  by (simp_all add: objs_bytes_def)

lemma obj_bytes_nonempty: "0 < length (obj_bytes obj)"
  by (simp add: length_obj_bytes)

text \<open>The write loop writes exactly the concatenated objects, and only when they fit.\<close>

lemma nk_write_loop_bytes:
  assumes "list_all wf_object ks" and "st < 2 ^ 31" and "idx + length (objs_bytes ks) \<le> st"
    and "1024 + st \<le> length blk"
  shows "\<exists>blk'. put_bytes blk (1024 + idx) (objs_bytes ks) = Some blk' \<and>
     nk_write_loop ks blk st idx cnt =
       Some (blk', idx + length (objs_bytes ks), cnt + of_nat (length ks), True)"
  using assms(1,3,4)
proof (induction ks arbitrary: blk idx cnt)
  case Nil
  then show ?case by simp
next
  case (Cons obj ks)
  let ?b = "obj_bytes obj"
  have s: "s32 (int st - int idx) = int st - int idx"
    using Cons.prems(2) assms(2) by (intro s32_nat_diff) auto
  from Cons.prems obtain b where b: "put_bytes blk (1024 + idx) ?b = Some b"
    by (auto simp: put_bytes_def)
  have lb: "length b = length blk" using b by (rule length_put_bytes)
  have w: "Tlv_WriteObject obj blk (1024 + idx) (int st - int idx) = Some (b, length ?b)"
    using Tlv_WriteObject_bytes [of obj "int st - int idx" "1024 + idx" blk] Cons.prems assms(2) b
      length_obj_bytes [of obj] by simp
  obtain blk' where
    "put_bytes b (1024 + (idx + length ?b)) (objs_bytes ks) = Some blk'"
    "nk_write_loop ks b st (idx + length ?b) (cnt + 1) =
       Some (blk', idx + length ?b + length (objs_bytes ks), cnt + 1 + of_nat (length ks), True)"
    using Cons.IH [of "idx + length ?b" b "cnt + 1"] Cons.prems lb by auto
  with s w b show ?case
    using obj_bytes_nonempty [of obj] by (simp add: put_bytes_append ac_simps)
qed

lemma nk_write_loop_fits:
  assumes "list_all wf_object ks" and "st < 2 ^ 31" and "idx \<le> st" and "1024 + st \<le> length blk"
    and "nk_write_loop ks blk st idx cnt = Some (blk', idx', cnt', True)"
  shows "idx + length (objs_bytes ks) \<le> st"
  using assms(1,3-5)
proof (induction ks arbitrary: blk idx cnt)
  case Nil
  then show ?case by simp
next
  case (Cons obj ks)
  have s: "s32 (int st - int idx) = int st - int idx"
    using Cons.prems(2) assms(2) by (intro s32_nat_diff) auto
  from Cons.prems(4) s obtain b r where
    w: "Tlv_WriteObject obj blk (1024 + idx) (int st - int idx) = Some (b, r)" "r \<noteq> 0"
    and n: "nk_write_loop ks b st (idx + r) (cnt + 1) = Some (blk', idx', cnt', True)"
    by (auto simp: Option.bind_eq_Some_conv split: if_splits)
  have fit: "int (length (obj_bytes obj)) \<le> int st - int idx"
    using Tlv_WriteObject_fits [OF _ _ w] Cons.prems(1) assms(2) by simp
  have "Tlv_WriteObject obj blk (1024 + idx) (int st - int idx) =
      map_option (\<lambda>o'. (o', length (obj_bytes obj))) (put_bytes blk (1024 + idx) (obj_bytes obj))"
    using Cons.prems assms(2) fit length_obj_bytes [of obj] by (intro Tlv_WriteObject_bytes) auto
  with w(1) have r: "r = length (obj_bytes obj)" and "length b = length blk"
    by (auto dest: length_put_bytes)
  with Cons.IH [OF _ _ _ n] Cons.prems fit show ?case by simp
qed

lemma obj_norm_simps [simp]:
  "namesize (obj_norm obj) = namesize obj" "attribute (obj_norm obj) = attribute obj"
  "hashptr (obj_norm obj) = hashptr obj" "datasize (obj_norm obj) = datasize obj"
  by (simp_all add: obj_norm_def)

lemma obj_norm_name: "wf_object obj \<Longrightarrow> obj_name (obj_norm obj) = obj_name obj"
  by (auto simp: obj_norm_def obj_name_def wf_object_def min_def)

lemma obj_norm_content:
  "nk_obj_ok H obj \<Longrightarrow> obj_content (obj_norm obj) = obj_content obj"
  by (auto simp: nk_obj_ok_def obj_norm_def obj_content_def)

lemma obj_norm_data:
  "nk_obj_ok H obj \<Longrightarrow> obj_data (obj_norm obj) = Some (obj_content obj)"
  by (auto simp: nk_obj_ok_def wf_object_def obj_norm_def obj_content_def obj_data_def get_bytes_def)

lemma nk_obj_ok_norm: "nk_obj_ok H obj \<Longrightarrow> nk_obj_ok H (obj_norm obj)"
  using obj_norm_content [of H obj]
  by (auto simp: nk_obj_ok_def wf_object_def obj_norm_def min_def)

text \<open>The read loop recovers a sequence of objects; the list is built in reverse.\<close>

lemma nk_read_loop_objs:
  assumes "crypto_ok env H" and "kmalloc_succeeds (kmalloc env)" and "bsz < 2 ^ 31"
    and "list_all (nk_obj_ok H) ks" and "drop (1024 + idx) blk = objs_bytes ks @ rest"
    and "1024 + idx \<le> length blk" and "bsz = idx + length (objs_bytes ks)"
  shows "\<exists>n. nk_read_loop env blk bsz idx False s =
     Some (s\<lparr>keys := rev (map obj_norm ks) @ keys s, ticks := n\<rparr>)"
  using assms(4-7)
proof (induction ks arbitrary: idx s)
  case Nil
  then show ?case by (intro exI [of _ "ticks s"]) (simp add: nk_read_loop.simps)
next
  case (Cons obj ks)
  let ?b = "obj_bytes obj"
  obtain node where k: "kmalloc env (ticks s) SIZEOF_STORAGE_NODE = Some node"
    using assms(2) unfolding kmalloc_succeeds_def by blast
  have ok: "nk_obj_ok H obj" using Cons.prems(1) by simp
  have lt: "idx < bsz" using Cons.prems(4) obj_bytes_nonempty [of obj] by simp
  have s: "s32 (int bsz - int idx) = int bsz - int idx"
    using lt assms(3) by (intro s32_nat_diff) auto
  have d: "drop (1024 + idx) blk = ?b @ objs_bytes ks @ rest" using Cons.prems(2) by simp
  have rd: "Tlv_ReadObject (kmalloc env) blk (1024 + idx) (int bsz - int idx) (Suc (ticks s)) =
      Some (length ?b, obj_norm obj, Suc (ticks s) + data_allocs obj)"
    using Tlv_ReadObject_bytes [OF nk_obj_ok_wf [OF ok] assms(2) d Cons.prems(3)] Cons.prems(4) assms(3)
    by simp
  have li: "1024 + (idx + length ?b) \<le> length blk"
    using arg_cong [OF d, of length] Cons.prems(3) by simp
  have d': "drop (1024 + (idx + length ?b)) blk = objs_bytes ks @ rest"
    using drop_after [OF d] by (simp add: ac_simps)
  let ?s' = "s\<lparr>keys := obj_norm obj # keys s, ticks := Suc (ticks s) + data_allocs obj + 3\<rparr>"
  obtain n where IH: "nk_read_loop env blk bsz (idx + length ?b) False ?s' =
      Some (?s'\<lparr>keys := rev (map obj_norm ks) @ keys ?s', ticks := n\<rparr>)"
    using Cons.IH [OF _ d' li, of ?s'] Cons.prems(1,4) by auto
  have h: "H (obj_content obj) = hashptr (obj_norm obj)" using ok by (simp add: nk_obj_ok_def)
  have "nk_read_loop env blk bsz idx False s = nk_read_loop env blk bsz (idx + length ?b) False ?s'"
    using lt obj_bytes_nonempty [of obj]
    by (subst nk_read_loop.simps)
      (simp add: k s rd obj_norm_data [OF ok] normalkey_hash_ok [OF assms(1)] h)
  with IH show ?case by auto
qed

text \<open>A block that holds the keys \<open>ks\<close> under the raw head \<open>r\<close>.\<close>

definition nk_image ::
    "(u8 list \<Rightarrow> u8 list) \<Rightarrow> u8 list \<Rightarrow> nat \<Rightarrow> storage_object list \<Rightarrow> storage_block_raw_head \<Rightarrow> bool" where
  "nk_image H blk sz ks r \<longleftrightarrow>
     length blk = sz \<and> 1024 + length (objs_bytes ks) \<le> sz \<and> 1024 < sz \<and> sz < 2 ^ 31 \<and>
     take 108 blk = raw_head_bytes r \<and>
     rh_mark r = blockmark @ replicate 7 0 \<and>
     rh_headhash r = H (take 44 (raw_head_bytes r)) \<and> rh_hash r = H (drop 512 blk) \<and>
     (\<exists>rest. drop 512 blk =
        head_bytes \<lparr>blocksize = of_nat (length (objs_bytes ks)), flashsize = of_nat sz\<rparr> @ rest) \<and>
     (\<exists>rest. drop 1024 blk = objs_bytes ks @ rest)"

lemma raw_head_bytes_take44:
  assumes "length (rh_mark r) = 16"
  shows "take 44 (raw_head_bytes r) =
     rh_mark r @ le32 (rh_version r) @ le32 (rh_enctype r) @ le32 (rh_keycnt r) @
     le32 (rh_initcnt r) @ le32 (rh_wrtcnt r) @ le32 (rh_errcnt r) @ le32 (rh_flags r)"
  using assms by (simp add: raw_head_bytes_def)

lemma length_raw_head_bytes:
  "length (rh_mark r) = 16 \<Longrightarrow> length (rh_headhash r) = 32 \<Longrightarrow> length (rh_hash r) = 32 \<Longrightarrow>
     length (raw_head_bytes r) = 108"
  by (simp add: raw_head_bytes_def)

lemma raw_head_take44_hashes:
  "length (rh_mark r) = 16 \<Longrightarrow>
     take 44 (raw_head_bytes (r\<lparr>rh_headhash := x, rh_hash := y\<rparr>)) = take 44 (raw_head_bytes r)"
  by (simp add: raw_head_bytes_take44)

lemma nk_imageI:
  assumes b: "put_bytes blk 1024 (objs_bytes ks) = Some b1"
      "put_bytes b1 512 (head_bytes \<lparr>blocksize = of_nat (length (objs_bytes ks)), flashsize = of_nat sz\<rparr>)
         = Some b2"
      "put_bytes b2 0 (raw_head_bytes r) = Some b3"
    and sz: "length blk = sz" "1024 < sz" "sz < 2 ^ 31" "1024 + length (objs_bytes ks) \<le> sz"
    and r: "r = r0\<lparr>rh_headhash := H (take 44 (raw_head_bytes r0)), rh_hash := H (drop 512 b2)\<rparr>"
      "rh_mark r0 = blockmark @ replicate 7 0" and H: "\<And>d. length (H d) = 32"
  shows "nk_image H b3 sz ks r"
proof -
  have m: "length (rh_mark r0) = 16" "rh_mark r = blockmark @ replicate 7 0"
    using r by (simp_all add: blockmark_def)
  have lr: "length (raw_head_bytes r) = 108"
    using m H r by (intro length_raw_head_bytes) simp_all
  have "take 44 (raw_head_bytes r) = take 44 (raw_head_bytes r0)"
    using raw_head_take44_hashes [OF m(1)] r(1) by simp
  moreover have "take 108 b3 = raw_head_bytes r"
    using put_bytes_suffix [OF b(3)] lr by simp
  moreover have d: "drop 512 b3 = drop 512 b2" "drop 1024 b3 = drop 1024 b1"
    using put_bytes_drop_after [OF b(3)] put_bytes_drop_after [OF b(2)] lr by simp_all
  moreover have "rh_headhash r = H (take 44 (raw_head_bytes r0))" "rh_hash r = H (drop 512 b2)"
    using r(1) by simp_all
  ultimately show ?thesis
    using length_put_bytes [OF b(1)] length_put_bytes [OF b(2)] length_put_bytes [OF b(3)] sz m(2)
      put_bytes_suffix [OF b(2)] put_bytes_suffix [OF b(1)]
    unfolding nk_image_def by metis
qed

lemma normalkey_writetoblock_image:
  assumes inv: "nk_inv H s" and cr: "crypto_ok env H" and blk: "length blk = sz"
    and sz: "1024 < sz" "sz < 2 ^ 31" and fit: "1024 + length (objs_bytes (keys s)) \<le> sz"
  shows "\<exists>s' blk'. normalkey_writetoblock env s (Some blk) sz = Some (s', Some blk', 0) \<and>
     nk_image H blk' sz (keys s) (rawhead s') \<and> nk_inv H s' \<and> keys s' = keys s \<and>
     rh_keycnt (rawhead s') = of_nat (length (keys s)) \<and>
     rh_wrtcnt (rawhead s') = rh_wrtcnt (rawhead s) + 1 \<and>
     rh_initcnt (rawhead s') = rh_initcnt (rawhead s) \<and>
     rh_errcnt (rawhead s') = rh_errcnt (rawhead s) \<and>
     rh_flags (rawhead s') = rh_flags (rawhead s)"
proof -
  let ?objs = "objs_bytes (keys s)"
  let ?eh = "\<lparr>blocksize = of_nat (length ?objs), flashsize = of_nat sz\<rparr> :: storage_block_enc_head"
  have wf: "list_all wf_object (keys s)" by (rule nk_inv_wf [OF inv])
  have st: "sz - 1024 < 2 ^ 31" "0 + length ?objs \<le> sz - 1024" "1024 + (sz - 1024) \<le> length blk"
    using sz fit blk by auto
  obtain b1 where b1: "put_bytes blk 1024 ?objs = Some b1"
    and wl: "nk_write_loop (keys s) blk (sz - 1024) 0 0 =
       Some (b1, length ?objs, of_nat (length (keys s)), True)"
    using nk_write_loop_bytes [OF wf st, of 0] by auto
  have l1: "length b1 = sz" using length_put_bytes [OF b1] blk by simp
  then obtain b2 where b2: "put_bytes b1 512 (head_bytes ?eh) = Some b2"
    using sz by (auto simp: put_bytes_def)
  have wh: "Tlv_WriteHead ?eh b1 512 512 = Some (b2, 32)"
    using Tlv_WriteHead_bytes [of 512 512 b1 ?eh] b2 l1 sz by simp
  have l2: "length b2 = sz" using length_put_bytes [OF b2] l1 by simp
  have u: "unat (of_nat sz - 512 :: u32) = sz - 512"
    using sz by (simp add: unat_sub word_le_nat_alt unat_of_nat32)
  have body: "get_bytes b2 512 (sz - 512) = Some (drop 512 b2)"
    using l2 sz by (intro get_bytes_all) auto
  let ?r0 = "(rawhead s)\<lparr>rh_keycnt := of_nat (length (keys s)), rh_wrtcnt := rh_wrtcnt (rawhead s) + 1\<rparr>"
  let ?r = "?r0\<lparr>rh_headhash := H (take 44 (raw_head_bytes ?r0)), rh_hash := H (drop 512 b2)\<rparr>"
  have mk: "rh_mark (rawhead s) = blockmark @ replicate 7 0" using inv by (simp add: nk_inv_def)
  have lr: "length (raw_head_bytes ?r) = 108"
    using mk cr by (intro length_raw_head_bytes) (simp_all add: blockmark_def crypto_ok_def)
  then obtain b3 where b3: "put_bytes b2 0 (raw_head_bytes ?r) = Some b3"
    using l2 sz by (auto simp: put_bytes_def)
  let ?s' = "s\<lparr>enchead := ?eh, rawhead := ?r, ticks := ticks s + 3 + 3\<rparr>"
  have eh: "(enchead s)\<lparr>flashsize := of_nat sz, blocksize := of_nat (length ?objs)\<rparr> = ?eh" by simp
  have "normalkey_writetoblock env s (Some blk) sz = Some (?s', Some b3, 0)"
    using inv sz wl wh u body b3
    by (simp add: normalkey_writetoblock_def nk_inv_def normalkey_hash_ok [OF cr] eh Let_def)
  moreover have "nk_image H b3 sz (keys s) ?r"
    by (rule nk_imageI [OF b1 b2 b3 blk sz fit refl])
      (use mk cr in \<open>simp_all add: crypto_ok_def\<close>)
  ultimately show ?thesis using inv by (auto simp: nk_inv_def)
qed

text \<open>A successful save implies that the keys fit.\<close>

lemma normalkey_writetoblock_fits:
  assumes inv: "nk_inv H s" and blk: "length blk = sz" and sz: "sz < 2 ^ 31"
    and w: "normalkey_writetoblock env s (Some blk) sz = Some (s', b', 0)"
  shows "1024 < sz" and "1024 + length (objs_bytes (keys s)) \<le> sz"
proof -
  show gt: "1024 < sz" using w inv by (auto simp: normalkey_writetoblock_def nk_inv_def split: if_splits)
  from w inv gt obtain b1 i c where
    "nk_write_loop (keys s) blk (sz - 1024) 0 0 = Some (b1, i, c, True)"
    by (auto simp: normalkey_writetoblock_def nk_inv_def Option.bind_eq_Some_conv Let_def
        split: if_splits)
  note wl = this
  have "0 + length (objs_bytes (keys s)) \<le> sz - 1024"
    by (rule nk_write_loop_fits [OF nk_inv_wf [OF inv] _ _ _ wl]) (use gt sz blk in auto)
  with gt show "1024 + length (objs_bytes (keys s)) \<le> sz" by simp
qed

lemma nk_write_loop_total:
  assumes "list_all wf_object ks" and "st < 2 ^ 31" and "idx \<le> st" and "1024 + st \<le> length blk"
  shows "\<exists>blk' i c ok. nk_write_loop ks blk st idx cnt = Some (blk', i, c, ok) \<and> length blk' = length blk \<and> i \<le> st"
  using assms
proof (induction ks arbitrary: blk idx cnt)
  case Nil
  then show ?case by auto
next
  case (Cons ob ks)
  have s: "s32 (int st - int idx) = int st - int idx"
    using Cons.prems(2,3) by (intro s32_id) auto
  have "\<exists>out' r. Tlv_WriteObject ob blk (1024 + idx) (int st - int idx) = Some (out', r) \<and> length out' = length blk \<and>
     (r = 0 \<or> int r \<le> int st - int idx)"
    using Cons.prems by (intro Tlv_WriteObject_total) auto
  then obtain b r where w: "Tlv_WriteObject ob blk (1024 + idx) (int st - int idx) = Some (b, r)" "length b = length blk"
    "r = 0 \<or> int r \<le> int st - int idx" by blast
  show ?case
  proof (cases "r = 0")
    case True
    with w s Cons.prems(3) show ?thesis by auto
  next
    case False
    with w s Cons.prems show ?thesis using Cons.IH [of "idx + r" b "cnt + 1"] by auto
  qed
qed

text \<open>Keys that do not fit: the save fails, the keys in memory stay.\<close>

lemma normalkey_writetoblock_overflow:
  assumes inv: "nk_inv H s" and sz: "sz < 2 ^ 31" and blk: "length blk = sz"
    and over: "sz < 1024 + length (objs_bytes (keys s))"
  shows "\<exists>s' blk'. normalkey_writetoblock env s (Some blk) sz = Some (s', Some blk', -1) \<and>
    length blk' = sz \<and> keys s' = keys s \<and> nk_inv H s'"
proof (cases "sz \<le> 1024")
  case True
  with inv blk show ?thesis by (simp add: normalkey_writetoblock_def)
next
  case False
  have pre: "sz - 1024 < 2 ^ 31" "0 \<le> sz - 1024" "1024 + (sz - 1024) \<le> length blk" using False sz blk by auto
  obtain b i c ok where w: "nk_write_loop (keys s) blk (sz - 1024) 0 0 = Some (b, i, c, ok)"
    "length b = length blk" "i \<le> sz - 1024"
    using nk_write_loop_total [OF nk_inv_wf [OF inv] pre, of 0] by blast
  have "\<not> ok"
  proof
    assume ok
    with w(1) have "nk_write_loop (keys s) blk (sz - 1024) 0 0 = Some (b, i, c, True)" by simp
    from nk_write_loop_fits [OF nk_inv_wf [OF inv] _ _ _ this] pre over False show False by simp
  qed
  with w False blk inv show ?thesis
    by (auto simp: normalkey_writetoblock_def nk_inv_def)
qed

text \<open>Reading an image restores its keys, its counters and its flags.\<close>

lemma nk_read_rawhead_image:
  assumes im: "nk_image H blk sz ks r" and cr: "crypto_ok env H"
  shows "nk_read_rawhead env blk s =
     Some (s\<lparr>rawhead := (rawhead s)\<lparr>rh_headhash := rh_headhash r, rh_keycnt := rh_keycnt r,
               rh_initcnt := rh_initcnt r + 1, rh_wrtcnt := rh_wrtcnt r, rh_errcnt := rh_errcnt r,
               rh_flags := rh_flags r\<rparr>, ticks := ticks s + 3\<rparr>)"
proof -
  have l: "length (rh_mark r) = 16" "length (rh_headhash r) = 32" "length (rh_hash r) = 32"
    using im cr by (auto simp: nk_image_def blockmark_def crypto_ok_def)
  have d: "drop 0 blk = raw_head_bytes r @ drop 108 blk" and lb: "108 \<le> length blk"
    using im append_take_drop_id [of 108 blk] by (auto simp: nk_image_def)
  have rd: "rd32 blk i = Some v" if "rd32 (raw_head_bytes r) i = Some v" for i v
    using fetch_within [OF that d] by simp
  have gb: "get_bytes blk i n = Some bs" if "get_bytes (raw_head_bytes r) i n = Some bs" for i n bs
    using get_bytes_within [OF that d] by simp
  have "rd32 (raw_head_bytes r) 24 = Some (rh_keycnt r)" "rd32 (raw_head_bytes r) 28 = Some (rh_initcnt r)"
    "rd32 (raw_head_bytes r) 32 = Some (rh_wrtcnt r)" "rd32 (raw_head_bytes r) 36 = Some (rh_errcnt r)"
    "rd32 (raw_head_bytes r) 40 = Some (rh_flags r)"
    using l by (simp_all add: raw_head_bytes_def fetch_def get_bytes_def)
  note rds = this [THEN rd]
  have "get_bytes (raw_head_bytes r) 44 32 = Some (rh_headhash r)"
    using l by (simp add: raw_head_bytes_def get_bytes_def)
  note hh = gb [OF this]
  have "take 108 blk = raw_head_bytes r" using im by (simp add: nk_image_def)
  from arg_cong [OF this, of "take 44"] have t44: "take 44 blk = take 44 (raw_head_bytes r)" by simp
  have "H (take 44 (raw_head_bytes r)) = rh_headhash r" using im by (simp add: nk_image_def)
  then show ?thesis
    using lb by (simp add: nk_read_rawhead_def t44 normalkey_hash_ok [OF cr] hh rds)
qed

text \<open>What each access of \<open>normalkey_readfromblock\<close> finds in an image.\<close>

lemma nk_image_reads:
  assumes im: "nk_image H blk sz ks r" and cr: "crypto_ok env H"
  shows "take 10 blk = blockmark @ [0]" and "get_bytes blk 76 32 = Some (rh_hash r)"
    and "unat (of_nat sz - 512 :: u32) = sz - 512"
    and "get_bytes blk 512 (sz - 512) = Some (drop 512 blk)"
    and "Tlv_ReadHead blk 512 512 e =
       Some (32, \<lparr>blocksize = of_nat (length (objs_bytes ks)), flashsize = of_nat sz\<rparr>)"
    and "unat (of_nat (length (objs_bytes ks)) :: u32) = length (objs_bytes ks)"
    and "unat (of_nat (length (objs_bytes ks)) + 1024 :: u32) = length (objs_bytes ks) + 1024"
proof -
  have sz: "length blk = sz" "1024 < sz" "sz < 2 ^ 31" "1024 + length (objs_bytes ks) \<le> sz"
    and raw: "take 108 blk = raw_head_bytes r" and mk: "rh_mark r = blockmark @ replicate 7 0"
    using im by (auto simp: nk_image_def)
  have l: "length (rh_mark r) = 16" "length (rh_headhash r) = 32" "length (rh_hash r) = 32"
    using im cr by (auto simp: nk_image_def blockmark_def crypto_ok_def)
  from arg_cong [OF raw, of "take 10"] mk show "take 10 blk = blockmark @ [0]"
    by (simp add: raw_head_bytes_def blockmark_def)
  show "get_bytes blk 76 32 = Some (rh_hash r)"
    using get_bytes_within [of "raw_head_bytes r" 76 32 "rh_hash r" 0 blk "drop 108 blk"] raw l
      append_take_drop_id [of 108 blk]
    by (simp add: raw_head_bytes_def get_bytes_def)
  show "unat (of_nat sz - 512 :: u32) = sz - 512"
    using sz by (simp add: unat_sub word_le_nat_alt unat_of_nat32)
  show "get_bytes blk 512 (sz - 512) = Some (drop 512 blk)" using sz by (intro get_bytes_all) auto
  show "Tlv_ReadHead blk 512 512 e =
       Some (32, \<lparr>blocksize = of_nat (length (objs_bytes ks)), flashsize = of_nat sz\<rparr>)"
    using im Tlv_ReadHead_bytes [of 512 blk _ _ 512 e] sz by (auto simp: nk_image_def)
  show "unat (of_nat (length (objs_bytes ks)) :: u32) = length (objs_bytes ks)"
    using sz by (intro unat_of_nat32) simp
  have "unat (of_nat (length (objs_bytes ks) + 1024) :: u32) = length (objs_bytes ks) + 1024"
    using sz by (intro unat_of_nat32) simp
  then show "unat (of_nat (length (objs_bytes ks)) + 1024 :: u32) = length (objs_bytes ks) + 1024"
    by simp
qed

lemma nk_norm_names:
  assumes "list_all (nk_obj_ok H) ks"
  shows "distinct (map (\<lambda>x. obj_name (obj_norm x)) ks) = distinct (map obj_name ks)"
proof -
  have "map (\<lambda>x. obj_name (obj_norm x)) ks = map obj_name ks"
    using assms by (auto simp: list_all_iff obj_norm_name nk_obj_ok_wf)
  then show ?thesis by (simp only:)
qed

lemma normalkey_readfromblock_image:
  assumes im: "nk_image H blk sz ks r" and cr: "crypto_ok env H" and km: "kmalloc_succeeds (kmalloc env)"
    and ks: "list_all (nk_obj_ok H) ks" "distinct (map obj_name ks)"
    and t: "blockinited t = 1" "keys t = []"
  shows "\<exists>t'. normalkey_readfromblock env t (Some blk) sz = Some (t', 0) \<and>
     nk_inv H t' \<and> keys t' = rev (map obj_norm ks) \<and>
     rh_keycnt (rawhead t') = rh_keycnt r \<and> rh_initcnt (rawhead t') = rh_initcnt r + 1 \<and>
     rh_wrtcnt (rawhead t') = rh_wrtcnt r \<and> rh_errcnt (rawhead t') = rh_errcnt r \<and>
     rh_flags (rawhead t') = rh_flags r"
proof -
  let ?eh = "\<lparr>blocksize = of_nat (length (objs_bytes ks)), flashsize = of_nat sz\<rparr> :: storage_block_enc_head"
  have sz: "length blk = sz" "1024 < sz" "sz < 2 ^ 31" "1024 + length (objs_bytes ks) \<le> sz"
    and hh: "rh_hash r = H (drop 512 blk)"
    using im by (auto simp: nk_image_def)
  obtain rest2 where d2: "drop (1024 + 0) blk = objs_bytes ks @ rest2" using im by (auto simp: nk_image_def)
  let ?h = "reset_raw_head\<lparr>rh_headhash := rh_headhash r, rh_keycnt := rh_keycnt r,
      rh_initcnt := rh_initcnt r + 1, rh_wrtcnt := rh_wrtcnt r, rh_errcnt := rh_errcnt r,
      rh_flags := rh_flags r, rh_hash := rh_hash r\<rparr>"
  let ?s = "t\<lparr>blockinited := 2, rawhead := ?h, ticks := ticks t + 3 + 3, enchead := ?eh\<rparr>"
  obtain n where rl: "nk_read_loop env blk (length (objs_bytes ks)) 0 False ?s =
      Some (?s\<lparr>keys := rev (map obj_norm ks) @ keys ?s, ticks := n\<rparr>)"
    using nk_read_loop_objs [OF cr km _ ks(1) d2, of "length (objs_bytes ks)" ?s] sz by auto
  have "normalkey_readfromblock env t (Some blk) sz =
      Some (?s\<lparr>keys := rev (map obj_norm ks), ticks := n\<rparr>, 0)"
    using t sz rl
    by (simp add: normalkey_readfromblock_def nk_image_reads [OF im cr] nk_read_rawhead_image [OF im cr]
        normalkey_hash_ok [OF cr] hh [symmetric] Let_def)
  moreover have "nk_inv H (?s\<lparr>keys := rev (map obj_norm ks), ticks := n\<rparr>)"
    using ks t nk_obj_ok_norm nk_norm_names [OF ks(1)]
    by (auto simp: nk_inv_def reset_raw_head_def list_all_iff rev_map [symmetric] comp_def)
  ultimately show ?thesis by simp
qed

lemma nk_map_reloaded:
  assumes "list_all (nk_obj_ok H) ks" and "distinct (map obj_name ks)"
  shows "nk_map (rev (map obj_norm ks)) = nk_map ks"
proof -
  have "nk_map (map obj_norm ks) = nk_map ks"
    using assms(1)
    by (induction ks) (auto simp: fun_eq_iff obj_norm_name nk_obj_ok_wf obj_norm_content)
  then show ?thesis
    using assms(2) nk_map_rev [of "map obj_norm ks"] nk_norm_names [OF assms(1)] by (simp add: comp_def)
qed

section \<open>The store as a key store\<close>

primrec nk_step :: "kenv \<Rightarrow> nk_state \<Rightarrow> key_req \<Rightarrow> (nk_state \<times> int) option" where
  "nk_step env s (KAdd nm d a) = normalkey_add env s (Some nm) (Some d) (of_nat (length d)) a"
| "nk_step env s (KDel nm) = normalkey_del s (Some nm)"

definition nk_step_inv :: "kenv \<Rightarrow> (u8 list \<Rightarrow> u8 list set) \<Rightarrow> nk_state \<Rightarrow> bool" where
  "nk_step_inv env Hs s \<longleftrightarrow> nk_inv_in Hs s \<and> hash_in env Hs \<and> kmalloc_sized (kmalloc env)"

lemma nk_step_ok:
  assumes "nk_step_inv env Hs s" and "req_ok q"
  shows "\<exists>s' r. nk_step env s q = Some (s', r) \<and> nk_step_inv env Hs s' \<and>
     nk_map (keys s') = (if r = 0 then req_effect q (nk_map (keys s)) else nk_map (keys s))"
proof (cases q)
  case (KAdd nm d a)
  with assms(2) have u: "unat (of_nat (length d) :: u32) = length d"
    by (intro unat_of_nat32) simp
  have inv: "nk_inv_in Hs s" "hash_in env Hs" "kmalloc_sized (kmalloc env)"
    using assms(1) by (simp_all add: nk_step_inv_def)
  have l: "unat (of_nat (length d) :: u32) \<le> length d" "unat (of_nat (length d) :: u32) < 2 ^ 30"
    using u assms(2) KAdd by simp_all
  obtain s' r where "normalkey_add env s (Some nm) (Some d) (of_nat (length d)) a = Some (s', r)"
    "nk_add_outcome Hs s nm d a s' r"
    using normalkey_add_in [OF inv l, of nm a] u by auto
  then show ?thesis
    using KAdd inv by (auto simp: nk_step_inv_def nk_add_outcome_def nk_inv_in_def)
next
  case (KDel nm)
  have inv: "nk_inv_in Hs s" "hash_in env Hs" "kmalloc_sized (kmalloc env)"
    using assms(1) by (simp_all add: nk_step_inv_def)
  show ?thesis
    using normalkey_del_in [OF inv(1), of nm] inv KDel
    by (cases "nk_map (keys s) nm") (auto simp: nk_step_inv_def intro: exI [of _ "-1::int"])
qed

interpretation nk: key_store "nk_step env" "\<lambda>s. nk_map (keys s)" "nk_step_inv env Hs" for env Hs
  by unfold_locales (rule nk_step_ok)

lemma nk_step_inv_one:
  "nk_inv H s \<Longrightarrow> crypto_ok env H \<Longrightarrow> kmalloc_sized (kmalloc env) \<Longrightarrow> nk_step_inv env (\<lambda>d. {H d}) s"
  by (simp add: nk_step_inv_def nk_inv_in_one crypto_ok_hash_in)

section \<open>Properties of the normal key store\<close>

text \<open>An environment whose services always work, and a store with one key, for the witnesses.\<close>

definition good_env :: kenv where
  "good_env = \<lparr>kmalloc = \<lambda>n sz. Some (replicate sz 0), crypto_alloc_shash = \<lambda>n. True,
     desc_size = 8, crypto_shash_digest = \<lambda>n d. (0, replicate 31 0 @ [of_nat (length d)])\<rparr>"

definition good_hash :: "u8 list \<Rightarrow> u8 list" where
  "good_hash d = replicate 31 0 @ [of_nat (length d)]"

definition mac_obj :: storage_object where
  "mac_obj = \<lparr>oname = [0x6D, 0x61, 0x63] @ replicate 77 0, namesize = 3, attribute = 0,
     otype = OBJ_TYPE_GENERIC, datasize = 2, dataptr = Some [0x12, 0x34],
     hashptr = replicate 31 0 @ [2]\<rparr>"

definition good_state :: nk_state where
  "good_state = \<lparr>keys = [mac_obj], blockinited = 2, rawhead = reset_raw_head,
     enchead = \<lparr>blocksize = 0, flashsize = 0\<rparr>, ticks = 0\<rparr>"

lemma good_env_ok:
  "crypto_ok good_env good_hash" "kmalloc_succeeds (kmalloc good_env)" "kmalloc_sized (kmalloc good_env)"
  by (simp_all add: good_env_def good_hash_def crypto_ok_def kmalloc_succeeds_def kmalloc_sized_def)

lemma good_state_inv: "nk_inv good_hash good_state"
  by (simp add: nk_inv_def good_state_def nk_obj_ok_def wf_object_def mac_obj_def obj_content_def
      good_hash_def reset_raw_head_def)

lemma good_state_keys: "keys good_state = [mac_obj]" "blockinited good_state = 2"
  by (simp_all add: good_state_def)

lemma mac_obj_size: "length (obj_bytes mac_obj) = 120"
  by code_simp

text \<open>C1: Saving and loading.  Every store that fits its block is saved, and a freshly initialised
  store that loads the image has the same keys, contents and attributes; the key, write, error and
  flag words survive and the load counter is one more.\<close>

theorem normalkey_save_load:
  assumes inv: "nk_inv H s" and cr: "crypto_ok env H" and km: "kmalloc_succeeds (kmalloc env)"
    and blk: "length blk = sz" "1024 < sz" "sz < 2 ^ 31"
    and fit: "1024 + length (objs_bytes (keys s)) \<le> sz"
    and t: "blockinited t = 1" "keys t = []"
  shows "\<exists>s' blk' t'. normalkey_writetoblock env s (Some blk) sz = Some (s', Some blk', 0) \<and>
     normalkey_readfromblock env t (Some blk') sz = Some (t', 0) \<and>
     nk_map (keys t') = nk_map (keys s) \<and> nk_inv H s' \<and> nk_inv H t' \<and>
     rh_keycnt (rawhead t') = of_nat (length (keys s)) \<and>
     rh_wrtcnt (rawhead t') = rh_wrtcnt (rawhead s) + 1 \<and>
     rh_initcnt (rawhead t') = rh_initcnt (rawhead s) + 1 \<and>
     rh_errcnt (rawhead t') = rh_errcnt (rawhead s) \<and>
     rh_flags (rawhead t') = rh_flags (rawhead s)"
proof -
  have ks: "list_all (nk_obj_ok H) (keys s)" "distinct (map obj_name (keys s))"
    using inv by (simp_all add: nk_inv_def)
  obtain s' blk' where w: "normalkey_writetoblock env s (Some blk) sz = Some (s', Some blk', 0)"
    "nk_image H blk' sz (keys s) (rawhead s')" "nk_inv H s'"
    "rh_keycnt (rawhead s') = of_nat (length (keys s))"
    "rh_wrtcnt (rawhead s') = rh_wrtcnt (rawhead s) + 1"
    "rh_initcnt (rawhead s') = rh_initcnt (rawhead s)"
    "rh_errcnt (rawhead s') = rh_errcnt (rawhead s)" "rh_flags (rawhead s') = rh_flags (rawhead s)"
    using normalkey_writetoblock_image [OF inv cr blk fit] by blast
  with normalkey_readfromblock_image [OF w(2) cr km ks t] nk_map_reloaded [OF ks] show ?thesis
    by fastforce
qed

theorem normalkey_save_load_witness:
  "\<exists>s' blk' t'. normalkey_writetoblock good_env good_state (Some (replicate 2048 0)) 2048 =
       Some (s', Some blk', 0) \<and>
     normalkey_readfromblock good_env (good_state\<lparr>blockinited := 1, keys := []\<rparr>) (Some blk') 2048 =
       Some (t', 0) \<and>
     nk_map (keys t') [0x6D, 0x61, 0x63] = Some ([0x12, 0x34], 0)"
proof -
  have "nk_map (keys good_state) [0x6D, 0x61, 0x63] = Some ([0x12, 0x34], 0)"
    by (simp add: good_state_def mac_obj_def obj_name_def obj_content_def)
  then show ?thesis
    using normalkey_save_load [OF good_state_inv good_env_ok(1,2), of "replicate 2048 0" 2048
        "good_state\<lparr>blockinited := 1, keys := []\<rparr>"]
    by (fastforce simp: good_state_keys mac_obj_size)
qed

text \<open>C2: The store as a finite map.  Any sequence of add and delete requests runs to its end
  without an access outside a buffer, whatever allocations and steps of the hash service fail on the way;
  each request that returns 0 has the effect of the map update or removal, each other request has none,
  and the store stays well-formed (distinct names, sizes in range, hashes of 32 bytes).  If the hash service
  works, the hashes moreover match the contents at the end if they did at the start.\<close>

theorem normalkey_requests_refine_map:
  assumes inv: "nk_inv_in any_hash s" and h: "\<forall>n d. length (snd (crypto_shash_digest env n d)) = 32"
    and km: "kmalloc_sized (kmalloc env)" and qs: "list_all req_ok qs"
  shows "\<exists>s' rs. run_reqs (nk_step env) s qs = Some (s', rs) \<and> nk_inv_in any_hash s' \<and>
     length rs = length qs \<and> nk_map (keys s') = spec_run (nk_map (keys s)) qs rs \<and>
     (\<forall>H. nk_inv H s \<and> crypto_ok env H \<longrightarrow> nk_inv H s')"
proof -
  have "nk_step_inv env any_hash s" using inv h km any_hash_in by (simp add: nk_step_inv_def)
  from nk.run_refines [OF this qs] obtain s' rs where r: "run_reqs (nk_step env) s qs = Some (s', rs)"
    "nk_inv_in any_hash s'" "length rs = length qs" "nk_map (keys s') = spec_run (nk_map (keys s)) qs rs"
    by (auto simp: nk_step_inv_def)
  moreover have "nk_inv H s'" if "nk_inv H s" "crypto_ok env H" for H
    using nk.run_refines [OF nk_step_inv_one [OF that km] qs] r(1) by (auto simp: nk_step_inv_def nk_inv_in_one)
  ultimately show ?thesis by blast
qed

theorem normalkey_requests_refine_map_witness:
  "\<exists>s' rs. run_reqs (nk_step good_env) good_state [KAdd [0x61] [1, 2, 3] 0, KDel [0x6D, 0x61, 0x63]] =
     Some (s', rs) \<and> nk_inv good_hash s'"
proof -
  have h: "\<forall>n d. length (snd (crypto_shash_digest good_env n d)) = 32" by (simp add: good_env_def)
  show ?thesis
    using normalkey_requests_refine_map [OF nk_inv_any [OF good_state_inv] h good_env_ok(3),
        of "[KAdd [0x61] [1, 2, 3] 0, KDel [0x6D, 0x61, 0x63]]"] good_state_inv good_env_ok(1)
    by (fastforce simp del: run_reqs.simps)
qed

text \<open>A stored key stays until a request names it: after an add that returned 0 and any
  further requests on other names, a lookup finds the content and the attribute that were added.\<close>

theorem normalkey_stored_survives:
  assumes "nk_inv H s" and "crypto_ok env H" and "kmalloc_sized (kmalloc env)"
    and "list_all req_ok (KAdd nm d a # qs)" and "nm \<notin> req_name ` set qs"
    and "run_reqs (nk_step env) s (KAdd nm d a # qs) = Some (s', 0 # rs)"
  shows "nk_map (keys s') nm = Some (d, a)"
  using nk.stored_survives [OF nk_step_inv_one [OF assms(1-3)], of nm d a qs s' rs] assms(4-6) by simp

lemma good_add_del:
  "map_option snd (run_reqs (nk_step good_env) good_state
     [KAdd [0x61] [1, 2, 3] 0, KDel [0x6D, 0x61, 0x63]]) = Some [0, 0]"
  by code_simp

theorem normalkey_stored_survives_witness:
  "\<exists>s' rs. run_reqs (nk_step good_env) good_state [KAdd [0x61] [1, 2, 3] 0, KDel [0x6D, 0x61, 0x63]] =
     Some (s', 0 # rs) \<and> nk_map (keys s') [0x61] = Some ([1, 2, 3], 0)"
  using normalkey_stored_survives [OF good_state_inv good_env_ok(1,3), of "[0x61]" "[1, 2, 3]" 0
      "[KDel [0x6D, 0x61, 0x63]]"] good_add_del by (fastforce simp del: run_reqs.simps)

text \<open>C5: An add is carried out when the allocator serves it: for a name of at most 80 bytes, a
  non-empty content, an attribute without the secure bit that agrees with the attribute of the
  key if there is one, \<open>normalkey_add\<close> returns 0 and the map has the new content.\<close>

theorem normalkey_add_stores:
  assumes inv: "nk_inv H s" and cr: "crypto_ok env H" and km: "kmalloc_succeeds (kmalloc env)"
    and b: "unat len \<le> length buf" and l: "unat len < 2 ^ 30"
    and c: "len \<noteq> 0" "attr AND OBJ_ATTR_SECURE = 0" "length nm \<le> 80"
    and same: "\<And>d a. nk_map (keys s) nm = Some (d, a) \<Longrightarrow> a = attr"
  shows "\<exists>s'. normalkey_add env s (Some nm) (Some buf) len attr = Some (s', 0) \<and> nk_inv H s' \<and>
     nk_map (keys s') = (nk_map (keys s))(nm \<mapsto> (take (unat len) buf, attr))"
proof -
  have "kmalloc_sized (kmalloc env)"
    using km unfolding kmalloc_sized_def kmalloc_succeeds_def by (metis option.inject)
  from normalkey_add_spec [OF inv cr this b l, of nm attr]
  obtain s' r where a: "normalkey_add env s (Some nm) (Some buf) len attr = Some (s', r)"
    "nk_add_outcome (\<lambda>d. {H d}) s nm (take (unat len) buf) attr s' r" by blast
  have "\<exists>s'. normalkey_add env s (Some nm) (Some buf) len attr = Some (s', 0)"
    by (rule normalkey_add_succeeds [OF inv cr km b l c]) (rule same)
  with a show ?thesis by (auto simp: nk_add_outcome_def nk_inv_in_one)
qed

theorem normalkey_add_stores_witness:
  "\<exists>s'. normalkey_add good_env good_state (Some [0x61]) (Some [1, 2, 3]) 3 0 = Some (s', 0) \<and>
     nk_map (keys s') [0x61] = Some ([1, 2, 3], 0)"
  using normalkey_add_stores [OF good_state_inv good_env_ok(1,2), of 3 "[1, 2, 3]" 0 "[0x61]"]
  by (fastforce simp: good_state_def mac_obj_def obj_name_def)

text \<open>C4: A damaged image is not trusted.  When the hash of the body of a marked block differs from
  the one stored in its head, \<open>normalkey_readfromblock\<close> loads no key, counts one more error
  and leaves the store ready for requests.\<close>

theorem normalkey_damaged_block:
  assumes cr: "crypto_ok env H" and blk: "length blk = sz" "1024 < sz" "sz < 2 ^ 31"
    and mark: "take 10 blk = blockmark @ [0]"
    and bad: "H (drop 512 blk) \<noteq> take 32 (drop 76 blk)"
    and t: "blockinited t = 1" "keys t = []"
  shows "\<exists>t'. normalkey_readfromblock env t (Some blk) sz = Some (t', 0) \<and>
     keys t' = [] \<and> blockinited t' = 2 \<and> nk_inv H t' \<and>
     rh_errcnt (rawhead t') =
       (if H (take 44 blk) = take 32 (drop 44 blk) then of_le32 (take 4 (drop 36 blk)) else 0) + 1"
proof -
  have u: "unat (of_nat sz - 512 :: u32) = sz - 512"
    using blk unat_of_nat32 [of "sz - 512"] by (simp add: of_nat_diff)
  have mk: "rh_mark reset_raw_head = blockmark @ replicate 7 0" by (simp add: reset_raw_head_def)
  show ?thesis
    using t blk mark bad mk u
    by (auto simp: normalkey_readfromblock_def nk_read_rawhead_def normalkey_hash_ok [OF cr] Let_def
        get_bytes_def fetch_def nk_inv_def of_nat_diff reset_raw_head_def)
qed

definition damaged_block :: "u8 list" where
  "damaged_block = blockmark @ replicate 2038 0"

theorem normalkey_damaged_block_witness:
  "\<exists>t'. normalkey_readfromblock good_env (good_state\<lparr>blockinited := 1, keys := []\<rparr>)
       (Some damaged_block) 2047 = Some (t', 0) \<and> keys t' = [] \<and> rh_errcnt (rawhead t') = 1"
proof -
  have l: "length damaged_block = 2047" "take 10 damaged_block = blockmark @ [0]"
    "good_hash (drop 512 damaged_block) \<noteq> take 32 (drop 76 damaged_block)"
    "good_hash (take 44 damaged_block) \<noteq> take 32 (drop 44 damaged_block)"
    by code_simp+
  show ?thesis
    using normalkey_damaged_block [OF good_env_ok(1) l(1) _ _ l(2,3),
        of "good_state\<lparr>blockinited := 1, keys := []\<rparr>"] l(4) by auto
qed

text \<open>A blank or foreign block (no \<open>AMLNORMAL\<close> mark) gives an empty store that accepts keys; no
  service is called.\<close>

theorem normalkey_blank_block:
  assumes blk: "10 \<le> length blk" "1024 < sz" and mark: "take 10 blk \<noteq> blockmark @ [0]"
    and t: "blockinited t = 1" "keys t = []"
  shows "\<exists>t'. normalkey_readfromblock env t (Some blk) sz = Some (t', 0) \<and> keys t' = [] \<and>
     nk_inv H t' \<and> rawhead t' = reset_raw_head \<and> ticks t' = ticks t"
  using assms
  by (simp add: normalkey_readfromblock_def get_bytes_def Let_def nk_inv_def reset_raw_head_def)

theorem normalkey_blank_block_witness:
  "\<exists>t'. normalkey_readfromblock good_env (good_state\<lparr>blockinited := 1, keys := []\<rparr>)
       (Some (replicate 2048 0)) 2048 = Some (t', 0) \<and> keys t' = [] \<and> nk_inv good_hash t'"
proof -
  have "take 10 (replicate 2048 (0 :: u8)) \<noteq> blockmark @ [0]" by code_simp
  then show ?thesis
    using normalkey_blank_block [of "replicate 2048 0" 2048 "good_state\<lparr>blockinited := 1, keys := []\<rparr>"
        good_env good_hash] by auto
qed

text \<open>Saving succeeds exactly when the keys fit: \<open>normalkey_writetoblock\<close> on a block of more
  than 1024 bytes returns 0 if and only if the two heads and the encoded keys are at most the
  size of the block.\<close>

theorem normalkey_write_iff_fits:
  assumes "nk_inv H s" and "crypto_ok env H" and "length blk = sz" "1024 < sz" "sz < 2 ^ 31"
  shows "(\<exists>s' blk'. normalkey_writetoblock env s (Some blk) sz = Some (s', blk', 0)) \<longleftrightarrow>
     1024 + sum_list (map (\<lambda>obj. length (obj_bytes obj)) (keys s)) \<le> sz"
proof -
  have e: "length (objs_bytes ks) = sum_list (map (\<lambda>obj. length (obj_bytes obj)) ks)" for ks
    by (induction ks) simp_all
  show ?thesis
    using normalkey_writetoblock_image [OF assms] normalkey_writetoblock_fits(2) [OF assms(1,3,5)]
    unfolding e by blast
qed

theorem normalkey_write_iff_fits_witness:
  "(\<exists>s' blk'. normalkey_writetoblock good_env good_state (Some (replicate 1144 0)) 1144 = Some (s', blk', 0)) \<and>
   \<not> (\<exists>s' blk'. normalkey_writetoblock good_env good_state (Some (replicate 1143 0)) 1143 = Some (s', blk', 0))"
  using normalkey_write_iff_fits [OF good_state_inv good_env_ok(1), of "replicate 1144 0" 1144]
    normalkey_write_iff_fits [OF good_state_inv good_env_ok(1), of "replicate 1143 0" 1143]
  by (simp add: good_state_keys mac_obj_size)

text \<open>The failure of the hash service is not reported by an add: with no transform to be had, a
  new key is stored with result 0 and a hash of zeros, which the next load compares with the
  hash of its content.\<close>

theorem normalkey_add_ignores_hash_failure:
  assumes inv: "nk_inv H s" and cr: "\<And>n. \<not> crypto_alloc_shash env n" and km: "kmalloc_succeeds (kmalloc env)"
    and b: "unat len \<le> length buf"
    and c: "len \<noteq> 0" "attr AND OBJ_ATTR_SECURE = 0" "length nm \<le> 80" "nk_map (keys s) nm = None"
  shows "\<exists>s' obj. normalkey_add env s (Some nm) (Some buf) len attr = Some (s', 0) \<and>
     keys s' = obj # keys s \<and> obj_name obj = nm \<and> obj_content obj = take (unat len) buf \<and>
     hashptr obj = replicate 32 0"
proof -
  have bi: "blockinited s = 2" using inv by (simp add: nk_inv_def)
  have f: "nk_find (keys s) nm = Some None"
    using nk_find_spec [OF nk_inv_wf [OF inv], of nm] c(4) by (simp add: nk_map_None_iff)
  obtain node where k1: "kmalloc env (ticks s) SIZEOF_STORAGE_NODE = Some node" "length node = SIZEOF_STORAGE_NODE"
    using km unfolding kmalloc_succeeds_def by blast
  obtain d0 where k2: "kmalloc env (Suc (ticks s)) (unat len) = Some d0" "length d0 = unat len"
    using km unfolding kmalloc_succeeds_def by blast
  have u: "unat (of_nat (length nm) :: u32) = length nm" using c(3) by (intro unat_of_nat32) simp
  have h: "normalkey_hash env n d = (- EINVAL, replicate 32 0, Suc n)" for n d
    using cr by (simp add: normalkey_hash_def)
  show ?thesis
    using bi f k1 k2 c(1-3) b u
    by (auto simp: normalkey_add_def normalkey_get_def nk_store_def h get_bytes_def put_bytes_def
        obj_name_def obj_content_def)
qed

theorem normalkey_add_ignores_hash_failure_witness:
  "\<exists>s' obj. normalkey_add (good_env\<lparr>crypto_alloc_shash := \<lambda>n. False\<rparr>) good_state (Some [0x61])
       (Some [1, 2, 3]) 3 0 = Some (s', 0) \<and> keys s' = obj # keys good_state \<and>
     obj_content obj = [1, 2, 3] \<and> hashptr obj = replicate 32 0"
  using normalkey_add_ignores_hash_failure [OF good_state_inv,
      of "good_env\<lparr>crypto_alloc_shash := \<lambda>n. False\<rparr>" 3 "[1, 2, 3]" 0 "[0x61]"]
  by (fastforce simp: good_env_def kmalloc_succeeds_def good_state_def mac_obj_def obj_name_def)

end
