(* ===== verification/Security_Key.thy ===== *)
theory Security_Key
  imports Aml_Prelude
begin

unbundle bit_operations_syntax

text \<open>
  The calls to the secure key storage of the firmware, \<open>soc/amlogic/unifykey/security_key.c\<close>.
  Requests go through a shared input buffer, results come back through a shared output buffer,
  and a third buffer (\<open>block\<close>) holds the image of the whole storage.

  The firmware (BL31, called by \<open>arm_smccc_smc\<close>) is the parameter \<open>smc\<close>: a function number,
  the state of the firmware and the three buffers give the register \<open>a0\<close>, the new state and the
  new buffers.  The mapping of physical addresses is the parameter \<open>mem_map\<close>.
\<close>

section \<open>State\<close>

type_synonym 'f smc_t =
  "u64 \<Rightarrow> 'f \<times> u8 list \<times> u8 list \<times> u8 list \<Rightarrow> u64 \<times> 'f \<times> u8 list \<times> u8 list \<times> u8 list"

record 'f sk_state =
  storage_init_status :: int
  sm_in :: "u8 list"
  sm_out :: "u8 list"
  sm_block :: "u8 list"
  sm_size :: u64
  fw :: 'f

record mem_map =
  pfn_valid :: "u64 \<Rightarrow> bool"
  phys_to_virt :: "u64 \<Rightarrow> u64 \<Rightarrow> u8 list option"
  ioremap_cache :: "u64 \<Rightarrow> u64 \<Rightarrow> u8 list option"

abbreviation (input) RET_OK :: u64 where "RET_OK \<equiv> 0"
abbreviation (input) RET_EFAIL :: u64 where "RET_EFAIL \<equiv> 1"
abbreviation (input) RET_EMEM :: u64 where "RET_EMEM \<equiv> 3"
abbreviation (input) RET_EUND :: u64 where "RET_EUND \<equiv> 0xff"
abbreviation (input) SMC_UNK :: u64 where "SMC_UNK \<equiv> 0xffffffff"

abbreviation (input) BL31_STORAGE_QUERY :: u64 where "BL31_STORAGE_QUERY \<equiv> 0x82000060"
abbreviation (input) BL31_STORAGE_READ :: u64 where "BL31_STORAGE_READ \<equiv> 0x82000061"
abbreviation (input) BL31_STORAGE_WRITE :: u64 where "BL31_STORAGE_WRITE \<equiv> 0x82000062"
abbreviation (input) BL31_STORAGE_TELL :: u64 where "BL31_STORAGE_TELL \<equiv> 0x82000063"
abbreviation (input) BL31_STORAGE_VERIFY :: u64 where "BL31_STORAGE_VERIFY \<equiv> 0x82000064"
abbreviation (input) BL31_STORAGE_STATUS :: u64 where "BL31_STORAGE_STATUS \<equiv> 0x82000065"
abbreviation (input) BL31_STORAGE_IN :: u64 where "BL31_STORAGE_IN \<equiv> 0x82000023"
abbreviation (input) BL31_STORAGE_OUT :: u64 where "BL31_STORAGE_OUT \<equiv> 0x82000024"
abbreviation (input) BL31_STORAGE_BLOCK :: u64 where "BL31_STORAGE_BLOCK \<equiv> 0x82000025"
abbreviation (input) BL31_STORAGE_SIZE :: u64 where "BL31_STORAGE_SIZE \<equiv> 0x82000027"

section \<open>Operations\<close>

definition storage_smc_ops :: "'f smc_t \<Rightarrow> 'f sk_state \<Rightarrow> u64 \<Rightarrow> 'f sk_state \<times> u64" where
  "storage_smc_ops smc s func =
     (case smc func (fw s, sm_in s, sm_out s, sm_block s) of
        (a0, f, i, o', b) \<Rightarrow> (s\<lparr>fw := f, sm_in := i, sm_out := o', sm_block := b\<rparr>, a0))"

text \<open>The size of the shared buffers, or 0 and no buffer.\<close>

definition secure_storage_getbuf :: "'f sk_state \<Rightarrow> u32 \<times> bool" where
  "secure_storage_getbuf s = (if storage_init_status s = 1 then (ucast (sm_size s), True) else (0, False))"

text \<open>The checks \<open>namelen + keylen + 12L > share_mem->size\<close>: the first sum is one of \<open>u32\<close>.\<close>

definition secure_storage_write ::
    "'f smc_t \<Rightarrow> 'f sk_state \<Rightarrow> cstr \<Rightarrow> u8 list \<Rightarrow> u32 \<Rightarrow> u32 \<Rightarrow> ('f sk_state \<times> u64) option" where
  "secure_storage_write smc s keyname keybuf keylen keyattr =
     (if storage_init_status s \<noteq> 1 then Some (s, RET_EUND)
      else let namelen = of_nat (length keyname) :: u32 in
        if ucast (namelen + keylen) + 12 > sm_size s then Some (s, RET_EMEM)
        else do {
          i \<leftarrow> put_bytes (sm_in s) 0 (le32 namelen);
          i \<leftarrow> put_bytes i 4 (le32 keylen);
          i \<leftarrow> put_bytes i 8 (le32 keyattr);
          i \<leftarrow> put_bytes i 12 (take (unat namelen) keyname);
          kd \<leftarrow> get_bytes keybuf 0 (unat keylen);
          i \<leftarrow> put_bytes i (12 + unat namelen) kd;
          Some (storage_smc_ops smc (s\<lparr>sm_in := i\<rparr>) BL31_STORAGE_WRITE)
        })"

text \<open>The results of a read are the state, the caller's buffer, \<open>*readlen\<close> if it is set, and the
  return value.\<close>

definition secure_storage_read ::
    "'f smc_t \<Rightarrow> 'f sk_state \<Rightarrow> cstr \<Rightarrow> u8 list \<Rightarrow> u32 \<Rightarrow> ('f sk_state \<times> u8 list \<times> u32 option \<times> u64) option" where
  "secure_storage_read smc s keyname keybuf keylen =
     (if storage_init_status s \<noteq> 1 then Some (s, keybuf, None, RET_EUND)
      else let namelen = of_nat (length keyname) :: u32 in
        if ucast namelen + 8 > sm_size s then Some (s, keybuf, None, RET_EMEM)
        else do {
          i \<leftarrow> put_bytes (sm_in s) 0 (le32 namelen);
          i \<leftarrow> put_bytes i 4 (le32 keylen);
          i \<leftarrow> put_bytes i 8 (take (unat namelen) keyname);
          let (s, ret) = storage_smc_ops smc (s\<lparr>sm_in := i\<rparr>) BL31_STORAGE_READ;
          if ret = RET_OK then do {
            readlen \<leftarrow> rd32 (sm_out s) 0;
            let readlen = (if readlen > keylen then keylen else readlen);
            bs \<leftarrow> get_bytes (sm_out s) 4 (unat readlen);
            keybuf \<leftarrow> put_bytes keybuf 0 bs;
            Some (s, keybuf, Some readlen, ret)
          }
          else Some (s, keybuf, None, ret)
        })"

text \<open>The common course of the calls that pass a name only.\<close>

definition storage_name_call ::
    "'f smc_t \<Rightarrow> u64 \<Rightarrow> 'f sk_state \<Rightarrow> cstr \<Rightarrow> (('f sk_state \<times> u64) + u64) option" where
  "storage_name_call smc func s keyname =
     (if storage_init_status s \<noteq> 1 then Some (Inr RET_EUND)
      else let namelen = of_nat (length keyname) :: u32 in
        if ucast namelen + 4 > sm_size s then Some (Inr RET_EMEM)
        else do {
          i \<leftarrow> put_bytes (sm_in s) 0 (le32 namelen);
          i \<leftarrow> put_bytes i 4 (take (unat namelen) keyname);
          Some (Inl (storage_smc_ops smc (s\<lparr>sm_in := i\<rparr>) func))
        })"

definition secure_storage_verify ::
    "'f smc_t \<Rightarrow> 'f sk_state \<Rightarrow> cstr \<Rightarrow> u8 list \<Rightarrow> ('f sk_state \<times> u8 list \<times> u64) option" where
  "secure_storage_verify smc s keyname hashbuf =
     do {
       r \<leftarrow> storage_name_call smc BL31_STORAGE_VERIFY s keyname;
       case r of
         Inr ret \<Rightarrow> Some (s, hashbuf, ret)
       | Inl (s, ret) \<Rightarrow>
           if ret = RET_OK then do {
             h \<leftarrow> get_bytes (sm_out s) 0 32;
             hashbuf \<leftarrow> put_bytes hashbuf 0 h;
             Some (s, hashbuf, ret)
           }
           else Some (s, hashbuf, ret)
     }"

text \<open>A word result: the first word of the output buffer when the call succeeds.\<close>

definition storage_word_call ::
    "'f smc_t \<Rightarrow> u64 \<Rightarrow> 'f sk_state \<Rightarrow> cstr \<Rightarrow> ('f sk_state \<times> u32 option \<times> u64) option" where
  "storage_word_call smc func s keyname =
     do {
       r \<leftarrow> storage_name_call smc func s keyname;
       case r of
         Inr ret \<Rightarrow> Some (s, None, ret)
       | Inl (s, ret) \<Rightarrow>
           if ret = RET_OK then do { v \<leftarrow> rd32 (sm_out s) 0; Some (s, Some v, ret) }
           else Some (s, None, ret)
     }"

definition secure_storage_query :: "'f smc_t \<Rightarrow> 'f sk_state \<Rightarrow> cstr \<Rightarrow> ('f sk_state \<times> u32 option \<times> u64) option" where
  "secure_storage_query smc s key_name = storage_word_call smc BL31_STORAGE_QUERY s key_name"

definition secure_storage_tell :: "'f smc_t \<Rightarrow> 'f sk_state \<Rightarrow> cstr \<Rightarrow> ('f sk_state \<times> u32 option \<times> u64) option" where
  "secure_storage_tell smc s keyname = storage_word_call smc BL31_STORAGE_TELL s keyname"

definition secure_storage_status :: "'f smc_t \<Rightarrow> 'f sk_state \<Rightarrow> cstr \<Rightarrow> ('f sk_state \<times> u32 option \<times> u64) option" where
  "secure_storage_status smc s keyname = storage_word_call smc BL31_STORAGE_STATUS s keyname"

text \<open>The buffers are obtained from the firmware; \<open>alloc_ok\<close> says whether the allocation of
  \<open>share_mem\<close> succeeds.\<close>

definition security_key_init :: "'f smc_t \<Rightarrow> mem_map \<Rightarrow> bool \<Rightarrow> 'f sk_state \<Rightarrow> 'f sk_state \<times> int" where
  "security_key_init smc mm alloc_ok s =
     (let s = s\<lparr>storage_init_status := -1\<rparr> in
      if \<not> alloc_ok then (s, - ENOMEM)
      else let (s, phy_in) = storage_smc_ops smc s BL31_STORAGE_IN;
               (s, phy_out) = storage_smc_ops smc s BL31_STORAGE_OUT;
               (s, phy_block) = storage_smc_ops smc s BL31_STORAGE_BLOCK;
               (s, sz) = storage_smc_ops smc s BL31_STORAGE_SIZE;
               s = s\<lparr>sm_size := sz\<rparr>
           in if phy_in = 0 \<or> phy_in = SMC_UNK \<or> phy_out = 0 \<or> phy_out = SMC_UNK \<or>
                 phy_block = 0 \<or> phy_block = SMC_UNK \<or> sz = 0 \<or> sz = SMC_UNK
              then (s, - EOPNOTSUPP)
              else let mp = (if pfn_valid mm (drop_bit 12 phy_in) then phys_to_virt mm else ioremap_cache mm)
                   in case (mp phy_in sz, mp phy_out sz, mp phy_block sz) of
                        (Some i, Some o', Some b) \<Rightarrow>
                          (s\<lparr>sm_in := i, sm_out := o', sm_block := b, storage_init_status := 1\<rparr>, 0)
                      | _ \<Rightarrow> (s, - EINVAL))"

section \<open>Requests as the firmware sees them\<close>

lemma put_prefix:
  "put_bytes (xs @ buf) (length xs) bs = (if length bs \<le> length buf then Some (xs @ bs @ drop (length bs) buf) else None)"
  by (simp add: put_bytes_def)

text \<open>The input buffer of a write request.\<close>

definition write_req :: "cstr \<Rightarrow> u8 list \<Rightarrow> u32 \<Rightarrow> u8 list" where
  "write_req nm d a = le32 (of_nat (length nm)) @ le32 (of_nat (length d)) @ le32 a @ nm @ d"

definition read_req :: "cstr \<Rightarrow> u32 \<Rightarrow> u8 list" where
  "read_req nm kl = le32 (of_nat (length nm)) @ le32 kl @ nm"

lemma length_reqs [simp]:
  "length (write_req nm d a) = 12 + length nm + length d" "length (read_req nm kl) = 8 + length nm"
  by (simp_all add: write_req_def read_req_def)

lemma secure_storage_write_eq:
  assumes st: "storage_init_status s = 1" and l: "length (sm_in s) = unat (sm_size s)"
    and d: "length d = unat kl" "length nm + unat kl < 2 ^ 32"
  shows "secure_storage_write smc s nm (d @ rest) kl a =
     (if 12 + length nm + length d \<le> unat (sm_size s)
      then Some (storage_smc_ops smc (s\<lparr>sm_in := write_req nm d a @ drop (12 + length nm + length d) (sm_in s)\<rparr>)
                   BL31_STORAGE_WRITE)
      else Some (s, RET_EMEM))"
proof -
  let ?n = "of_nat (length nm) :: u32"
  have un: "unat ?n = length nm" using d(2) by (intro unat_of_nat32) simp
  have us: "unat (?n + kl) = length nm + unat kl"
    using un d(2) by (simp add: unat_add_lem [THEN iffD1])
  have chk: "ucast (?n + kl) + 12 > sm_size s \<longleftrightarrow> \<not> 12 + length nm + length d \<le> unat (sm_size s)"
    using ucast_small [of "?n + kl" 12] us d by (simp add: word_less_nat_alt not_le ac_simps)
  have kl: "kl = of_nat (length d)" using d(1) by (simp add: of_nat_unat)
  have kd: "get_bytes (d @ rest) 0 (unat kl) = Some d" using d(1) by (simp add: get_bytes_def)
  show ?thesis
  proof (cases "12 + length nm + length d \<le> unat (sm_size s)")
    case False
    then show ?thesis using st chk by (simp add: secure_storage_write_def Let_def)
  next
    case True
    let ?i = "sm_in s"
    have 1: "put_bytes ?i 0 (le32 ?n) = Some (le32 ?n @ drop 4 ?i)" using True l by (simp add: put_bytes_def)
    have 2: "put_bytes (le32 ?n @ drop 4 ?i) 4 (le32 kl) = Some ((le32 ?n @ le32 kl) @ drop 8 ?i)"
      using True l put_prefix [of "le32 ?n" "drop 4 ?i" "le32 kl"] by simp
    have 3: "put_bytes ((le32 ?n @ le32 kl) @ drop 8 ?i) 8 (le32 a) = Some ((le32 ?n @ le32 kl @ le32 a) @ drop 12 ?i)"
      using True l put_prefix [of "le32 ?n @ le32 kl" "drop 8 ?i" "le32 a"] by simp
    have 4: "put_bytes ((le32 ?n @ le32 kl @ le32 a) @ drop 12 ?i) 12 nm =
        Some ((le32 ?n @ le32 kl @ le32 a @ nm) @ drop (12 + length nm) ?i)"
      using True l put_prefix [of "le32 ?n @ le32 kl @ le32 a" "drop 12 ?i" nm] by (simp add: add.commute)
    have 5: "put_bytes ((le32 ?n @ le32 kl @ le32 a @ nm) @ drop (12 + length nm) ?i) (12 + length nm) d =
        Some (write_req nm d a @ drop (12 + length nm + length d) ?i)"
      using True l put_prefix [of "le32 ?n @ le32 kl @ le32 a @ nm" "drop (12 + length nm) ?i" d] kl
      by (simp add: write_req_def add.commute add.left_commute)
    show ?thesis
      using True st chk un kd 1 2 3 4 5 by (simp add: secure_storage_write_def Let_def)
  qed
qed

lemma secure_storage_read_eq:
  assumes st: "storage_init_status s = 1" and l: "length (sm_in s) = unat (sm_size s)" and n: "length nm < 2 ^ 32"
    and fit: "8 + length nm \<le> unat (sm_size s)"
  shows "secure_storage_read smc s nm buf kl =
     (let (s, ret) = storage_smc_ops smc (s\<lparr>sm_in := read_req nm kl @ drop (8 + length nm) (sm_in s)\<rparr>) BL31_STORAGE_READ in
      if ret = RET_OK then do {
        readlen \<leftarrow> rd32 (sm_out s) 0;
        let readlen = (if readlen > kl then kl else readlen);
        bs \<leftarrow> get_bytes (sm_out s) 4 (unat readlen);
        buf \<leftarrow> put_bytes buf 0 bs;
        Some (s, buf, Some readlen, ret)
      }
      else Some (s, buf, None, ret))"
proof -
  let ?n = "of_nat (length nm) :: u32" and ?i = "sm_in s"
  have un: "unat ?n = length nm" using n by (intro unat_of_nat32) simp
  have chk: "\<not> ucast ?n + 8 > sm_size s"
    using ucast_small [of ?n 8] un n fit by (simp add: word_less_nat_alt not_le add.commute)
  have 1: "put_bytes ?i 0 (le32 ?n) = Some (le32 ?n @ drop 4 ?i)" using fit l by (simp add: put_bytes_def)
  have 2: "put_bytes (le32 ?n @ drop 4 ?i) 4 (le32 kl) = Some ((le32 ?n @ le32 kl) @ drop 8 ?i)"
    using fit l put_prefix [of "le32 ?n" "drop 4 ?i" "le32 kl"] by simp
  have 3: "put_bytes ((le32 ?n @ le32 kl) @ drop 8 ?i) 8 nm = Some (read_req nm kl @ drop (8 + length nm) ?i)"
    using fit l put_prefix [of "le32 ?n @ le32 kl" "drop 8 ?i" nm] by (simp add: read_req_def add.commute)
  show ?thesis
    using st chk un 1 2 3 by (simp add: secure_storage_read_def Let_def)
qed

section \<open>Properties of the secure storage calls\<close>

text \<open>The buffers as \<open>security_key_init\<close> maps them: each has the size the firmware gave.\<close>

definition sk_ready :: "'f sk_state \<Rightarrow> bool" where
  "sk_ready s \<longleftrightarrow> storage_init_status s = 1 \<and> length (sm_in s) = unat (sm_size s) \<and>
     length (sm_out s) = unat (sm_size s)"

text \<open>What the driver relies on of the firmware: \<open>kv\<close> is the key table of its state.  A write request
  that succeeds stores the key, one that fails stores nothing; a read request succeeds for the keys
  of the table whose content fits the output buffer, which then holds length and content; the
  buffers keep their sizes.\<close>

definition fw_keeps_sizes :: "'f smc_t \<Rightarrow> bool" where
  "fw_keeps_sizes smc \<longleftrightarrow>
     (\<forall>func f i o' b a0 f' i' o'' b'. smc func (f, i, o', b) = (a0, f', i', o'', b') \<longrightarrow>
        length i' = length i \<and> length o'' = length o')"

definition fw_writes :: "'f smc_t \<Rightarrow> ('f \<Rightarrow> cstr \<Rightarrow> (u8 list \<times> u32) option) \<Rightarrow> bool" where
  "fw_writes smc kv \<longleftrightarrow>
     (\<forall>f rest nm d a o' b a0 f' i' o'' b'. length nm < 2 ^ 32 \<longrightarrow> length d < 2 ^ 32 \<longrightarrow>
        smc BL31_STORAGE_WRITE (f, write_req nm d a @ rest, o', b) = (a0, f', i', o'', b') \<longrightarrow>
        kv f' = (if a0 = RET_OK then (kv f)(nm \<mapsto> (d, a)) else kv f))"

definition fw_reads :: "'f smc_t \<Rightarrow> ('f \<Rightarrow> cstr \<Rightarrow> (u8 list \<times> u32) option) \<Rightarrow> bool" where
  "fw_reads smc kv \<longleftrightarrow>
     (\<forall>f rest nm kl o' b a0 f' i' o'' b' d a. length nm < 2 ^ 32 \<longrightarrow>
        smc BL31_STORAGE_READ (f, read_req nm kl @ rest, o', b) = (a0, f', i', o'', b') \<longrightarrow>
        kv f nm = Some (d, a) \<longrightarrow> 4 + length d \<le> length o' \<longrightarrow>
        a0 = RET_OK \<and> take (4 + length d) o'' = le32 (of_nat (length d)) @ d)"

definition bl31_storage :: "'f smc_t \<Rightarrow> ('f \<Rightarrow> cstr \<Rightarrow> (u8 list \<times> u32) option) \<Rightarrow> bool" where
  "bl31_storage smc kv \<longleftrightarrow> fw_keeps_sizes smc \<and> fw_writes smc kv \<and> fw_reads smc kv"

lemma bl31_sizes:
  "bl31_storage smc kv \<Longrightarrow> smc func (f, i, o', b) = (a0, f', i', o'', b') \<Longrightarrow>
     length i' = length i \<and> length o'' = length o'"
  unfolding bl31_storage_def fw_keeps_sizes_def by metis

lemma bl31_write:
  "bl31_storage smc kv \<Longrightarrow> length nm < 2 ^ 32 \<Longrightarrow> length d < 2 ^ 32 \<Longrightarrow>
     smc BL31_STORAGE_WRITE (f, write_req nm d a @ rest, o', b) = (a0, f', i', o'', b') \<Longrightarrow>
     kv f' = (if a0 = RET_OK then (kv f)(nm \<mapsto> (d, a)) else kv f)"
  unfolding bl31_storage_def fw_writes_def by metis

lemma bl31_read:
  "bl31_storage smc kv \<Longrightarrow> length nm < 2 ^ 32 \<Longrightarrow>
     smc BL31_STORAGE_READ (f, read_req nm kl @ rest, o', b) = (a0, f', i', o'', b') \<Longrightarrow>
     kv f nm = Some (d, a) \<Longrightarrow> 4 + length d \<le> length o' \<Longrightarrow>
     a0 = RET_OK \<and> take (4 + length d) o'' = le32 (of_nat (length d)) @ d"
  unfolding bl31_storage_def fw_reads_def by metis

text \<open>C16: A key written through the firmware interface is read back.  When the write request fits the
  shared buffers it reaches the firmware whole, and if the firmware accepts it, a read with a large
  enough buffer returns the content and its length, leaving the rest of the caller's buffer alone.\<close>

theorem secure_storage_write_read:
  assumes r: "sk_ready s" and fwk: "bl31_storage smc kv"
    and fit: "12 + length nm + length d \<le> unat (sm_size s)" "length nm + length d < 2 ^ 32"
    and w: "secure_storage_write smc s nm d (of_nat (length d)) a = Some (s', RET_OK)"
    and b: "length d \<le> unat kl" "length d \<le> length buf"
  shows "\<exists>s''. secure_storage_read smc s' nm buf kl =
     Some (s'', d @ drop (length d) buf, Some (of_nat (length d)), RET_OK)"
proof -
  have ld: "length d = unat (of_nat (length d) :: u32)" using fit(2) unat_of_nat32 [of "length d"] by simp
  have "Some (storage_smc_ops smc (s\<lparr>sm_in := write_req nm d a @ drop (12 + length nm + length d) (sm_in s)\<rparr>)
                   BL31_STORAGE_WRITE) = Some (s', RET_OK)"
    using w secure_storage_write_eq [OF _ _ ld, of s nm smc "[]" a] r fit ld by (simp add: sk_ready_def)
  then obtain f' i' o' b' where sm: "smc BL31_STORAGE_WRITE (fw s, write_req nm d a @ drop (12 + length nm + length d) (sm_in s),
        sm_out s, sm_block s) = (RET_OK, f', i', o', b')"
    and s': "s' = s\<lparr>sm_in := i', fw := f', sm_out := o', sm_block := b'\<rparr>"
    by (auto simp: storage_smc_ops_def split: prod.splits)
  have kv: "kv f' nm = Some (d, a)" and li: "length i' = length (sm_in s)" and lo: "length o' = length (sm_out s)"
    using bl31_write [OF fwk _ _ sm] bl31_sizes [OF fwk sm] fit r by (simp_all add: sk_ready_def)
  have st: "storage_init_status s' = 1" "length (sm_in s') = unat (sm_size s')" "length nm < 2 ^ 32"
    "8 + length nm \<le> unat (sm_size s')"
    using s' r li fit by (simp_all add: sk_ready_def)
  obtain a0 f'' i'' o'' b'' where rd: "smc BL31_STORAGE_READ (f', read_req nm kl @ drop (8 + length nm) i', o', b') =
      (a0, f'', i'', o'', b'')" using prod_cases5 by blast
  have ok: "a0 = RET_OK" "take (4 + length d) o'' = le32 (of_nat (length d)) @ d" "length o'' = length o'"
    using bl31_read [OF fwk _ rd kv] bl31_sizes [OF fwk rd] lo r fit by (simp_all add: sk_ready_def)
  have lo'': "4 + length d \<le> length o''" using ok(3) lo r fit(1) by (simp add: sk_ready_def)
  have o'': "o'' = le32 (of_nat (length d)) @ d @ drop (4 + length d) o''"
    using ok(2) append_take_drop_id [of "4 + length d" o''] by simp
  have "rd32 o'' 0 = Some (of_nat (length d))" by (subst o'') (rule f32.fetch_start)
  moreover have "get_bytes o'' 4 (length d) = Some d"
    by (subst o'') (simp add: get_bytes_def)
  moreover have "\<not> (of_nat (length d) :: u32) > kl" using b(1) ld by (simp add: word_less_nat_alt)
  moreover have "put_bytes buf 0 d = Some (d @ drop (length d) buf)" using b(2) by (simp add: put_bytes_def)
  ultimately show ?thesis
    using secure_storage_read_eq [OF st, of smc buf kl] rd ok(1) s' ld
    by (simp add: storage_smc_ops_def Let_def)
qed

text \<open>A firmware that keeps its table in memory.\<close>

definition mem_smc :: "(cstr \<Rightarrow> (u8 list \<times> u32) option) smc_t" where
  "mem_smc func st =
     (case st of (f, i, o', b) \<Rightarrow>
        let nl = unat (of_le32 (take 4 i)) in
        if func = BL31_STORAGE_WRITE then
          (let kl = unat (of_le32 (take 4 (drop 4 i))); a = of_le32 (take 4 (drop 8 i))
           in (RET_OK, f(take nl (drop 12 i) \<mapsto> (take kl (drop (12 + nl) i), a)), i, o', b))
        else if func = BL31_STORAGE_READ then
          (case f (take nl (drop 8 i)) of
             Some (d, a) \<Rightarrow> if 4 + length d \<le> length o'
                           then (RET_OK, f, i, le32 (of_nat (length d)) @ d @ drop (4 + length d) o', b)
                           else (RET_EMEM, f, i, o', b)
           | None \<Rightarrow> (RET_EFAIL, f, i, o', b))
        else (RET_OK, f, i, o', b))"

lemma mem_smc_write:
  "length nm < 2 ^ 32 \<Longrightarrow> length d < 2 ^ 32 \<Longrightarrow>
     mem_smc BL31_STORAGE_WRITE (f, write_req nm d a @ rest, o', b) =
       (RET_OK, f(nm \<mapsto> (d, a)), write_req nm d a @ rest, o', b)"
  by (simp add: mem_smc_def write_req_def Let_def unat_of_nat32)

lemma mem_smc_read:
  "length nm < 2 ^ 32 \<Longrightarrow> f nm = Some (d, a) \<Longrightarrow> 4 + length d \<le> length o' \<Longrightarrow>
     mem_smc BL31_STORAGE_READ (f, read_req nm kl @ rest, o', b) =
       (RET_OK, f, read_req nm kl @ rest, le32 (of_nat (length d)) @ d @ drop (4 + length d) o', b)"
  by (simp add: mem_smc_def read_req_def Let_def unat_of_nat32)

lemma mem_smc_keeps: "mem_smc func (f, i, o', b) = (a0, f', i', o'', b') \<Longrightarrow>
    length i' = length i \<and> length o'' = length o' \<and> (func = BL31_STORAGE_READ \<longrightarrow> f' = f)"
  by (auto simp: mem_smc_def Let_def split: if_splits option.splits)

lemma mem_smc_ok: "bl31_storage mem_smc (\<lambda>f. f)"
  unfolding bl31_storage_def
proof (intro conjI)
  show "fw_keeps_sizes mem_smc" unfolding fw_keeps_sizes_def using mem_smc_keeps by blast
  show "fw_writes mem_smc (\<lambda>f. f)" unfolding fw_writes_def by (simp add: mem_smc_write)
  show "fw_reads mem_smc (\<lambda>f. f)" unfolding fw_reads_def by (auto simp: mem_smc_read)
qed

definition mem_sk :: "(cstr \<Rightarrow> (u8 list \<times> u32) option) sk_state" where
  "mem_sk = \<lparr>storage_init_status = 1, sm_in = replicate 64 0, sm_out = replicate 64 0,
     sm_block = replicate 64 0, sm_size = 64, fw = Map.empty\<rparr>"

theorem secure_storage_write_read_witness:
  "\<exists>s' s''. secure_storage_write mem_smc mem_sk [0x61] [5, 6] 2 1 = Some (s', RET_OK) \<and>
     secure_storage_read mem_smc s' [0x61] [0, 0, 0] 3 = Some (s'', [5, 6, 0], Some 2, RET_OK)"
proof -
  have r: "sk_ready mem_sk" by (simp add: sk_ready_def mem_sk_def)
  have w: "\<exists>s'. secure_storage_write mem_smc mem_sk [0x61] [5, 6] 2 1 = Some (s', RET_OK)"
    using secure_storage_write_eq [of mem_sk "[5, 6]" 2 "[0x61]" mem_smc "[]" 1]
    by (simp add: mem_sk_def storage_smc_ops_def mem_smc_def Let_def)
  then obtain s' where s': "secure_storage_write mem_smc mem_sk [0x61] [5, 6] 2 1 = Some (s', RET_OK)" by blast
  show ?thesis
    using s' secure_storage_write_read [OF r mem_smc_ok, of "[0x61]" "[5, 6]" 1 s' 3 "[0, 0, 0]"]
    by (auto simp: mem_sk_def)
qed

text \<open>C17: The length check of a write wraps around.  When name length and key length add up to \<open>2 ^ 32\<close>,
  the sum is 0 in \<open>u32\<close>, the request passes the check and the copy of the key runs past the shared
  buffer: the call has no result.\<close>

theorem secure_storage_write_length_wraps:
  assumes "sk_ready s" and "12 \<le> sm_size s" and "sm_size s < 2 ^ 31"
    and "unat kl + length nm = 2 ^ 32" and "length nm < 2 ^ 31" and "length d = unat kl"
  shows "secure_storage_write smc s nm d kl a = None"
proof -
  let ?n = "of_nat (length nm) :: u32"
  have un: "unat ?n = length nm" using assms(5) by (intro unat_of_nat32) simp
  have "?n + kl = of_nat (length nm + unat kl)" by (simp add: of_nat_unat)
  also have "\<dots> = of_nat (2 ^ 32)" using assms(4) by (simp add: add.commute)
  finally have z: "?n + kl = 0" by simp
  have sz: "unat (sm_size s) < 2 ^ 31" using assms(3) by (simp add: word_less_nat_alt)
  have p: "put_bytes i (12 + length nm) d = None" if "length i = unat (sm_size s)" for i
    using that sz assms(4-6) by (simp add: put_bytes_def)
  have lp: "length buf' = length buf" if "put_bytes buf off bs = Some buf'" for buf buf' :: "u8 list" and off bs
    using that length_put_bytes by blast
  have c: "\<not> ucast (?n + kl) + 12 > sm_size s" using assms(2) z by (simp add: not_less)
  show ?thesis
  proof (rule ccontr)
    assume "secure_storage_write smc s nm d kl a \<noteq> None"
    then obtain i1 i2 i3 i4 i5 where "put_bytes (sm_in s) 0 (le32 ?n) = Some i1" "put_bytes i1 4 (le32 kl) = Some i2"
      "put_bytes i2 8 (le32 a) = Some i3" "put_bytes i3 12 nm = Some i4" and 5: "put_bytes i4 (12 + length nm) d = Some i5"
      using c assms(1,6) un
      by (auto simp: secure_storage_write_def sk_ready_def Let_def get_bytes_def Option.bind_eq_Some_conv)
    then have "length i4 = unat (sm_size s)" using lp assms(1) by (metis sk_ready_def)
    from p [OF this] 5 show False by simp
  qed
qed

theorem secure_storage_write_length_wraps_witness:
  "secure_storage_write mem_smc mem_sk [0x61] (replicate (unat (0xffffffff :: u32)) 0) 0xffffffff 0 = None"
proof -
  have r: "sk_ready mem_sk" "12 \<le> sm_size mem_sk" "sm_size mem_sk < 2 ^ 31"
    by (simp_all add: sk_ready_def mem_sk_def)
  have u: "unat (0xffffffff :: u32) + length [0x61 :: u8] = 2 ^ 32" "length [0x61 :: u8] < 2 ^ 31" by simp_all
  show ?thesis
    by (rule secure_storage_write_length_wraps [OF r u]) (rule length_replicate)
qed

end
