(* ===== verification/Storage_Key.thy ===== *)
theory Storage_Key
  imports Normal_Key Security_Key
begin

unbundle bit_operations_syntax

text \<open>
  The storage back ends of the key manager, \<open>soc/amlogic/unifykey/storage_key.c\<close> and the
  dispatch of \<open>amlkey_if.h\<close>: the registration of a storage driver, the operations on secure keys
  (kept by the firmware, saved through the driver) and on normal keys (kept by \<open>Normal_Key\<close>, saved
  through the driver), and the choice between the two.

  A name with a leading underscore in the source is written here with a suffix: \<open>_amlkey_write\<close> is
  \<open>amlkey_write_secure\<close>, \<open>_amlkey_write_normal\<close> is \<open>amlkey_write_normal\<close>.
\<close>

section \<open>State\<close>

text \<open>The storage driver has a state \<open>'d\<close> of its own.  A read gives the buffer, the actual length
  and the return value; a write gives the return value.\<close>

record 'd unifykey_storage_ops =
  ops_read :: "('d \<Rightarrow> u8 list \<Rightarrow> u32 \<Rightarrow> ('d \<times> u8 list \<times> u32 \<times> int) option) option"
  ops_write :: "('d \<Rightarrow> u8 list \<Rightarrow> u32 \<Rightarrow> ('d \<times> int) option) option"

record 'd unifykey_type =
  storage_type :: u32
  ut_ops :: "'d unifykey_storage_ops"

datatype amlkey_if_type = IFTYPE_SECURE_STORAGE | IFTYPE_NORMAL_STORAGE

text \<open>\<open>si_buffer\<close> says whether \<open>storagekey_info.buffer\<close> is set; it then is the block of the shared
  memory, \<open>sm_block\<close>.\<close>

record ('f, 'd) uk_store =
  securekey_prebuf :: "u8 list option"
  si_buffer :: bool
  si_size :: u32
  unifykey_types :: "'d unifykey_type"
  normal_blksz :: u32
  normal_flashsize :: u32
  normal_block :: "u8 list option"
  amlkey_if :: "amlkey_if_type option"
  nk :: nk_state
  sk :: "'f sk_state"
  sdev :: 'd

text \<open>What the functions take from outside: allocator and hash, firmware, memory map, the device
  property \<open>blocksize\<close> (when present) and whether the allocation of \<open>share_mem\<close> succeeds.\<close>

record 'f uk_env =
  u_kenv :: kenv
  u_smc :: "'f smc_t"
  u_mm :: mem_map
  u_blocksize :: "u32 option"
  u_share_ok :: bool

abbreviation (input) UNIFYKEY_STORAGE_TYPE_INVALID :: u32 where "UNIFYKEY_STORAGE_TYPE_INVALID \<equiv> 0"
abbreviation (input) UNIFYKEY_STORAGE_TYPE_EMMC :: u32 where "UNIFYKEY_STORAGE_TYPE_EMMC \<equiv> 1"
abbreviation (input) UNIFYKEY_STORAGE_TYPE_MAX :: u32 where "UNIFYKEY_STORAGE_TYPE_MAX \<equiv> 3"
abbreviation (input) SECUESTORAGE_HEAD_SIZE :: nat where "SECUESTORAGE_HEAD_SIZE \<equiv> 256"
abbreviation (input) SECUREKEY_SIZE :: nat where "SECUREKEY_SIZE \<equiv> 0x40000"

section \<open>Registration\<close>

text \<open>The result is 0 for an invalid type and an error number for a valid one.\<close>

definition is_valid_unifykey_storage_type :: "u32 \<Rightarrow> int" where
  "is_valid_unifykey_storage_type t =
     (if t = UNIFYKEY_STORAGE_TYPE_INVALID \<or> t \<ge> UNIFYKEY_STORAGE_TYPE_MAX then 0 else - EINVAL)"

definition register_unifykey_types ::
    "('f, 'd) uk_store \<Rightarrow> 'd unifykey_type option \<Rightarrow> ('f, 'd) uk_store \<times> int" where
  "register_unifykey_types s uk_type =
     (case uk_type of
        None \<Rightarrow> (s, - EINVAL)
      | Some ut \<Rightarrow>
          if is_valid_unifykey_storage_type (storage_type ut) = 0 then (s, - EINVAL)
          else if is_valid_unifykey_storage_type (storage_type (unifykey_types s)) \<noteq> 0 then (s, - EBUSY)
          else (s\<lparr>unifykey_types := ut\<rparr>, 0))"

section \<open>Secure keys\<close>

definition clear_head :: "('f, 'd) uk_store \<Rightarrow> ('f, 'd) uk_store option" where
  "clear_head s =
     do {
       b \<leftarrow> put_bytes (sm_block (sk s)) 0 (replicate SECUESTORAGE_HEAD_SIZE 0);
       Some (s\<lparr>sk := (sk s)\<lparr>sm_block := b\<rparr>\<rparr>)
     }"

text \<open>\<open>min_t(int, actual_size, storagekey_info.size)\<close> compares the two as \<open>int\<close>.\<close>

definition min_t_int :: "u32 \<Rightarrow> u32 \<Rightarrow> u32" where
  "min_t_int a b = (if sint a < sint b then a else b)"

definition amlkey_init_secure :: "('f, 'd) uk_store \<Rightarrow> (('f, 'd) uk_store \<times> int) option" where
  "amlkey_init_secure s =
     (if si_buffer s then Some (s, 0)
      else let (sz, got) = secure_storage_getbuf (sk s); s = s\<lparr>si_buffer := got, si_size := sz\<rparr> in
        if \<not> got then Some (s, - EINVAL)
        else if is_valid_unifykey_storage_type (storage_type (unifykey_types s)) = 0 then Some (s, - EINVAL)
        else case ops_read (ut_ops (unifykey_types s)) of
               None \<Rightarrow> Some (s, - EINVAL)
             | Some rd \<Rightarrow> do {
                 (d, buf, actual_size, ret) \<leftarrow> rd (sdev s) (sm_block (sk s)) (si_size s);
                 let s = s\<lparr>sdev := d, sk := (sk s)\<lparr>sm_block := buf\<rparr>\<rparr>;
                 if ret \<noteq> 0 then do { s \<leftarrow> clear_head s; Some (s, ret) }
                 else if actual_size \<ge> 0x100000 then do { s \<leftarrow> clear_head s; Some (s, - EINVAL) }
                 else Some (s\<lparr>si_size := min_t_int actual_size (si_size s)\<rparr>, 0)
               })"

definition securekey_prebuf_init :: "'f uk_env \<Rightarrow> ('f, 'd) uk_store \<Rightarrow> ('f, 'd) uk_store \<times> int" where
  "securekey_prebuf_init env s =
     (let p = kmalloc (u_kenv env) (ticks (nk s)) SECUREKEY_SIZE;
          s = s\<lparr>securekey_prebuf := p, nk := (nk s)\<lparr>ticks := Suc (ticks (nk s))\<rparr>\<rparr>
      in (s, if p = None then - ENOMEM else 0))"

text \<open>The three word queries give 0 for a NULL name and for a failed call.\<close>

definition secure_word ::
    "('f sk_state \<Rightarrow> cstr \<Rightarrow> ('f sk_state \<times> u32 option \<times> u64) option) \<Rightarrow>
     ('f, 'd) uk_store \<Rightarrow> cstr option \<Rightarrow> (('f, 'd) uk_store \<times> u32) option" where
  "secure_word call s name =
     (case name of
        None \<Rightarrow> Some (s, 0)
      | Some nm \<Rightarrow> do {
          (k, v, ret) \<leftarrow> call (sk s) nm;
          Some (s\<lparr>sk := k\<rparr>, if ret \<noteq> 0 then 0 else case v of Some w \<Rightarrow> w | None \<Rightarrow> 0)
        })"

definition amlkey_exsit_secure :: "'f uk_env \<Rightarrow> ('f, 'd) uk_store \<Rightarrow> cstr option \<Rightarrow> (('f, 'd) uk_store \<times> u32) option" where
  "amlkey_exsit_secure env s name = secure_word (secure_storage_query (u_smc env)) s name"

definition amlkey_get_attr_secure :: "'f uk_env \<Rightarrow> ('f, 'd) uk_store \<Rightarrow> cstr option \<Rightarrow> (('f, 'd) uk_store \<times> u32) option" where
  "amlkey_get_attr_secure env s name = secure_word (secure_storage_status (u_smc env)) s name"

definition amlkey_size_secure :: "'f uk_env \<Rightarrow> ('f, 'd) uk_store \<Rightarrow> cstr option \<Rightarrow> (('f, 'd) uk_store \<times> u32) option" where
  "amlkey_size_secure env s name = secure_word (secure_storage_tell (u_smc env)) s name"

definition amlkey_read_secure ::
    "'f uk_env \<Rightarrow> ('f, 'd) uk_store \<Rightarrow> cstr option \<Rightarrow> u8 list \<Rightarrow> u32 \<Rightarrow> (('f, 'd) uk_store \<times> u8 list \<times> u32) option" where
  "amlkey_read_secure env s name buffer len =
     (case name of
        None \<Rightarrow> Some (s, buffer, 0)
      | Some nm \<Rightarrow> do {
          (k, buffer, v, ret) \<leftarrow> secure_storage_read (u_smc env) (sk s) nm buffer len;
          Some (s\<lparr>sk := k\<rparr>, buffer, if ret \<noteq> 0 then 0 else case v of Some w \<Rightarrow> w | None \<Rightarrow> 0)
        })"

definition amlkey_write_secure ::
    "'f uk_env \<Rightarrow> ('f, 'd) uk_store \<Rightarrow> cstr option \<Rightarrow> u8 list \<Rightarrow> u32 \<Rightarrow> u32 \<Rightarrow> (('f, 'd) uk_store \<times> int) option" where
  "amlkey_write_secure env s name buffer len attr =
     (case name of
        None \<Rightarrow> Some (s, 0)
      | Some nm \<Rightarrow> do {
          (k, ret) \<leftarrow> secure_storage_write (u_smc env) (sk s) nm buffer len attr;
          let s = s\<lparr>sk := k\<rparr>;
          if ret \<noteq> 0 then Some (s, 0)
          else if is_valid_unifykey_storage_type (storage_type (unifykey_types s)) = 0 then Some (s, 0)
          else if \<not> si_buffer s then Some (s, 0)
          else case securekey_prebuf s of
                 None \<Rightarrow> Some (s, 0)
               | Some pre \<Rightarrow>
                   if unat (si_size s) > SECUREKEY_SIZE then Some (s, 0)
                   else do {
                     pre \<leftarrow> put_bytes pre 0 (replicate SECUREKEY_SIZE 0);
                     blk \<leftarrow> get_bytes (sm_block (sk s)) 0 (unat (si_size s));
                     pre \<leftarrow> put_bytes pre 0 blk;
                     let s = s\<lparr>securekey_prebuf := Some pre\<rparr>;
                     case ops_write (ut_ops (unifykey_types s)) of
                       None \<Rightarrow> Some (s, 0)
                     | Some wr \<Rightarrow> do {
                         (d, ret) \<leftarrow> wr (sdev s) pre (si_size s);
                         Some (s\<lparr>sdev := d\<rparr>, if ret \<noteq> 0 then 0 else int (unat len))
                       }
                   }
        })"

definition amlkey_hash_secure ::
    "'f uk_env \<Rightarrow> ('f, 'd) uk_store \<Rightarrow> cstr \<Rightarrow> u8 list \<Rightarrow> (('f, 'd) uk_store \<times> u8 list \<times> int) option" where
  "amlkey_hash_secure env s name hash =
     do {
       (k, hash, ret) \<leftarrow> secure_storage_verify (u_smc env) (sk s) name hash;
       Some (s\<lparr>sk := k\<rparr>, hash, sint (ucast ret :: u32))
     }"

section \<open>Normal keys\<close>

definition amlkey_init_normal :: "'f uk_env \<Rightarrow> ('f, 'd) uk_store \<Rightarrow> (('f, 'd) uk_store \<times> int) option" where
  "amlkey_init_normal env s =
     (case normal_block s of
        None \<Rightarrow> Some (s, -1)
      | Some blk \<Rightarrow>
          (case ops_read (ut_ops (unifykey_types s)) of
             None \<Rightarrow> Some (s, -1)
           | Some rd \<Rightarrow>
               (let (k, r) = normalkey_init (nk s); s = s\<lparr>nk := k\<rparr> in
                if r \<noteq> 0 then Some (s, -1)
                else do {
                  (d, blk, fsz, ret) \<leftarrow> rd (sdev s) blk (normal_blksz s);
                  let s = s\<lparr>sdev := d, normal_block := Some blk, normal_flashsize := fsz\<rparr>;
                  if ret \<noteq> 0 then Some (s\<lparr>nk := normalkey_deinit (nk s)\<rparr>, ret)
                  else do {
                    (k, ret) \<leftarrow> normalkey_readfromblock (u_kenv env) (nk s) (Some blk) (unat fsz);
                    let s = s\<lparr>nk := k\<rparr>;
                    if ret \<noteq> 0 then Some (s\<lparr>nk := normalkey_deinit (nk s)\<rparr>, ret) else Some (s, 0)
                  }
                })))"

definition normal_obj :: "('f, 'd) uk_store \<Rightarrow> cstr option \<Rightarrow> storage_object option option" where
  "normal_obj s name = do { i \<leftarrow> normalkey_get (keys (nk s)) name; Some (map_option (\<lambda>i. keys (nk s) ! i) i) }"

definition amlkey_exist_normal :: "('f, 'd) uk_store \<Rightarrow> cstr option \<Rightarrow> u32 option" where
  "amlkey_exist_normal s name = do { obj \<leftarrow> normal_obj s name; Some (if obj \<noteq> None then 1 else 0) }"

definition amlkey_get_attr_normal :: "('f, 'd) uk_store \<Rightarrow> cstr option \<Rightarrow> u32 option" where
  "amlkey_get_attr_normal s name =
     do { obj \<leftarrow> normal_obj s name; Some (case obj of Some ob \<Rightarrow> attribute ob | None \<Rightarrow> 0) }"

definition amlkey_size_normal :: "('f, 'd) uk_store \<Rightarrow> cstr option \<Rightarrow> u32 option" where
  "amlkey_size_normal s name =
     do { obj \<leftarrow> normal_obj s name; Some (case obj of Some ob \<Rightarrow> datasize ob | None \<Rightarrow> 0) }"

definition amlkey_read_normal ::
    "('f, 'd) uk_store \<Rightarrow> cstr option \<Rightarrow> u8 list \<Rightarrow> u32 \<Rightarrow> (u8 list \<times> u32) option" where
  "amlkey_read_normal s name buffer len =
     do {
       obj \<leftarrow> normal_obj s name;
       case obj of
         None \<Rightarrow> Some (buffer, 0)
       | Some ob \<Rightarrow>
           if len \<ge> datasize ob then do {
             bs \<leftarrow> obj_data ob;
             buffer \<leftarrow> put_bytes buffer 0 bs;
             Some (buffer, datasize ob)
           }
           else Some (buffer, 0)
     }"

text \<open>\<open>ret = len\<close> stores a \<open>u32\<close> in an \<open>int\<close>.\<close>

definition amlkey_write_normal ::
    "'f uk_env \<Rightarrow> ('f, 'd) uk_store \<Rightarrow> cstr option \<Rightarrow> u8 list option \<Rightarrow> u32 \<Rightarrow> u32 \<Rightarrow> (('f, 'd) uk_store \<times> int) option" where
  "amlkey_write_normal env s name buffer len attr =
     (if attr AND OBJ_ATTR_SECURE \<noteq> 0 then Some (s, 0)
      else case ops_write (ut_ops (unifykey_types s)) of
             None \<Rightarrow> Some (s, 0)
           | Some wr \<Rightarrow> do {
               (k, ret) \<leftarrow> normalkey_add (u_kenv env) (nk s) name buffer len attr;
               let s = s\<lparr>nk := k\<rparr>;
               if ret \<noteq> 0 then Some (s, 0)
               else do {
                 (k, blk, ret) \<leftarrow> normalkey_writetoblock (u_kenv env) (nk s) (normal_block s)
                                    (unat (normal_flashsize s));
                 let s = s\<lparr>nk := k, normal_block := blk\<rparr>;
                 if ret \<noteq> 0 then Some (s, 0)
                 else do {
                   blk \<leftarrow> normal_block s;
                   (d, ret) \<leftarrow> wr (sdev s) blk (normal_flashsize s);
                   let s = s\<lparr>sdev := d\<rparr>;
                   if ret \<noteq> 0 then Some (s, 0) else Some (s, sint len)
                 }
               }
             })"

definition amlkey_hash_normal ::
    "('f, 'd) uk_store \<Rightarrow> cstr option \<Rightarrow> u8 list \<Rightarrow> (u8 list \<times> int) option" where
  "amlkey_hash_normal s name hash =
     do {
       obj \<leftarrow> normal_obj s name;
       case obj of
         None \<Rightarrow> Some (hash, -1)
       | Some ob \<Rightarrow> do { hash \<leftarrow> put_bytes hash 0 (hashptr ob); Some (hash, 0) }
     }"

definition normal_key_init :: "'f uk_env \<Rightarrow> ('f, 'd) uk_store \<Rightarrow> ('f, 'd) uk_store \<times> int" where
  "normal_key_init env s =
     (let s = (case u_blocksize env of
                 Some b \<Rightarrow> if b \<noteq> 0 \<and> b mod 4096 = 0 then s\<lparr>normal_blksz := b\<rparr> else s
               | None \<Rightarrow> s);
          p = kmalloc (u_kenv env) (ticks (nk s)) (unat (normal_blksz s));
          s = s\<lparr>normal_block := p, nk := (nk s)\<lparr>ticks := Suc (ticks (nk s))\<rparr>\<rparr>
      in (s, if p = None then -1 else 0))"

section \<open>The choice between the two\<close>

definition amlkey_if_init :: "'f uk_env \<Rightarrow> ('f, 'd) uk_store \<Rightarrow> ('f, 'd) uk_store \<times> int" where
  "amlkey_if_init env s =
     (let (k, ret) = security_key_init (u_smc env) (u_mm env) (u_share_ok env) (sk s); s = s\<lparr>sk := k\<rparr> in
      if ret \<noteq> - EOPNOTSUPP then securekey_prebuf_init env (s\<lparr>amlkey_if := Some IFTYPE_SECURE_STORAGE\<rparr>)
      else let (s, ret) = normal_key_init env s in (s\<lparr>amlkey_if := Some IFTYPE_NORMAL_STORAGE\<rparr>, ret))"

text \<open>\<open>kfree\<close> leaves the pointer set: a freed buffer has no bytes to access.\<close>

definition securekey_prebuf_deinit :: "('f, 'd) uk_store \<Rightarrow> ('f, 'd) uk_store" where
  "securekey_prebuf_deinit s = s\<lparr>securekey_prebuf := map_option (\<lambda>_. []) (securekey_prebuf s)\<rparr>"

definition normal_key_deinit :: "('f, 'd) uk_store \<Rightarrow> ('f, 'd) uk_store" where
  "normal_key_deinit s = s\<lparr>normal_block := map_option (\<lambda>_. []) (normal_block s)\<rparr>"

definition amlkey_if_deinit :: "('f, 'd) uk_store \<Rightarrow> ('f, 'd) uk_store" where
  "amlkey_if_deinit s = normal_key_deinit (securekey_prebuf_deinit s)"

text \<open>The calls of \<open>amlkey_if.h\<close>; without an interface the pointer is NULL and there is no result.\<close>

definition amlkey_init :: "'f uk_env \<Rightarrow> ('f, 'd) uk_store \<Rightarrow> (('f, 'd) uk_store \<times> int) option" where
  "amlkey_init env s =
     (case amlkey_if s of
        None \<Rightarrow> None
      | Some IFTYPE_SECURE_STORAGE \<Rightarrow> amlkey_init_secure s
      | Some IFTYPE_NORMAL_STORAGE \<Rightarrow> amlkey_init_normal env s)"

definition amlkey_exsit :: "'f uk_env \<Rightarrow> ('f, 'd) uk_store \<Rightarrow> cstr option \<Rightarrow> (('f, 'd) uk_store \<times> u32) option" where
  "amlkey_exsit env s name =
     (case amlkey_if s of
        None \<Rightarrow> None
      | Some IFTYPE_SECURE_STORAGE \<Rightarrow> amlkey_exsit_secure env s name
      | Some IFTYPE_NORMAL_STORAGE \<Rightarrow> map_option (Pair s) (amlkey_exist_normal s name))"

definition amlkey_size :: "'f uk_env \<Rightarrow> ('f, 'd) uk_store \<Rightarrow> cstr option \<Rightarrow> (('f, 'd) uk_store \<times> u32) option" where
  "amlkey_size env s name =
     (case amlkey_if s of
        None \<Rightarrow> None
      | Some IFTYPE_SECURE_STORAGE \<Rightarrow> amlkey_size_secure env s name
      | Some IFTYPE_NORMAL_STORAGE \<Rightarrow> map_option (Pair s) (amlkey_size_normal s name))"

definition amlkey_get_attr :: "'f uk_env \<Rightarrow> ('f, 'd) uk_store \<Rightarrow> cstr option \<Rightarrow> (('f, 'd) uk_store \<times> u32) option" where
  "amlkey_get_attr env s name =
     (case amlkey_if s of
        None \<Rightarrow> None
      | Some IFTYPE_SECURE_STORAGE \<Rightarrow> amlkey_get_attr_secure env s name
      | Some IFTYPE_NORMAL_STORAGE \<Rightarrow> map_option (Pair s) (amlkey_get_attr_normal s name))"

definition amlkey_read ::
    "'f uk_env \<Rightarrow> ('f, 'd) uk_store \<Rightarrow> cstr option \<Rightarrow> u8 list \<Rightarrow> u32 \<Rightarrow> (('f, 'd) uk_store \<times> u8 list \<times> u32) option" where
  "amlkey_read env s name buffer len =
     (case amlkey_if s of
        None \<Rightarrow> None
      | Some IFTYPE_SECURE_STORAGE \<Rightarrow> amlkey_read_secure env s name buffer len
      | Some IFTYPE_NORMAL_STORAGE \<Rightarrow> map_option (Pair s) (amlkey_read_normal s name buffer len))"

definition amlkey_write ::
    "'f uk_env \<Rightarrow> ('f, 'd) uk_store \<Rightarrow> cstr option \<Rightarrow> u8 list \<Rightarrow> u32 \<Rightarrow> u32 \<Rightarrow> (('f, 'd) uk_store \<times> int) option" where
  "amlkey_write env s name buffer len attr =
     (case amlkey_if s of
        None \<Rightarrow> None
      | Some IFTYPE_SECURE_STORAGE \<Rightarrow> amlkey_write_secure env s name buffer len attr
      | Some IFTYPE_NORMAL_STORAGE \<Rightarrow> amlkey_write_normal env s name (Some buffer) len attr)"

definition amlkey_hash ::
    "'f uk_env \<Rightarrow> ('f, 'd) uk_store \<Rightarrow> cstr \<Rightarrow> u8 list \<Rightarrow> (('f, 'd) uk_store \<times> u8 list \<times> int) option" where
  "amlkey_hash env s name hash =
     (case amlkey_if s of
        None \<Rightarrow> None
      | Some IFTYPE_SECURE_STORAGE \<Rightarrow> amlkey_hash_secure env s name hash
      | Some IFTYPE_NORMAL_STORAGE \<Rightarrow> map_option (Pair s) (amlkey_hash_normal s (Some name) hash))"

section \<open>Normal keys on a storage driver\<close>

text \<open>The queries of a store in good order, in terms of its map.\<close>

lemma normal_obj_spec:
  assumes "nk_inv H (nk s)"
  shows "(nk_map (keys (nk s)) nm = None \<longrightarrow> normal_obj s (Some nm) = Some None) \<and>
    (\<forall>d a. nk_map (keys (nk s)) nm = Some (d, a) \<longrightarrow>
       (\<exists>ob. normal_obj s (Some nm) = Some (Some ob) \<and> nk_obj_ok H ob \<and> obj_content ob = d \<and> attribute ob = a))"
proof -
  let ?ks = "keys (nk s)"
  have wf: "list_all wf_object ?ks" and ok: "list_all (nk_obj_ok H) ?ks"
    using nk_inv_wf [OF assms] assms by (simp_all add: nk_inv_def)
  note F = nk_find_spec [OF wf, of nm]
  show ?thesis
  proof (cases "nm \<in> obj_name ` set ?ks")
    case False
    then show ?thesis
      using F nk_map_None_iff [of ?ks nm] by (simp add: normal_obj_def normalkey_get_def)
  next
    case True
    then obtain i where i: "i < length ?ks" "nk_find ?ks nm = Some (Some i)" "obj_name (?ks ! i) = nm"
      using F by blast
    have d: "distinct (map obj_name ?ks)" using assms by (simp add: nk_inv_def)
    have "nk_map ?ks nm = Some (obj_content (?ks ! i), attribute (?ks ! i))"
      unfolding nk_map_def using d i(1,3)
      by (intro map_of_is_SomeI) (auto simp: comp_def intro!: image_eqI [of _ _ "?ks ! i"])
    then show ?thesis
      using i ok by (auto simp: normal_obj_def normalkey_get_def list_all_length)
  qed
qed

lemma nk_obj_ok_data:
  assumes "nk_obj_ok H ob"
  shows "obj_data ob = Some (obj_content ob)" and "length (obj_content ob) = unat (datasize ob)"
  using assms by (auto simp: nk_obj_ok_def wf_object_def obj_data_def obj_content_def get_bytes_def split: option.splits)

text \<open>Reading a key: its content goes to the front of the buffer, when the buffer is large enough.\<close>

lemma amlkey_read_normal_spec:
  assumes inv: "nk_inv H (nk s)" and m: "nk_map (keys (nk s)) nm = Some (d, a)"
    and b: "length d \<le> unat len" "length d \<le> length buf"
  shows "amlkey_read_normal s (Some nm) buf len = Some (d @ drop (length d) buf, of_nat (length d))"
    and "amlkey_size_normal s (Some nm) = Some (of_nat (length d))"
    and "amlkey_get_attr_normal s (Some nm) = Some a"
    and "amlkey_exist_normal s (Some nm) = Some 1"
proof -
  obtain ob where ob: "normal_obj s (Some nm) = Some (Some ob)" "nk_obj_ok H ob" "obj_content ob = d" "attribute ob = a"
    using normal_obj_spec [OF inv, of nm] m by blast
  note D = nk_obj_ok_data [OF ob(2)]
  have sz: "datasize ob = of_nat (length d)" using D(2) ob(3) by (simp add: of_nat_unat)
  have le: "datasize ob \<le> len" using D(2) ob(3) b(1) by (simp add: word_le_nat_alt)
  show "amlkey_read_normal s (Some nm) buf len = Some (d @ drop (length d) buf, of_nat (length d))"
    using ob D(1) le b(2) sz by (simp add: amlkey_read_normal_def put_bytes_def)
  show "amlkey_size_normal s (Some nm) = Some (of_nat (length d))"
    using ob sz by (simp add: amlkey_size_normal_def)
  show "amlkey_get_attr_normal s (Some nm) = Some a"
    using ob by (simp add: amlkey_get_attr_normal_def)
  show "amlkey_exist_normal s (Some nm) = Some 1"
    using ob by (simp add: amlkey_exist_normal_def)
qed


text \<open>The states of a running key manager on a driver with the operations \<open>rd\<close> and \<open>wr\<close>, the
  invariant \<open>dinv\<close> and a block of \<open>N\<close> bytes.\<close>

definition normal_ready ::
    "('d \<Rightarrow> u8 list \<Rightarrow> u32 \<Rightarrow> ('d \<times> u8 list \<times> u32 \<times> int) option) \<Rightarrow> ('d \<Rightarrow> u8 list \<Rightarrow> u32 \<Rightarrow> ('d \<times> int) option) \<Rightarrow>
     ('d \<Rightarrow> bool) \<Rightarrow> nat \<Rightarrow> ('f, 'd) uk_store \<Rightarrow> bool" where
  "normal_ready rd wr dinv N s \<longleftrightarrow>
     ops_read (ut_ops (unifykey_types s)) = Some rd \<and> ops_write (ut_ops (unifykey_types s)) = Some wr \<and>
     normal_blksz s = of_nat N \<and>
     (\<exists>b. normal_block s = Some b \<and> length b = N) \<and> dinv (sdev s)"

definition normal_running ::
    "('d \<Rightarrow> u8 list \<Rightarrow> u32 \<Rightarrow> ('d \<times> u8 list \<times> u32 \<times> int) option) \<Rightarrow> ('d \<Rightarrow> u8 list \<Rightarrow> u32 \<Rightarrow> ('d \<times> int) option) \<Rightarrow>
     ('d \<Rightarrow> bool) \<Rightarrow> nat \<Rightarrow> (u8 list \<Rightarrow> u8 list) \<Rightarrow> ('f, 'd) uk_store \<Rightarrow> bool" where
  "normal_running rd wr dinv N H s \<longleftrightarrow>
     normal_ready rd wr dinv N s \<and> normal_flashsize s = of_nat N \<and> nk_inv H (nk s)"

text \<open>What the key manager assumes of allocator and hash.\<close>

definition kernel_ok :: "(u8 list \<Rightarrow> u8 list) \<Rightarrow> 'f uk_env \<Rightarrow> bool" where
  "kernel_ok H env \<longleftrightarrow> crypto_ok (u_kenv env) H \<and> kmalloc_succeeds (kmalloc (u_kenv env))"

text \<open>The contract of a storage driver: \<open>image\<close> is the block of \<open>N\<close> bytes it keeps safely, if any; a read
  returns it, and a write replaces it.\<close>

locale key_block_store =
  fixes rd :: "'d \<Rightarrow> u8 list \<Rightarrow> u32 \<Rightarrow> ('d \<times> u8 list \<times> u32 \<times> int) option"
    and wr :: "'d \<Rightarrow> u8 list \<Rightarrow> u32 \<Rightarrow> ('d \<times> int) option"
    and image :: "'d \<Rightarrow> u8 list option"
    and dinv :: "'d \<Rightarrow> bool"
    and N :: nat
  assumes N_low: "1024 < N" and N_high: "N < 2 ^ 31"
    and rd_image: "dinv d \<Longrightarrow> length buf = N \<Longrightarrow> image d = Some b \<Longrightarrow>
       \<exists>d'. rd d buf (of_nat N) = Some (d', b, of_nat N, 0) \<and> dinv d' \<and> image d' = Some b"
    and wr_image: "dinv d \<Longrightarrow> length buf = N \<Longrightarrow>
       \<exists>d'. wr d buf (of_nat N) = Some (d', 0) \<and> dinv d' \<and> image d' = Some buf"
begin

lemma unat_N: "unat (of_nat N :: u32) = N"
  using N_high by (intro unat_of_nat32) simp

text \<open>The save of the keys in memory.\<close>

lemma save_normal:
  assumes run: "normal_running rd wr dinv N H s" and cr: "crypto_ok (u_kenv env) H"
    and b: "normal_block s = Some b" and k0: "nk s = k0" and d0: "sdev s = d0"
  obtains (saved) k blk d where
      "normalkey_writetoblock (u_kenv env) k0 (Some b) N = Some (k, Some blk, 0)"
      "wr d0 blk (of_nat N) = Some (d, 0)" "keys k = keys k0"
      "normal_running rd wr dinv N H (s\<lparr>nk := k, normal_block := Some blk, sdev := d\<rparr>)"
      "image d = Some blk" "nk_image H blk N (keys k) (rawhead k)"
    | (full) k blk where
      "normalkey_writetoblock (u_kenv env) k0 (Some b) N = Some (k, Some blk, -1)"
      "keys k = keys k0" "normal_running rd wr dinv N H (s\<lparr>nk := k, normal_block := Some blk\<rparr>)"
proof -
  have inv: "nk_inv H k0" and lb: "length b = N" and di: "dinv d0"
    using run b k0 d0 by (auto simp: normal_running_def normal_ready_def)
  show thesis
  proof (cases "1024 + length (objs_bytes (keys k0)) \<le> N")
    case True
    then obtain k blk where k: "normalkey_writetoblock (u_kenv env) k0 (Some b) N = Some (k, Some blk, 0)"
      "nk_image H blk N (keys k0) (rawhead k)" "nk_inv H k" "keys k = keys k0"
      using normalkey_writetoblock_image [OF inv cr lb N_low N_high] by blast
    have lk: "length blk = N" using k(2) by (simp add: nk_image_def)
    obtain d where d: "wr d0 blk (of_nat N) = Some (d, 0)" "dinv d" "image d = Some blk"
      using wr_image [OF di lk] by blast
    have "normal_running rd wr dinv N H (s\<lparr>nk := k, normal_block := Some blk, sdev := d\<rparr>)"
      using run k(3) lk d(2) by (simp add: normal_running_def normal_ready_def)
    moreover have "nk_image H blk N (keys k) (rawhead k)" using k(2,4) by simp
    ultimately show thesis using d(3) by (intro saved [OF k(1) d(1) k(4)])
  next
    case False
    then obtain k blk where k: "normalkey_writetoblock (u_kenv env) k0 (Some b) N = Some (k, Some blk, -1)"
      "length blk = N" "keys k = keys k0" "nk_inv H k"
      using normalkey_writetoblock_overflow [OF inv N_high lb, of "u_kenv env"] by (auto simp: not_le)
    have "normal_running rd wr dinv N H (s\<lparr>nk := k, normal_block := Some blk\<rparr>)"
      using run k(2,4) by (simp add: normal_running_def normal_ready_def)
    then show thesis by (rule full [OF k(1,3)])
  qed
qed

text \<open>A write keeps the manager running.  When it reports the length, the map has the new key and
  the driver keeps an image of the keys.\<close>

lemma write_normal_image:
  assumes run: "normal_running rd wr dinv N H s" and ke: "kernel_ok H env"
    and l: "unat len \<le> length buf" "unat len < 2 ^ 30"
  shows "\<exists>s' r. amlkey_write_normal env s (Some nm) (Some buf) len attr = Some (s', r) \<and>
     normal_running rd wr dinv N H s' \<and> amlkey_if s' = amlkey_if s \<and>
     (r \<noteq> 0 \<longrightarrow> r = int (unat len) \<and>
        nk_map (keys (nk s')) = (nk_map (keys (nk s)))(nm \<mapsto> (take (unat len) buf, attr)) \<and>
        (\<exists>b. image (sdev s') = Some b \<and> nk_image H b N (keys (nk s')) (rawhead (nk s'))))"
proof -
  let ?e = "u_kenv env"
  have inv: "nk_inv H (nk s)" and cr: "crypto_ok ?e H" and km: "kmalloc_succeeds (kmalloc ?e)"
    and wp: "ops_write (ut_ops (unifykey_types s)) = Some wr" and fs: "normal_flashsize s = of_nat N"
    using run ke by (auto simp: normal_running_def normal_ready_def kernel_ok_def)
  obtain b where b: "normal_block s = Some b" using run by (auto simp: normal_running_def normal_ready_def)
  have kz: "kmalloc_sized (kmalloc ?e)"
    by (rule kmalloc_succeeds_sized [OF km])
  obtain k1 r1 where 1: "normalkey_add ?e (nk s) (Some nm) (Some buf) len attr = Some (k1, r1)"
    "nk_add_outcome (\<lambda>d. {H d}) (nk s) nm (take (unat len) buf) attr k1 r1"
    using normalkey_add_spec [OF inv cr kz l, of nm attr] by blast
  let ?s1 = "s\<lparr>nk := k1\<rparr>"
  have i1: "nk_inv H k1" using 1(2) inv by (auto simp: nk_add_outcome_def nk_inv_in_one nk_inv_def)
  then have run1: "normal_running rd wr dinv N H ?s1" using run by (simp add: normal_running_def normal_ready_def)
  show ?thesis
  proof (cases "attr AND OBJ_ATTR_SECURE \<noteq> 0 \<or> r1 \<noteq> 0")
    case True
    then show ?thesis using 1(1) run run1 wp by (cases "attr AND OBJ_ATTR_SECURE = 0") (simp_all add: amlkey_write_normal_def)
  next
    case False
    have m1: "nk_map (keys k1) = (nk_map (keys (nk s)))(nm \<mapsto> (take (unat len) buf, attr))"
      using 1(2) False by (simp add: nk_add_outcome_def nk_inv_in_one)
    have ln: "sint len = int (unat len)" using l(2) by (intro sint_small) simp
    have sel: "normal_block ?s1 = Some b" "nk ?s1 = k1" "sdev ?s1 = sdev s" using b by simp_all
    note ev = amlkey_write_normal_def wp 1(1) b fs unat_N ln Let_def
    show ?thesis
    proof (rule save_normal [OF run1 cr sel], goal_cases)
      case saved: (1 k blk d)
      have "amlkey_write_normal env s (Some nm) (Some buf) len attr =
          Some (?s1\<lparr>nk := k, normal_block := Some blk, sdev := d\<rparr>, int (unat len))"
        using False saved(1,2) by (simp add: ev)
      with saved(3-6) m1 show ?thesis by simp
    next
      case full: (2 k blk)
      have "amlkey_write_normal env s (Some nm) (Some buf) len attr =
          Some (?s1\<lparr>nk := k, normal_block := Some blk\<rparr>, 0)"
        using False full(1) by (simp add: ev)
      with full(3) show ?thesis by simp
    qed
  qed
qed

text \<open>Start-up on a driver that keeps an image: the manager runs, with the map of the image.\<close>

lemma init_normal_image:
  assumes rdy: "normal_ready rd wr dinv N s" and ke: "kernel_ok H env"
    and img: "image (sdev s) = Some bs" and im: "nk_image H bs N ks h" and ks: "list_all (nk_obj_ok H) ks" "distinct (map obj_name ks)"
    and fresh: "blockinited (nk s) = 0" "keys (nk s) = []"
  shows "\<exists>s'. amlkey_init_normal env s = Some (s', 0) \<and> normal_running rd wr dinv N H s' \<and>
     amlkey_if s' = amlkey_if s \<and> nk_map (keys (nk s')) = nk_map ks"
proof -
  obtain b where b: "normal_block s = Some b" "length b = N" and di: "dinv (sdev s)"
    and rp: "ops_read (ut_ops (unifykey_types s)) = Some rd" and bz: "normal_blksz s = of_nat N"
    using rdy by (auto simp: normal_ready_def)
  have cr: "crypto_ok (u_kenv env) H" and km: "kmalloc_succeeds (kmalloc (u_kenv env))"
    using ke by (auto simp: kernel_ok_def)
  obtain d where d: "rd (sdev s) b (of_nat N) = Some (d, bs, of_nat N, 0)" "dinv d"
    using rd_image [OF di b(2) img] by blast
  obtain k0 where k0: "normalkey_init (nk s) = (k0, 0)" "blockinited k0 = 1" "keys k0 = []"
    using fresh by (auto simp: normalkey_init_def)
  obtain k where k: "normalkey_readfromblock (u_kenv env) k0 (Some bs) N = Some (k, 0)"
    "nk_inv H k" "keys k = rev (map obj_norm ks)"
    using normalkey_readfromblock_image [OF im cr km ks k0(2,3)] by blast
  have li: "length bs = N" using im by (simp add: nk_image_def)
  let ?s' = "s\<lparr>nk := k, sdev := d, normal_block := Some bs, normal_flashsize := of_nat N\<rparr>"
  have "amlkey_init_normal env s = Some (?s', 0)"
    using b(1) rp k0(1) bz d(1) k(1) unat_N by (simp add: amlkey_init_normal_def)
  moreover have "normal_running rd wr dinv N H ?s'"
    using rdy d(2) k(2) li by (simp add: normal_running_def normal_ready_def)
  moreover have "nk_map (keys k) = nk_map ks" using nk_map_reloaded [OF ks] k(3) by simp
  ultimately show ?thesis by auto
qed

end

text \<open>The space an object takes in the block.\<close>

definition obj_space :: "cstr \<Rightarrow> nat \<Rightarrow> nat" where
  "obj_space nm n = (if nm = [] then 0 else 20 + (length nm + 3) div 4 * 4) + 92 + (n + 3) div 4 * 4"

definition store_space :: "(cstr \<Rightarrow> (u8 list \<times> u32) option) \<Rightarrow> nat" where
  "store_space m = (\<Sum>nm\<in>dom m. obj_space nm (length (fst (the (m nm)))))"

lemma obj_bytes_length:
  assumes "nk_obj_ok H ob"
  shows "length (obj_bytes ob) = obj_space (obj_name ob) (length (obj_content ob))"
  using assms
  by (auto simp: nk_obj_ok_def wf_object_def length_obj_bytes obj_entries_def obj_name_def obj_content_def length_pad4
      unat_eq_0 min_def obj_space_def split: option.splits)

lemma dom_nk_map: "dom (nk_map ks) = obj_name ` set ks"
  by (auto simp: nk_map_def dom_map_of_conv_image_fst image_comp comp_def)

lemma objs_bytes_space:
  assumes "list_all (nk_obj_ok H) ks" and "distinct (map obj_name ks)"
  shows "length (objs_bytes ks) = store_space (nk_map ks)"
  using assms
proof (induction ks)
  case Nil
  then show ?case by (simp add: store_space_def nk_map_def)
next
  case (Cons ob ks)
  let ?f = "\<lambda>m nm. obj_space nm (length (fst (the (m nm))))"
  have new: "obj_name ob \<notin> dom (nk_map ks)" using Cons.prems(2) by (simp add: dom_nk_map)
  have fin: "finite (dom (nk_map ks))" by (simp add: dom_nk_map)
  have m: "nk_map (ob # ks) = (nk_map ks)(obj_name ob \<mapsto> (obj_content ob, attribute ob))"
    by (simp add: nk_map_def)
  have "sum (?f (nk_map (ob # ks))) (dom (nk_map ks)) = sum (?f (nk_map ks)) (dom (nk_map ks))"
    using new by (intro sum.cong) (auto simp: m)
  then have "store_space (nk_map (ob # ks)) = obj_space (obj_name ob) (length (obj_content ob)) + store_space (nk_map ks)"
    using new fin by (simp add: store_space_def m)
  with Cons show ?case by (auto simp: obj_bytes_length [of H] simp del: nk_map_Cons)
qed

lemma nk_inv_space: "nk_inv H s \<Longrightarrow> length (objs_bytes (keys s)) = store_space (nk_map (keys s))"
  using objs_bytes_space by (auto simp: nk_inv_def)

text \<open>A write that is accepted by the store is saved exactly when the keys fit the block.\<close>

definition key_acceptable ::
    "(cstr \<Rightarrow> (u8 list \<times> u32) option) \<Rightarrow> cstr \<Rightarrow> u8 list \<Rightarrow> u32 \<Rightarrow> u32 \<Rightarrow> bool" where
  "key_acceptable m nm buf len attr \<longleftrightarrow>
     unat len \<le> length buf \<and> unat len < 2 ^ 30 \<and> len \<noteq> 0 \<and> attr AND OBJ_ATTR_SECURE = 0 \<and> length nm \<le> 80 \<and>
     (case m nm of None \<Rightarrow> True | Some (d, a) \<Rightarrow> a = attr)"

context key_block_store
begin

lemma write_normal_iff_fits:
  assumes run: "normal_running rd wr dinv N H s" and ke: "kernel_ok H env"
    and acc: "key_acceptable (nk_map (keys (nk s))) nm buf len attr"
    and m: "m = (nk_map (keys (nk s)))(nm \<mapsto> (take (unat len) buf, attr))"
  shows "\<exists>s'. amlkey_write_normal env s (Some nm) (Some buf) len attr =
       Some (s', if 1024 + store_space m \<le> N then int (unat len) else 0) \<and>
     normal_running rd wr dinv N H s' \<and> nk_map (keys (nk s')) = m \<and>
     (if 1024 + store_space m \<le> N
      then \<exists>b. image (sdev s') = Some b \<and> nk_image H b N (keys (nk s')) (rawhead (nk s'))
      else sdev s' = sdev s)"
proof -
  let ?e = "u_kenv env"
  have inv: "nk_inv H (nk s)" and cr: "crypto_ok ?e H" and km: "kmalloc_succeeds (kmalloc ?e)"
    and wp: "ops_write (ut_ops (unifykey_types s)) = Some wr" and fs: "normal_flashsize s = of_nat N"
    using run ke by (auto simp: normal_running_def normal_ready_def kernel_ok_def)
  have l: "unat len \<le> length buf" "unat len < 2 ^ 30" and c: "len \<noteq> 0" "attr AND OBJ_ATTR_SECURE = 0" "length nm \<le> 80"
    and same: "\<And>d a. nk_map (keys (nk s)) nm = Some (d, a) \<Longrightarrow> a = attr"
    using acc by (auto simp: key_acceptable_def split: option.splits prod.splits)
  obtain b where b: "normal_block s = Some b" "length b = N"
    using run by (auto simp: normal_running_def normal_ready_def)
  obtain k1 where a1: "normalkey_add ?e (nk s) (Some nm) (Some buf) len attr = Some (k1, 0)"
    using normalkey_add_succeeds [OF inv cr km l c] same by blast
  then have o1: "nk_inv H k1" "nk_map (keys k1) = m"
    using normalkey_add_spec [OF inv cr kmalloc_succeeds_sized [OF km] l, of nm attr] m
    by (auto simp: nk_add_outcome_def nk_inv_in_one)
  note sp = nk_inv_space [OF o1(1), unfolded o1(2)]
  have run1: "normal_running rd wr dinv N H (s\<lparr>nk := k1\<rparr>)"
    using run o1(1) by (simp add: normal_running_def normal_ready_def)
  have sel: "normal_block (s\<lparr>nk := k1\<rparr>) = Some b" "nk (s\<lparr>nk := k1\<rparr>) = k1" "sdev (s\<lparr>nk := k1\<rparr>) = sdev s"
    using b by simp_all
  have ln: "sint len = int (unat len)" using l(2) by (intro sint_small) simp
  note ev = amlkey_write_normal_def wp a1 b fs unat_N ln Let_def
  show ?thesis
  proof (rule save_normal [OF run1 cr sel], goal_cases)
    case saved: (1 k blk d)
    have fit: "1024 + store_space m \<le> N"
      using normalkey_writetoblock_fits(2) [OF o1(1) b(2) N_high saved(1)] sp by simp
    have "amlkey_write_normal env s (Some nm) (Some buf) len attr =
        Some (s\<lparr>nk := k, normal_block := Some blk, sdev := d\<rparr>, int (unat len))"
      using c saved(1,2) by (simp add: ev)
    with saved(3-6) o1(2) fit show ?thesis by simp
  next
    case full: (2 k blk)
    have over: "\<not> 1024 + store_space m \<le> N"
      using normalkey_writetoblock_image [OF o1(1) cr b(2) N_low N_high] full(1) sp by force
    have "amlkey_write_normal env s (Some nm) (Some buf) len attr = Some (s\<lparr>nk := k, normal_block := Some blk\<rparr>, 0)"
      using c full(1) by (simp add: ev)
    with full(2,3) o1(2) over show ?thesis by simp
  qed
qed

text \<open>Whatever its outcome, a write keeps the manager running and leaves the other keys alone.\<close>

lemma write_normal_others:
  assumes run: "normal_running rd wr dinv N H s" and ke: "kernel_ok H env"
    and l: "unat len \<le> length buf" "unat len < 2 ^ 30" and w: "amlkey_write_normal env s (Some nm) (Some buf) len attr = Some (s', r)"
    and other: "nm' \<noteq> nm"
  shows "nk_map (keys (nk s')) nm' = nk_map (keys (nk s)) nm'"
proof -
  let ?e = "u_kenv env"
  have inv: "nk_inv H (nk s)" and cr: "crypto_ok ?e H" and km: "kmalloc_succeeds (kmalloc ?e)"
    and wp: "ops_write (ut_ops (unifykey_types s)) = Some wr" and fs: "normal_flashsize s = of_nat N"
    using run ke by (auto simp: normal_running_def normal_ready_def kernel_ok_def)
  obtain b where b: "normal_block s = Some b" using run by (auto simp: normal_running_def normal_ready_def)
  obtain k1 r1 where 1: "normalkey_add ?e (nk s) (Some nm) (Some buf) len attr = Some (k1, r1)"
    "nk_add_outcome (\<lambda>d. {H d}) (nk s) nm (take (unat len) buf) attr k1 r1"
    using normalkey_add_spec [OF inv cr kmalloc_succeeds_sized [OF km] l, of nm attr] by blast
  have m1: "nk_map (keys k1) nm' = nk_map (keys (nk s)) nm'" and i1: "nk_inv H k1"
    using 1(2) inv other by (auto simp: nk_add_outcome_def nk_inv_in_one nk_inv_def)
  have run1: "normal_running rd wr dinv N H (s\<lparr>nk := k1\<rparr>)"
    using run i1 by (simp add: normal_running_def normal_ready_def)
  have sel: "normal_block (s\<lparr>nk := k1\<rparr>) = Some b" "nk (s\<lparr>nk := k1\<rparr>) = k1" "sdev (s\<lparr>nk := k1\<rparr>) = sdev s" using b by simp_all
  show ?thesis
  proof (cases "attr AND OBJ_ATTR_SECURE \<noteq> 0 \<or> r1 \<noteq> 0")
    case True
    then show ?thesis using w 1(1) wp m1 by (auto simp: amlkey_write_normal_def Let_def split: if_splits)
  next
    case False
    note ev = amlkey_write_normal_def wp 1(1) b fs unat_N Let_def
    show ?thesis
      by (rule save_normal [OF run1 cr sel]) (use w False m1 in \<open>auto simp: ev\<close>)
  qed
qed

end
end
