(* ===== verification/Emmc_Block.thy ===== *)
theory Emmc_Block
  imports Aml_Prelude
begin

unbundle bit_operations_syntax

text \<open>
  The transfer layer of \<open>soc/amlogic/mmc/emmc_partitions.c\<close>: \<open>mmc_check_result\<close>,
  \<open>mmc_prepare_mrq\<close>, \<open>mmc_capacity\<close>, \<open>mmc_transfer\<close> and the two calls built on it,
  \<open>mmc_read_internal\<close> and \<open>mmc_write_internal\<close>.

  The MMC core of the kernel is a parameter, \<open>mmc_host\<close>: \<open>mmc_wait_for_req\<close> carries out a
  request on a device state and \<open>mmc_switch\<close> writes the \<open>PART_CONFIG\<close> register.  What the
  code relies on is the contract \<open>emmc_dev\<close>.  The constants of
  \<open>linux/mmc/emmc_partitions.h\<close>, a header outside the repository, are the fields of \<open>emmc_cfg\<close>.
\<close>

section \<open>Requests\<close>

datatype mmc_opcode = MMC_READ_SINGLE_BLOCK | MMC_READ_MULTIPLE_BLOCK | MMC_WRITE_BLOCK
  | MMC_WRITE_MULTIPLE_BLOCK | MMC_STOP_TRANSMISSION

datatype mmc_flag = MMC_RSP_R1 | MMC_RSP_R1B | MMC_CMD_ADTC | MMC_CMD_AC

datatype mmc_data_flag = MMC_DATA_READ | MMC_DATA_WRITE

record mmc_command =
  opcode :: mmc_opcode
  arg :: u32
  cflags :: "mmc_flag list"

record mmc_data =
  blksz :: u32
  blocks :: u32
  dflags :: mmc_data_flag

record mmc_request =
  cmd :: mmc_command
  stop :: "mmc_command option"
  data :: mmc_data

record mmc_result =
  cmd_error :: int
  data_error :: int
  stop_error :: int
  bytes_xfered :: u32

record mmc_card =
  part_config :: u8
  read_blkbits :: nat
  sectors :: u32
  csd_capacity :: u32
  card_sd :: bool
  is_blockaddr :: bool
  key_stamp :: u32

record 'd mmc_host =
  mmc_wait_for_req :: "'d \<Rightarrow> mmc_request \<Rightarrow> u8 list \<Rightarrow> 'd \<times> u8 list \<times> mmc_result"
  mmc_switch :: "'d \<Rightarrow> u8 \<Rightarrow> 'd \<times> int"

text \<open>The card as the driver sees it: its description, the device behind it, and how many times
  the host is claimed.\<close>

record 'd mmc =
  card :: mmc_card
  dev :: 'd
  claims :: int

text \<open>The partition table as the code uses it, and the constants of the header.  The layout of the
  table in memory is known to the header only: \<open>pt_parse\<close> reads a table of \<open>sizeof_pt_fmt\<close>
  bytes, and \<open>part_words\<close> gives an entry as the array of \<open>u32\<close> it is.\<close>

record partitions =
  p_name :: cstr
  p_size :: u64
  p_offset :: u64
  p_mask_flags :: u32

record mmc_partitions_fmt =
  magic :: "u8 list"
  part_num :: int
  pt_checksum :: int
  pt_partitions :: "partitions list"

record emmc_cfg =
  RESULT_FAIL :: int
  RESULT_UNSUP_HOST :: int
  MMC_RESERVED_NAME :: cstr
  MMC_PARTITIONS_MAGIC :: cstr
  MAX_MMC_PART_NUM :: nat
  MAX_MMC_PART_NAME_LEN :: nat
  MMC_BOOT_PARTITION_SIZE :: int
  MMC_BOOT_PARTITION_RESERVED :: int
  CONFIG_DTB_SIZE :: nat
  DTB_CELL_SIZE :: nat
  STORE_CODE :: u32
  STORE_CACHE :: u32
  STORE_DATA :: u32
  sizeof_pt_fmt :: nat
  pt_parse :: "u8 list \<Rightarrow> mmc_partitions_fmt"
  part_words :: "partitions \<Rightarrow> u32 list"

abbreviation (input) EXT_CSD_PART_CONFIG_ACC_MASK :: u8 where "EXT_CSD_PART_CONFIG_ACC_MASK \<equiv> 7"

definition mmc_check_result :: "emmc_cfg \<Rightarrow> mmc_request \<Rightarrow> mmc_result \<Rightarrow> int" where
  "mmc_check_result cfg mrq res =
     (let ret = 0;
          ret = (if ret = 0 \<and> cmd_error res \<noteq> 0 then cmd_error res else ret);
          ret = (if ret = 0 \<and> data_error res \<noteq> 0 then data_error res else ret);
          ret = (if ret = 0 \<and> stop mrq \<noteq> None \<and> stop_error res \<noteq> 0 then stop_error res else ret);
          ret = (if ret = 0 \<and> bytes_xfered res \<noteq> blocks (data mrq) * blksz (data mrq)
                 then RESULT_FAIL cfg else ret)
      in if ret = - EINVAL then RESULT_UNSUP_HOST cfg else ret)"

definition mmc_prepare_mrq :: "mmc_card \<Rightarrow> u32 \<Rightarrow> u32 \<Rightarrow> u32 \<Rightarrow> bool \<Rightarrow> mmc_request" where
  "mmc_prepare_mrq c dev_addr blks bsz wr =
     \<lparr>cmd = \<lparr>opcode = (if 1 < blks then (if wr then MMC_WRITE_MULTIPLE_BLOCK else MMC_READ_MULTIPLE_BLOCK)
                      else (if wr then MMC_WRITE_BLOCK else MMC_READ_SINGLE_BLOCK)),
             arg = (if \<not> is_blockaddr c then push_bit 9 dev_addr else dev_addr),
             cflags = [MMC_RSP_R1, MMC_CMD_ADTC]\<rparr>,
      stop = (if blks = 1 then None
              else Some \<lparr>opcode = MMC_STOP_TRANSMISSION, arg = 0, cflags = [MMC_RSP_R1B, MMC_CMD_AC]\<rparr>),
      data = \<lparr>blksz = bsz, blocks = blks, dflags = (if wr then MMC_DATA_WRITE else MMC_DATA_READ)\<rparr>\<rparr>"

text \<open>The shift amount \<open>read_blkbits - 9\<close> must not be negative.\<close>

definition mmc_capacity :: "mmc_card \<Rightarrow> u32 option" where
  "mmc_capacity c =
     (if \<not> card_sd c \<and> is_blockaddr c then Some (sectors c)
      else if read_blkbits c < 9 then None
      else Some (push_bit (read_blkbits c - 9) (csd_capacity c)))"

text \<open>The part of \<open>mmc_transfer\<close> between the two switches: the transfer between the device and the
  \<open>blks << read_blkbits\<close> bytes of \<open>buf\<close> from \<open>off\<close> on, and its checked result.\<close>

definition mmc_do_req ::
    "emmc_cfg \<Rightarrow> 'd mmc_host \<Rightarrow> 'd mmc \<Rightarrow> u32 \<Rightarrow> u32 \<Rightarrow> u8 list \<Rightarrow> nat \<Rightarrow> bool \<Rightarrow> ('d mmc \<times> u8 list \<times> int) option" where
  "mmc_do_req cfg h m dev_addr blks buf off wr =
     do {
       let sz = push_bit (read_blkbits (card m)) blks;
       sg \<leftarrow> get_bytes buf off (unat sz);
       let mrq = mmc_prepare_mrq (card m) dev_addr blks (push_bit (read_blkbits (card m)) 1) wr;
       let (d, sg', res) = mmc_wait_for_req h (dev m) mrq sg;
       buf \<leftarrow> (if wr then Some buf else put_bytes buf off sg');
       Some (m\<lparr>dev := d\<rparr>, buf, mmc_check_result cfg mrq res)
     }"

definition mmc_transfer ::
    "emmc_cfg \<Rightarrow> 'd mmc_host \<Rightarrow> 'd mmc \<Rightarrow> u32 \<Rightarrow> u32 \<Rightarrow> u8 list \<Rightarrow> nat \<Rightarrow> bool \<Rightarrow> ('d mmc \<times> u8 list \<times> int) option" where
  "mmc_transfer cfg h m dev_addr blks buf off wr =
     (let original_part_config = part_config (card m);
          switch_partition = (original_part_config AND EXT_CSD_PART_CONFIG_ACC_MASK \<noteq> 0);
          cur_part_number = original_part_config AND NOT EXT_CSD_PART_CONFIG_ACC_MASK;
          (d, ret) = (if switch_partition then mmc_switch h (dev m) cur_part_number else (dev m, 0));
          m = m\<lparr>dev := d\<rparr>
      in if ret \<noteq> 0 then Some (m, buf, ret)
         else do {
           let m = (if switch_partition then m\<lparr>card := (card m)\<lparr>part_config := cur_part_number\<rparr>\<rparr> else m);
           cap \<leftarrow> mmc_capacity (card m);
           if cap \<le> dev_addr + blks then Some (m, buf, -1)
           else do {
             (m, buf, ret) \<leftarrow> mmc_do_req cfg h m dev_addr blks buf off wr;
             if switch_partition then
               (let (d, ret) = mmc_switch h (dev m) original_part_config; m = m\<lparr>dev := d\<rparr>
                in if ret \<noteq> 0 then Some (m, buf, ret)
                   else Some (m\<lparr>card := (card m)\<lparr>part_config := original_part_config\<rparr>\<rparr>, buf, ret))
             else Some (m, buf, ret)
           }
         })"

definition mmc_read_internal ::
    "emmc_cfg \<Rightarrow> 'd mmc_host \<Rightarrow> 'd mmc \<Rightarrow> u32 \<Rightarrow> u32 \<Rightarrow> u8 list \<Rightarrow> nat \<Rightarrow> ('d mmc \<times> u8 list \<times> int) option" where
  "mmc_read_internal cfg h m dev_addr blks buf off = mmc_transfer cfg h m dev_addr blks buf off False"

definition mmc_write_internal ::
    "emmc_cfg \<Rightarrow> 'd mmc_host \<Rightarrow> 'd mmc \<Rightarrow> u32 \<Rightarrow> u32 \<Rightarrow> u8 list \<Rightarrow> nat \<Rightarrow> ('d mmc \<times> u8 list \<times> int) option" where
  "mmc_write_internal cfg h m dev_addr blks buf off = mmc_transfer cfg h m dev_addr blks buf off True"

definition mmc_claim_host :: "'d mmc \<Rightarrow> 'd mmc" where
  "mmc_claim_host m = m\<lparr>claims := claims m + 1\<rparr>"

definition mmc_release_host :: "'d mmc \<Rightarrow> 'd mmc" where
  "mmc_release_host m = m\<lparr>claims := claims m - 1\<rparr>"

section \<open>The contract of the device\<close>

text \<open>The bytes of a disk from an address on, and a disk with some of its bytes replaced.\<close>

type_synonym disk = "nat \<Rightarrow> u8"

definition disk_bytes :: "disk \<Rightarrow> nat \<Rightarrow> nat \<Rightarrow> u8 list" where
  "disk_bytes dk a n = map dk [a ..< a + n]"

definition disk_put :: "disk \<Rightarrow> nat \<Rightarrow> u8 list \<Rightarrow> disk" where
  "disk_put dk a bs = (\<lambda>i. if a \<le> i \<and> i < a + length bs then bs ! (i - a) else dk i)"

text \<open>Two disks that agree outside a range of addresses.\<close>

definition disk_same_outside :: "disk \<Rightarrow> disk \<Rightarrow> nat \<Rightarrow> nat \<Rightarrow> bool" where
  "disk_same_outside dk dk' a n \<longleftrightarrow> (\<forall>i. i < a \<or> a + n \<le> i \<longrightarrow> dk' i = dk i)"

lemma length_disk_bytes [simp]: "length (disk_bytes dk a n) = n"
  by (simp add: disk_bytes_def)

lemma disk_bytes_0 [simp]: "disk_bytes dk a 0 = []"
  by (simp add: disk_bytes_def)

lemma disk_bytes_add: "disk_bytes dk a (n + k) = disk_bytes dk a n @ disk_bytes dk (a + n) k"
  unfolding disk_bytes_def using upt_add_eq_append [of a "a + n" k] by (simp add: add.assoc)

lemma disk_bytes_cong: "(\<And>i. a \<le> i \<Longrightarrow> i < a + n \<Longrightarrow> dk i = dk' i) \<Longrightarrow> disk_bytes dk a n = disk_bytes dk' a n"
  by (simp add: disk_bytes_def)

lemma disk_bytes_put [simp]: "disk_bytes (disk_put dk a bs) a (length bs) = bs"
  by (rule nth_equalityI) (simp_all add: disk_bytes_def disk_put_def)

lemma disk_put_outside: "disk_same_outside dk (disk_put dk a bs) a (length bs)"
  by (auto simp: disk_same_outside_def disk_put_def)

lemma disk_same_outside_refl [simp]: "disk_same_outside dk dk a n"
  by (simp add: disk_same_outside_def)

lemma disk_same_outside_bytes:
  "disk_same_outside dk dk' a n \<Longrightarrow> b + k \<le> a \<or> a + n \<le> b \<Longrightarrow> disk_bytes dk' b k = disk_bytes dk b k"
  by (rule disk_bytes_cong) (auto simp: disk_same_outside_def)

lemma disk_same_outside_join:
  "disk_same_outside dk dk1 a n \<Longrightarrow> disk_same_outside dk1 dk2 (a + n) k \<Longrightarrow>
     disk_same_outside dk dk2 a (n + k)"
  by (auto simp: disk_same_outside_def)

lemma disk_same_outside_mono:
  "disk_same_outside dk dk' b k \<Longrightarrow> a \<le> b \<Longrightarrow> b + k \<le> a + n \<Longrightarrow> disk_same_outside dk dk' a n"
  by (auto simp: disk_same_outside_def)

text \<open>A request that reports no error and the number of bytes it was asked for.\<close>

definition res_ok :: "mmc_request \<Rightarrow> mmc_result \<Rightarrow> bool" where
  "res_ok mrq res \<longleftrightarrow> cmd_error res = 0 \<and> data_error res = 0 \<and> (stop mrq \<noteq> None \<longrightarrow> stop_error res = 0) \<and>
     bytes_xfered res = blocks (data mrq) * blksz (data mrq)"

text \<open>The byte address of a request: block addressed cards count in units of 512 bytes.\<close>

definition req_pos :: "bool \<Rightarrow> mmc_request \<Rightarrow> nat" where
  "req_pos ba mrq = (if ba then 512 * unat (arg (cmd mrq)) else unat (arg (cmd mrq)))"

text \<open>The contract: \<open>part\<close> reads the \<open>PART_CONFIG\<close> register and \<open>user\<close> the contents of the user
  area.  While the register selects the user area, a read that reports success returns its bytes
  and a write that reports success stores the bytes given; a failed read may return anything and
  a failed write may leave anything in its range, but nothing else changes.  A switch that reports
  success sets the register, one that fails does not, and neither touches the area.\<close>

definition emmc_dev :: "bool \<Rightarrow> 'd mmc_host \<Rightarrow> ('d \<Rightarrow> u8) \<Rightarrow> ('d \<Rightarrow> disk) \<Rightarrow> bool" where
  "emmc_dev ba h part user \<longleftrightarrow>
     (\<forall>d mrq sg d' sg' res. mmc_wait_for_req h d mrq sg = (d', sg', res) \<longrightarrow>
        part d AND EXT_CSD_PART_CONFIG_ACC_MASK = 0 \<longrightarrow>
        length sg' = length sg \<and> part d' = part d \<and>
        (case dflags (data mrq) of
           MMC_DATA_READ \<Rightarrow> user d' = user d \<and>
             (res_ok mrq res \<longrightarrow> sg' = disk_bytes (user d) (req_pos ba mrq) (length sg))
         | MMC_DATA_WRITE \<Rightarrow> disk_same_outside (user d) (user d') (req_pos ba mrq) (length sg) \<and>
             (res_ok mrq res \<longrightarrow> disk_bytes (user d') (req_pos ba mrq) (length sg) = sg))) \<and>
     (\<forall>d v d' ret. mmc_switch h d v = (d', ret) \<longrightarrow>
        user d' = user d \<and> part d' = (if ret = 0 then v else part d))"

text \<open>The result codes of the header differ from 0, the code of success.\<close>

definition cfg_ok :: "emmc_cfg \<Rightarrow> bool" where
  "cfg_ok cfg \<longleftrightarrow> RESULT_FAIL cfg \<noteq> 0 \<and> RESULT_UNSUP_HOST cfg \<noteq> 0"

lemma mmc_check_result_0: "cfg_ok cfg \<Longrightarrow> mmc_check_result cfg mrq res = 0 \<longleftrightarrow> res_ok mrq res"
  by (auto simp: mmc_check_result_def Let_def cfg_ok_def res_ok_def)

section \<open>The interface of a block device\<close>

text \<open>What the key area and device tree code rely on: transfers of 512 byte blocks between a buffer
  and the disk, where a failed read may spoil its part of the buffer and a failed write its
  range of the disk.\<close>

definition blocks_in_range :: "u32 \<Rightarrow> u32 \<Rightarrow> bool" where
  "blocks_in_range blk n \<longleftrightarrow> unat blk + unat n < 2 ^ 32 \<and> unat n < 2 ^ 23"

locale block_io =
  fixes rd :: "'s \<Rightarrow> u32 \<Rightarrow> u32 \<Rightarrow> u8 list \<Rightarrow> nat \<Rightarrow> ('s \<times> u8 list \<times> int) option"
    and wr :: "'s \<Rightarrow> u32 \<Rightarrow> u32 \<Rightarrow> u8 list \<Rightarrow> nat \<Rightarrow> ('s \<times> u8 list \<times> int) option"
    and area :: "'s \<Rightarrow> disk"
    and inv :: "'s \<Rightarrow> bool"
  assumes rd_ok: "inv s \<Longrightarrow> blocks_in_range blk n \<Longrightarrow> off + 512 * unat n \<le> length buf \<Longrightarrow>
     \<exists>s' bs r. rd s blk n buf off =
         Some (s', take off buf @ bs @ drop (off + 512 * unat n) buf, r) \<and>
       inv s' \<and> area s' = area s \<and> length bs = 512 * unat n \<and>
       (r = 0 \<longrightarrow> bs = disk_bytes (area s) (512 * unat blk) (512 * unat n))"
    and wr_ok: "inv s \<Longrightarrow> blocks_in_range blk n \<Longrightarrow> off + 512 * unat n \<le> length buf \<Longrightarrow>
     \<exists>s' r. wr s blk n buf off = Some (s', buf, r) \<and> inv s' \<and>
       disk_same_outside (area s) (area s') (512 * unat blk) (512 * unat n) \<and>
       (r = 0 \<longrightarrow> disk_bytes (area s') (512 * unat blk) (512 * unat n) = take (512 * unat n) (drop off buf))"

section \<open>The transfer layer provides it\<close>

text \<open>The states the transfers keep: the user area is selected, the driver's copy of the register
  is right, blocks have 512 bytes, and a byte addressed card has at most 4 GiB.\<close>

definition mmc_inv :: "emmc_cfg \<Rightarrow> 'd mmc_host \<Rightarrow> ('d \<Rightarrow> u8) \<Rightarrow> ('d \<Rightarrow> disk) \<Rightarrow> 'd mmc \<Rightarrow> bool" where
  "mmc_inv cfg h part user m \<longleftrightarrow>
     cfg_ok cfg \<and> emmc_dev (is_blockaddr (card m)) h part user \<and>
     part_config (card m) AND EXT_CSD_PART_CONFIG_ACC_MASK = 0 \<and> part (dev m) = part_config (card m) \<and>
     read_blkbits (card m) = 9 \<and> (is_blockaddr (card m) \<or> unat (csd_capacity (card m)) \<le> 2 ^ 23)"

lemma emmc_dev_waitD:
  assumes "emmc_dev ba h part user" and "mmc_wait_for_req h d mrq sg = (d', sg', res)"
    and "part d AND EXT_CSD_PART_CONFIG_ACC_MASK = 0"
  shows "length sg' = length sg" and "part d' = part d"
    and "dflags (data mrq) = MMC_DATA_READ \<Longrightarrow> user d' = user d"
    and "dflags (data mrq) = MMC_DATA_READ \<Longrightarrow> res_ok mrq res \<Longrightarrow>
      sg' = disk_bytes (user d) (req_pos ba mrq) (length sg)"
    and "dflags (data mrq) = MMC_DATA_WRITE \<Longrightarrow>
      disk_same_outside (user d) (user d') (req_pos ba mrq) (length sg)"
    and "dflags (data mrq) = MMC_DATA_WRITE \<Longrightarrow> res_ok mrq res \<Longrightarrow>
      disk_bytes (user d') (req_pos ba mrq) (length sg) = sg"
proof -
  have "length sg' = length sg \<and> part d' = part d \<and>
        (case dflags (data mrq) of
           MMC_DATA_READ \<Rightarrow> user d' = user d \<and>
             (res_ok mrq res \<longrightarrow> sg' = disk_bytes (user d) (req_pos ba mrq) (length sg))
         | MMC_DATA_WRITE \<Rightarrow> disk_same_outside (user d) (user d') (req_pos ba mrq) (length sg) \<and>
             (res_ok mrq res \<longrightarrow> disk_bytes (user d') (req_pos ba mrq) (length sg) = sg))"
    using assms unfolding emmc_dev_def by blast
  then show "length sg' = length sg" and "part d' = part d"
    and "dflags (data mrq) = MMC_DATA_READ \<Longrightarrow> user d' = user d"
    and "dflags (data mrq) = MMC_DATA_READ \<Longrightarrow> res_ok mrq res \<Longrightarrow>
      sg' = disk_bytes (user d) (req_pos ba mrq) (length sg)"
    and "dflags (data mrq) = MMC_DATA_WRITE \<Longrightarrow>
      disk_same_outside (user d) (user d') (req_pos ba mrq) (length sg)"
    and "dflags (data mrq) = MMC_DATA_WRITE \<Longrightarrow> res_ok mrq res \<Longrightarrow>
      disk_bytes (user d') (req_pos ba mrq) (length sg) = sg"
    by auto
qed

lemma unat_shift9: "unat (n :: u32) < 2 ^ 23 \<Longrightarrow> unat (push_bit 9 n) = 512 * unat n"
  by (simp add: push_bit_eq_mult unat_mult_lem [THEN iffD1] mult.commute)

lemma mmc_capacity_512: "read_blkbits c = 9 \<Longrightarrow> \<exists>cap. mmc_capacity c = Some cap \<and> (\<not> is_blockaddr c \<longrightarrow> cap = csd_capacity c)"
  by (auto simp: mmc_capacity_def)

text \<open>Within the user area a transfer is one checked request.\<close>

lemma mmc_transfer_user:
  assumes "mmc_inv cfg h part user m"
  shows "mmc_transfer cfg h m blk n buf off w =
     do { cap \<leftarrow> mmc_capacity (card m);
          if cap \<le> blk + n then Some (m, buf, -1) else mmc_do_req cfg h m blk n buf off w }"
  using assms by (auto simp: mmc_transfer_def mmc_inv_def Let_def split: Option.bind_split)

lemma unat_add_range: "blocks_in_range blk n \<Longrightarrow> unat (blk + n) = unat blk + unat n"
  by (simp add: blocks_in_range_def unat_add_lem [THEN iffD1])

lemma req_pos_prepare:
  assumes "mmc_inv cfg h part user m" and "mmc_capacity (card m) = Some cap" and "\<not> cap \<le> blk + n"
    and "blocks_in_range blk n"
  shows "req_pos (is_blockaddr (card m)) (mmc_prepare_mrq (card m) blk n bsz w) = 512 * unat blk"
proof (cases "is_blockaddr (card m)")
  case True
  then show ?thesis by (simp add: req_pos_def mmc_prepare_mrq_def)
next
  case False
  then have "cap = csd_capacity (card m)" "unat cap \<le> 2 ^ 23"
    using assms(1,2) mmc_capacity_512 [of "card m"] by (auto simp: mmc_inv_def)
  then have "unat blk < 2 ^ 23"
    using assms(3) unat_add_range [OF assms(4)] by (simp add: word_le_nat_alt)
  with False show ?thesis
    using unat_shift9 [of blk] by (simp add: req_pos_def mmc_prepare_mrq_def)
qed

text \<open>A state that also has a given card description and claim count, which transfers keep.\<close>

definition mmc_io_inv ::
    "emmc_cfg \<Rightarrow> 'd mmc_host \<Rightarrow> ('d \<Rightarrow> u8) \<Rightarrow> ('d \<Rightarrow> disk) \<Rightarrow> mmc_card \<Rightarrow> int \<Rightarrow> 'd mmc \<Rightarrow> bool" where
  "mmc_io_inv cfg h part user c k m \<longleftrightarrow> mmc_inv cfg h part user m \<and> card m = c \<and> claims m = k"

lemma mmc_io_inv_dev:
  "mmc_io_inv cfg h part user c k m \<Longrightarrow> part d = part (dev m) \<Longrightarrow> mmc_io_inv cfg h part user c k (m\<lparr>dev := d\<rparr>)"
  by (auto simp: mmc_io_inv_def mmc_inv_def)

lemma mmc_read_ok:
  assumes "mmc_io_inv cfg h part user c k m" and r: "blocks_in_range blk n"
    and b: "off + 512 * unat n \<le> length buf"
  shows "\<exists>m' bs ret. mmc_read_internal cfg h m blk n buf off =
       Some (m', take off buf @ bs @ drop (off + 512 * unat n) buf, ret) \<and>
     mmc_io_inv cfg h part user c k m' \<and> user (dev m') = user (dev m) \<and> length bs = 512 * unat n \<and>
     (ret = 0 \<longrightarrow> bs = disk_bytes (user (dev m)) (512 * unat blk) (512 * unat n))"
proof -
  have inv: "mmc_inv cfg h part user m" using assms(1) by (simp add: mmc_io_inv_def)
  then obtain cap where cap: "mmc_capacity (card m) = Some cap"
    using mmc_capacity_512 by (auto simp: mmc_inv_def)
  have sg: "get_bytes buf off (512 * unat n) = Some (take (512 * unat n) (drop off buf))"
    using b by (simp add: get_bytes_def)
  have u: "unat (push_bit 9 n) = 512 * unat n" using r by (intro unat_shift9) (simp add: blocks_in_range_def)
  have b9: "read_blkbits (card m) = 9" using inv by (simp add: mmc_inv_def)
  show ?thesis
  proof (cases "cap \<le> blk + n")
    case True
    have "buf = take off buf @ take (512 * unat n) (drop off buf) @ drop (off + 512 * unat n) buf"
      using b append_take_drop_id [of "512 * unat n" "drop off buf"] by (simp add: add.commute)
    with True cap show ?thesis
      using assms(1) b unfolding mmc_read_internal_def mmc_transfer_user [OF inv]
      by (intro exI [of _ m] exI [of _ "take (512 * unat n) (drop off buf)"] exI [of _ "-1"]) simp
  next
    case False
    let ?q = "mmc_prepare_mrq (card m) blk n 512 False" and ?sg = "take (512 * unat n) (drop off buf)"
    obtain d' sg' res where w: "mmc_wait_for_req h (dev m) ?q ?sg = (d', sg', res)"
      using prod_cases3 by blast
    have dv: "emmc_dev (is_blockaddr (card m)) h part user" "part (dev m) AND EXT_CSD_PART_CONFIG_ACC_MASK = 0"
      using inv by (simp_all add: mmc_inv_def)
    note D = emmc_dev_waitD [OF dv(1) w dv(2)]
    have f: "dflags (data ?q) = MMC_DATA_READ" by (simp add: mmc_prepare_mrq_def)
    have c: "cfg_ok cfg" using inv by (simp add: mmc_inv_def)
    show ?thesis
      using False cap b sg u b9 w D(1,2) D(3,4) [OF f] mmc_io_inv_dev [OF assms(1) D(2)]
        mmc_check_result_0 [OF c, of ?q res] req_pos_prepare [OF inv cap False r, of 512 False]
      unfolding mmc_read_internal_def mmc_transfer_user [OF inv]
      by (auto simp: mmc_do_req_def Let_def put_bytes_def push_bit_eq_mult)
  qed
qed

lemma mmc_write_ok:
  assumes "mmc_io_inv cfg h part user c k m" and r: "blocks_in_range blk n"
    and b: "off + 512 * unat n \<le> length buf"
  shows "\<exists>m' ret. mmc_write_internal cfg h m blk n buf off = Some (m', buf, ret) \<and>
     mmc_io_inv cfg h part user c k m' \<and>
     disk_same_outside (user (dev m)) (user (dev m')) (512 * unat blk) (512 * unat n) \<and>
     (ret = 0 \<longrightarrow>
        disk_bytes (user (dev m')) (512 * unat blk) (512 * unat n) = take (512 * unat n) (drop off buf))"
proof -
  have inv: "mmc_inv cfg h part user m" using assms(1) by (simp add: mmc_io_inv_def)
  then obtain cap where cap: "mmc_capacity (card m) = Some cap"
    using mmc_capacity_512 by (auto simp: mmc_inv_def)
  have sg: "get_bytes buf off (512 * unat n) = Some (take (512 * unat n) (drop off buf))"
    using b by (simp add: get_bytes_def)
  have u: "unat (push_bit 9 n) = 512 * unat n" using r by (intro unat_shift9) (simp add: blocks_in_range_def)
  have b9: "read_blkbits (card m) = 9" using inv by (simp add: mmc_inv_def)
  show ?thesis
  proof (cases "cap \<le> blk + n")
    case True
    with cap show ?thesis
      using assms(1) unfolding mmc_write_internal_def mmc_transfer_user [OF inv]
      by (intro exI [of _ m] exI [of _ "-1"]) simp
  next
    case False
    let ?q = "mmc_prepare_mrq (card m) blk n 512 True" and ?sg = "take (512 * unat n) (drop off buf)"
    obtain d' sg' res where w: "mmc_wait_for_req h (dev m) ?q ?sg = (d', sg', res)"
      using prod_cases3 by blast
    have dv: "emmc_dev (is_blockaddr (card m)) h part user" "part (dev m) AND EXT_CSD_PART_CONFIG_ACC_MASK = 0"
      using inv by (simp_all add: mmc_inv_def)
    note D = emmc_dev_waitD [OF dv(1) w dv(2)]
    have f: "dflags (data ?q) = MMC_DATA_WRITE" by (simp add: mmc_prepare_mrq_def)
    have c: "cfg_ok cfg" using inv by (simp add: mmc_inv_def)
    have l: "length ?sg = 512 * unat n" using b by simp
    show ?thesis
      using False cap sg u b9 w D(5,6) [OF f] mmc_io_inv_dev [OF assms(1) D(2)]
        mmc_check_result_0 [OF c, of ?q res] req_pos_prepare [OF inv cap False r, of 512 True]
      unfolding mmc_write_internal_def mmc_transfer_user [OF inv] l
      by (auto simp: mmc_do_req_def Let_def push_bit_eq_mult)
  qed
qed

interpretation emmc: block_io "mmc_read_internal cfg h" "mmc_write_internal cfg h" "\<lambda>m. user (dev m)"
  "mmc_io_inv cfg h part user c k" for cfg h part user c k
  by unfold_locales (simp_all add: mmc_read_ok mmc_write_ok)

section \<open>Transfers in chunks\<close>

text \<open>The loop by which \<open>emmc_read_valid_key\<close>, \<open>emmc_write_one_key\<close>, \<open>_amlmmc_read\<close>,
  \<open>_dtb_read\<close> and \<open>_dtb_write\<close> transfer an area: 256 blocks at a time, the buffer position being
  0 in the first round and 128 KiB in every other one, until exactly \<open>cnt\<close> blocks are done.
  A count that is not a positive multiple of 256 gives a loop that only an error ends.\<close>

partial_function (option) chunk_loop ::
    "('s \<Rightarrow> u32 \<Rightarrow> u32 \<Rightarrow> u8 list \<Rightarrow> nat \<Rightarrow> ('s \<times> u8 list \<times> int) option) \<Rightarrow>
     's \<Rightarrow> u32 \<Rightarrow> int \<Rightarrow> u8 list \<Rightarrow> nat \<Rightarrow> ('s \<times> u8 list \<times> int) option" where
  "chunk_loop xfer s blk cnt buf off =
     do {
       (s, buf, ret) \<leftarrow> xfer s blk 256 buf off;
       if ret \<noteq> 0 then Some (s, buf, ret)
       else if cnt - 256 = 0 then Some (s, buf, ret)
       else chunk_loop xfer s (blk + 256) (cnt - 256) buf 131072
     }"

declare chunk_loop.simps [code]

abbreviation (input) AREA_SIZE :: nat where "AREA_SIZE \<equiv> 262144"

lemma area_halves: "disk_bytes dk a AREA_SIZE = disk_bytes dk a 131072 @ disk_bytes dk (a + 131072) 131072"
  using disk_bytes_add [of dk a 131072 131072] by simp

definition area_in_range :: "u32 \<Rightarrow> bool" where
  "area_in_range blk \<longleftrightarrow> unat blk + 512 < 2 ^ 32"

lemma area_in_range_halves:
  assumes "area_in_range blk"
  shows "blocks_in_range blk 256" and "blocks_in_range (blk + 256) 256" and "unat (blk + 256) = unat blk + 256"
proof -
  show u: "unat (blk + 256) = unat blk + 256"
    using assms by (simp add: area_in_range_def unat_add_lem [THEN iffD1])
  show "blocks_in_range blk 256" and "blocks_in_range (blk + 256) 256"
    using assms u by (simp_all add: area_in_range_def blocks_in_range_def)
qed

context block_io
begin

lemma chunk_read_area:
  assumes "inv s" and r: "area_in_range blk" and b: "AREA_SIZE \<le> length buf"
  shows "\<exists>s' bs r. chunk_loop rd s blk 512 buf 0 = Some (s', bs @ drop AREA_SIZE buf, r) \<and>
     inv s' \<and> area s' = area s \<and> length bs = AREA_SIZE \<and>
     (r = 0 \<longrightarrow> bs = disk_bytes (area s) (512 * unat blk) AREA_SIZE)"
proof -
  note R = area_in_range_halves [OF r]
  obtain s1 b1 r1 where 1: "rd s blk 256 buf 0 = Some (s1, b1 @ drop 131072 buf, r1)" "inv s1"
    "area s1 = area s" "length b1 = 131072" "r1 = 0 \<Longrightarrow> b1 = disk_bytes (area s) (512 * unat blk) 131072"
    using rd_ok [OF assms(1) R(1), of 0 buf] b by auto
  let ?buf = "b1 @ drop 131072 buf"
  obtain s2 b2 r2 where 2: "rd s1 (blk + 256) 256 ?buf 131072 = Some (s2, b1 @ b2 @ drop AREA_SIZE buf, r2)"
    "inv s2" "area s2 = area s" "length b2 = 131072"
    "r2 = 0 \<Longrightarrow> b2 = disk_bytes (area s) (512 * unat blk + 131072) 131072"
    using rd_ok [OF 1(2) R(2), of 131072 ?buf] b 1(3,4) R(3) by auto
  show ?thesis
  proof (cases "r1 = 0")
    case True
    then have "chunk_loop rd s blk 512 buf 0 = Some (s2, (b1 @ b2) @ drop AREA_SIZE buf, r2)"
      using 1 2 by (simp add: chunk_loop.simps)
    with True 1 2 show ?thesis
      by (intro exI [of _ s2] exI [of _ "b1 @ b2"] exI [of _ r2]) (simp add: area_halves)
  next
    case False
    have "?buf = (b1 @ take 131072 (drop 131072 buf)) @ drop AREA_SIZE buf"
      using append_take_drop_id [of 131072 "drop 131072 buf"] by simp
    with False 1 b show ?thesis
      by (intro exI [of _ s1] exI [of _ "b1 @ take 131072 (drop 131072 buf)"] exI [of _ r1])
        (simp add: chunk_loop.simps)
  qed
qed

lemma chunk_write_area:
  assumes "inv s" and r: "area_in_range blk" and b: "AREA_SIZE \<le> length buf"
  shows "\<exists>s' r. chunk_loop wr s blk 512 buf 0 = Some (s', buf, r) \<and> inv s' \<and>
     disk_same_outside (area s) (area s') (512 * unat blk) AREA_SIZE \<and>
     (r = 0 \<longrightarrow> disk_bytes (area s') (512 * unat blk) AREA_SIZE = take AREA_SIZE buf)"
proof -
  note R = area_in_range_halves [OF r]
  obtain s1 r1 where 1: "wr s blk 256 buf 0 = Some (s1, buf, r1)" "inv s1"
    "disk_same_outside (area s) (area s1) (512 * unat blk) 131072"
    "r1 = 0 \<Longrightarrow> disk_bytes (area s1) (512 * unat blk) 131072 = take 131072 buf"
    using wr_ok [OF assms(1) R(1), of 0 buf] b by auto
  obtain s2 r2 where 2: "wr s1 (blk + 256) 256 buf 131072 = Some (s2, buf, r2)" "inv s2"
    "disk_same_outside (area s1) (area s2) (512 * unat blk + 131072) 131072"
    "r2 = 0 \<Longrightarrow> disk_bytes (area s2) (512 * unat blk + 131072) 131072 = take 131072 (drop 131072 buf)"
    using wr_ok [OF 1(2) R(2), of 131072 buf] b R(3) by auto
  show ?thesis
  proof (cases "r1 = 0")
    case True
    have "disk_bytes (area s2) (512 * unat blk) 131072 = take 131072 buf"
      using True 1(4) disk_same_outside_bytes [OF 2(3), of "512 * unat blk" 131072] by simp
    then have "r2 = 0 \<Longrightarrow> disk_bytes (area s2) (512 * unat blk) AREA_SIZE = take AREA_SIZE buf"
      using 2(4) take_add [of 131072 131072 buf] by (simp add: area_halves)
    moreover have "disk_same_outside (area s) (area s2) (512 * unat blk) AREA_SIZE"
      using disk_same_outside_join [OF 1(3) 2(3)] by simp
    ultimately show ?thesis
      using True 1 2 by (simp add: chunk_loop.simps)
  next
    case False
    then show ?thesis
      using 1 disk_same_outside_mono [OF 1(3), of "512 * unat blk" AREA_SIZE] by (simp add: chunk_loop.simps)
  qed
qed

end

section \<open>Devices that do not fail\<close>

text \<open>The interface with the promise that a transfer within the capacity succeeds.\<close>

locale block_io_live = block_io +
  fixes cap :: nat
  assumes rd_live: "inv s \<Longrightarrow> blocks_in_range blk n \<Longrightarrow> off + 512 * unat n \<le> length buf \<Longrightarrow>
      unat blk + unat n < cap \<Longrightarrow> rd s blk n buf off = Some (s', buf', r) \<Longrightarrow> r = 0"
    and wr_live: "inv s \<Longrightarrow> blocks_in_range blk n \<Longrightarrow> off + 512 * unat n \<le> length buf \<Longrightarrow>
      unat blk + unat n < cap \<Longrightarrow> wr s blk n buf off = Some (s', buf', r) \<Longrightarrow> r = 0"
begin

lemma rd_done:
  assumes "inv s" "blocks_in_range blk n" "off + 512 * unat n \<le> length buf" "unat blk + unat n < cap"
  shows "\<exists>s'. rd s blk n buf off =
       Some (s', take off buf @ disk_bytes (area s) (512 * unat blk) (512 * unat n) @ drop (off + 512 * unat n) buf, 0) \<and>
     inv s' \<and> area s' = area s"
proof -
  obtain s' bs r where "rd s blk n buf off = Some (s', take off buf @ bs @ drop (off + 512 * unat n) buf, r)"
    "inv s'" "area s' = area s" "r = 0 \<Longrightarrow> bs = disk_bytes (area s) (512 * unat blk) (512 * unat n)"
    using rd_ok [OF assms(1-3)] by blast
  with rd_live [OF assms] show ?thesis by auto
qed

lemma wr_done:
  assumes "inv s" "blocks_in_range blk n" "off + 512 * unat n \<le> length buf" "unat blk + unat n < cap"
  shows "\<exists>s'. wr s blk n buf off = Some (s', buf, 0) \<and> inv s' \<and>
     disk_same_outside (area s) (area s') (512 * unat blk) (512 * unat n) \<and>
     disk_bytes (area s') (512 * unat blk) (512 * unat n) = take (512 * unat n) (drop off buf)"
proof -
  obtain s' r where "wr s blk n buf off = Some (s', buf, r)" "inv s'"
    "disk_same_outside (area s) (area s') (512 * unat blk) (512 * unat n)"
    "r = 0 \<Longrightarrow> disk_bytes (area s') (512 * unat blk) (512 * unat n) = take (512 * unat n) (drop off buf)"
    using wr_ok [OF assms(1-3)] by blast
  with wr_live [OF assms] show ?thesis by auto
qed

lemma chunk_ret_0:
  assumes "inv s" "area_in_range blk" "AREA_SIZE \<le> length buf" "unat blk + 512 < cap"
    and x: "xfer = rd \<or> xfer = wr" and c: "chunk_loop xfer s blk 512 buf 0 = Some (s', buf', r)"
  shows "r = 0"
proof -
  note R = area_in_range_halves [OF assms(2)]
  have l: "\<exists>s1 b1. xfer t b 256 bf off = Some (s1, b1, 0) \<and> inv s1 \<and> length b1 = length bf"
    if "inv t" "blocks_in_range b 256" "off + 131072 \<le> length bf" "unat b + 256 < cap" for t b bf off
    using x rd_done [OF that(1,2), of off bf] wr_done [OF that(1,2), of off bf] that(3,4) by auto
  obtain s1 b1 where 1: "xfer s blk 256 buf 0 = Some (s1, b1, 0)" "inv s1" "length b1 = length buf"
    using l [OF assms(1) R(1), of 0 buf] assms(3,4) by auto
  obtain s2 b2 where 2: "xfer s1 (blk + 256) 256 b1 131072 = Some (s2, b2, 0)"
    using l [OF 1(2) R(2), of 131072 b1] assms(3,4) R(3) 1(3) by auto
  show ?thesis using c 1 2 by (simp add: chunk_loop.simps)
qed

lemma chunk_read_done:
  assumes "inv s" "area_in_range blk" "AREA_SIZE \<le> length buf" "unat blk + 512 < cap"
  shows "\<exists>s'. chunk_loop rd s blk 512 buf 0 =
       Some (s', disk_bytes (area s) (512 * unat blk) AREA_SIZE @ drop AREA_SIZE buf, 0) \<and>
     inv s' \<and> area s' = area s"
proof -
  obtain s' bs r where c: "chunk_loop rd s blk 512 buf 0 = Some (s', bs @ drop AREA_SIZE buf, r)"
    "inv s'" "area s' = area s" "r = 0 \<Longrightarrow> bs = disk_bytes (area s) (512 * unat blk) AREA_SIZE"
    using chunk_read_area [OF assms(1-3)] by blast
  with chunk_ret_0 [OF assms _ c(1)] show ?thesis by simp
qed

lemma chunk_write_done:
  assumes "inv s" "area_in_range blk" "AREA_SIZE \<le> length buf" "unat blk + 512 < cap"
  shows "\<exists>s'. chunk_loop wr s blk 512 buf 0 = Some (s', buf, 0) \<and> inv s' \<and>
     disk_same_outside (area s) (area s') (512 * unat blk) AREA_SIZE \<and>
     disk_bytes (area s') (512 * unat blk) AREA_SIZE = take AREA_SIZE buf"
proof -
  obtain s' r where c: "chunk_loop wr s blk 512 buf 0 = Some (s', buf, r)" "inv s'"
    "disk_same_outside (area s) (area s') (512 * unat blk) AREA_SIZE"
    "r = 0 \<Longrightarrow> disk_bytes (area s') (512 * unat blk) AREA_SIZE = take AREA_SIZE buf"
    using chunk_write_area [OF assms(1-3)] by blast
  with chunk_ret_0 [OF assms _ c(1)] show ?thesis by simp
qed

end

definition emmc_never_fails :: "'d mmc_host \<Rightarrow> ('d \<Rightarrow> u8) \<Rightarrow> bool" where
  "emmc_never_fails h part \<longleftrightarrow>
     (\<forall>d mrq sg. part d AND EXT_CSD_PART_CONFIG_ACC_MASK = 0 \<longrightarrow>
        res_ok mrq (snd (snd (mmc_wait_for_req h d mrq sg))))"

definition mmc_live_inv ::
    "emmc_cfg \<Rightarrow> 'd mmc_host \<Rightarrow> ('d \<Rightarrow> u8) \<Rightarrow> ('d \<Rightarrow> disk) \<Rightarrow> mmc_card \<Rightarrow> int \<Rightarrow> nat \<Rightarrow> 'd mmc \<Rightarrow> bool" where
  "mmc_live_inv cfg h part user c k cap m \<longleftrightarrow>
     mmc_io_inv cfg h part user c k m \<and> emmc_never_fails h part \<and>
     (\<exists>cw. mmc_capacity c = Some cw \<and> cap \<le> unat cw)"

lemma mmc_live_transfer:
  assumes "mmc_live_inv cfg h part user c k cap m" and r: "blocks_in_range blk n"
    and "unat blk + unat n < cap" and t: "mmc_transfer cfg h m blk n buf off w = Some (m', buf', ret)"
  shows "ret = 0"
proof -
  have inv: "mmc_inv cfg h part user m" and c: "card m = c"
    using assms(1) by (simp_all add: mmc_live_inv_def mmc_io_inv_def)
  obtain cw where cap: "mmc_capacity c = Some cw" "cap \<le> unat cw"
    using assms(1) by (auto simp: mmc_live_inv_def)
  have "\<not> cw \<le> blk + n" using cap(2) assms(3) unat_add_range [OF r] by (simp add: word_le_nat_alt)
  then have "mmc_do_req cfg h m blk n buf off w = Some (m', buf', ret)"
    using t cap(1) c mmc_transfer_user [OF inv, of blk n buf off w] by simp
  moreover have "part (dev m) AND EXT_CSD_PART_CONFIG_ACC_MASK = 0" "cfg_ok cfg"
    using inv by (auto simp: mmc_inv_def)
  moreover have "res_ok mrq (snd (snd (mmc_wait_for_req h (dev m) mrq sg)))" for mrq sg
    using assms(1) \<open>part (dev m) AND EXT_CSD_PART_CONFIG_ACC_MASK = 0\<close>
    by (simp add: mmc_live_inv_def emmc_never_fails_def)
  ultimately show ?thesis
    by (auto simp: mmc_do_req_def Let_def Option.bind_eq_Some_conv mmc_check_result_0 case_prod_beta)
qed

interpretation emmc_live: block_io_live "mmc_read_internal cfg h" "mmc_write_internal cfg h" "\<lambda>m. user (dev m)"
  "mmc_live_inv cfg h part user c k cap" cap for cfg h part user c k cap
proof unfold_locales
  fix s blk n off and buf :: "u8 list"
  assume i: "mmc_live_inv cfg h part user c k cap s" and r: "blocks_in_range blk n"
    and b: "off + 512 * unat n \<le> length buf"
  have io: "mmc_io_inv cfg h part user c k s" using i by (simp add: mmc_live_inv_def)
  show "\<exists>s' bs r. mmc_read_internal cfg h s blk n buf off =
         Some (s', take off buf @ bs @ drop (off + 512 * unat n) buf, r) \<and>
       mmc_live_inv cfg h part user c k cap s' \<and> user (dev s') = user (dev s) \<and> length bs = 512 * unat n \<and>
       (r = 0 \<longrightarrow> bs = disk_bytes (user (dev s)) (512 * unat blk) (512 * unat n))"
    using mmc_read_ok [OF io r b] i by (auto simp: mmc_live_inv_def)
  show "\<exists>s' r. mmc_write_internal cfg h s blk n buf off = Some (s', buf, r) \<and>
       mmc_live_inv cfg h part user c k cap s' \<and>
       disk_same_outside (user (dev s)) (user (dev s')) (512 * unat blk) (512 * unat n) \<and>
       (r = 0 \<longrightarrow> disk_bytes (user (dev s')) (512 * unat blk) (512 * unat n) = take (512 * unat n) (drop off buf))"
    using mmc_write_ok [OF io r b] i by (auto simp: mmc_live_inv_def)
qed (auto simp: mmc_read_internal_def mmc_write_internal_def intro: mmc_live_transfer)

end
