(* ===== verification/Emmc_Partitions.thy ===== *)
theory Emmc_Partitions
  imports Emmc_Block Normal_Key_Tlv
begin

unbundle bit_operations_syntax

text \<open>
  The partition table and the device tree area of \<open>soc/amlogic/mmc/emmc_partitions.c\<close>: the
  check of the table read from the card, the lookup of the reserved partition, the table shown
  in sysfs, and the two copies of the device tree with their checksum and time stamp.
\<close>

section \<open>Sums of words\<close>

text \<open>The loop \<open>checksum += buffer[i++]\<close> over the \<open>u32\<close> words of a buffer, for a sum of any width.\<close>

fun checksum_loop :: "u8 list \<Rightarrow> nat \<Rightarrow> nat \<Rightarrow> 'a :: len word \<Rightarrow> 'a word option" where
  "checksum_loop buf i 0 acc = Some acc"
| "checksum_loop buf i (Suc n) acc = do { w \<leftarrow> rd32 buf (4 * i); checksum_loop buf (Suc i) n (acc + ucast w) }"

definition word_sum :: "u8 list \<Rightarrow> nat \<Rightarrow> nat \<Rightarrow> 'a :: len word" where
  "word_sum buf i n = sum_list (map (\<lambda>j. ucast (of_le32 (take 4 (drop (4 * j) buf)))) [i ..< i + n])"

lemma rd32_eq: "off + 4 \<le> length buf \<Longrightarrow> rd32 buf off = Some (of_le32 (take 4 (drop off buf)))"
  by (simp add: fetch_def get_bytes_def)

lemma checksum_loop_sum:
  "4 * (i + n) \<le> length buf \<Longrightarrow> checksum_loop buf i n acc = Some (acc + word_sum buf i n)"
proof (induction n arbitrary: i acc)
  case 0
  then show ?case by (simp add: word_sum_def)
next
  case (Suc n)
  have "[i ..< i + Suc n] = i # [Suc i ..< Suc i + n]" by (simp add: upt_conv_Cons del: upt_Suc)
  with Suc show ?case
    by (simp add: rd32_eq word_sum_def add.assoc del: upt_Suc)
qed

lemma word_sum_prefix:
  assumes "take (4 * (i + n)) buf = take (4 * (i + n)) buf'"
  shows "word_sum buf i n = word_sum buf' i n"
proof -
  have "take 4 (drop (4 * j) buf) = take 4 (drop (4 * j) buf')" if "j < i + n" for j
  proof -
    have "take 4 (drop (4 * j) (take (4 * (i + n)) b)) = take 4 (drop (4 * j) b)" for b :: "u8 list"
      using that by (simp add: drop_take min_def)
    with assms show ?thesis by metis
  qed
  then show ?thesis
    unfolding word_sum_def by (intro arg_cong [where f = sum_list] map_cong) auto
qed

section \<open>The partition table\<close>

text \<open>The entry is read \<open>part_num\<close> times: \<open>part\<close> is never advanced.\<close>

fun part_checksum_loop :: "u32 list \<Rightarrow> nat \<Rightarrow> u32 \<Rightarrow> u32" where
  "part_checksum_loop ws 0 checksum = checksum"
| "part_checksum_loop ws (Suc i) checksum = part_checksum_loop ws i (foldl (+) checksum ws)"

definition mmc_partition_tbl_checksum_calc :: "emmc_cfg \<Rightarrow> partitions list \<Rightarrow> int \<Rightarrow> int" where
  "mmc_partition_tbl_checksum_calc cfg part n =
     sint (part_checksum_loop (part_words cfg (part ! 0)) (nat n) 0)"

definition get_reserve_partition_off :: "emmc_cfg \<Rightarrow> int" where
  "get_reserve_partition_off cfg = MMC_BOOT_PARTITION_SIZE cfg + MMC_BOOT_PARTITION_RESERVED cfg"

text \<open>The byte offset of the reserved partition as an \<open>int\<close>, or -1.  An entry beyond the array of
  the table is out of range.\<close>

fun find_reserved :: "cstr \<Rightarrow> partitions list \<Rightarrow> nat \<Rightarrow> int option" where
  "find_reserved rname ps 0 = Some (-1)"
| "find_reserved rname [] (Suc n) = None"
| "find_reserved rname (p # ps) (Suc n) =
     (if p_name p = rname then Some (sint (ucast (p_offset p) :: u32)) else find_reserved rname ps n)"

definition get_reserve_partition_off_from_tbl :: "emmc_cfg \<Rightarrow> mmc_partitions_fmt \<Rightarrow> int option" where
  "get_reserve_partition_off_from_tbl cfg pt =
     find_reserved (MMC_RESERVED_NAME cfg) (pt_partitions pt) (nat (part_num pt))"

text \<open>\<open>strncmp(a, b, n) == 0\<close> on arrays that may hold a terminating zero.\<close>

fun strncmp_eq :: "u8 list \<Rightarrow> u8 list \<Rightarrow> nat \<Rightarrow> bool" where
  "strncmp_eq a b 0 \<longleftrightarrow> True"
| "strncmp_eq a b (Suc n) \<longleftrightarrow>
     (case (a, b) of
        ([], []) \<Rightarrow> True
      | ([], y # b) \<Rightarrow> y = 0
      | (x # a, []) \<Rightarrow> x = 0
      | (x # a, y # b) \<Rightarrow> x = y \<and> (x = 0 \<or> strncmp_eq a b n))"

definition pt_valid :: "emmc_cfg \<Rightarrow> mmc_partitions_fmt \<Rightarrow> bool" where
  "pt_valid cfg pt \<longleftrightarrow>
     strncmp_eq (magic pt) (MMC_PARTITIONS_MAGIC cfg) (length (magic pt)) \<and>
     0 < part_num pt \<and> part_num pt \<le> int (MAX_MMC_PART_NUM cfg) \<and>
     pt_checksum pt = mmc_partition_tbl_checksum_calc cfg (pt_partitions pt) (part_num pt)"

text \<open>The whole blocks of the table are read in place (lines 690--698), the rest through a block
  buffer (lines 700--706).\<close>

definition pt_read_blocks ::
    "emmc_cfg \<Rightarrow> 'd mmc_host \<Rightarrow> 'd mmc \<Rightarrow> int \<Rightarrow> u8 list \<Rightarrow> ('d mmc \<times> u8 list \<times> int) option" where
  "pt_read_blocks cfg h m start_blk tbl =
     (let blk_size = 2 ^ read_blkbits (card m) in
      if length tbl \<ge> blk_size
      then mmc_read_internal cfg h m (of_int start_blk) (of_nat (length tbl div blk_size)) tbl 0
      else Some (m, tbl, 0))"

definition pt_read_last ::
    "emmc_cfg \<Rightarrow> 'd mmc_host \<Rightarrow> 'd mmc \<Rightarrow> int \<Rightarrow> u8 list \<Rightarrow> ('d mmc \<times> u8 list \<times> int) option" where
  "pt_read_last cfg h m start_blk tbl =
     (let blk_size = 2 ^ read_blkbits (card m); dst = length tbl div blk_size * blk_size in
      if length tbl - dst > 0 then do {
        (m, buf, ret) \<leftarrow> mmc_read_internal cfg h m (of_int start_blk) 1 (replicate blk_size 0) 0;
        if ret \<noteq> 0 then Some (m, tbl, ret)
        else do {
          tbl \<leftarrow> put_bytes tbl dst (take (length tbl - dst) buf);
          Some (m, tbl, 0)
        }
      } else Some (m, tbl, 0))"

text \<open>The table of \<open>sizeof_pt_fmt\<close> bytes, zeroed, filled from the card, and checked.  The argument
  \<open>n\<close> is the number of allocator calls made before.\<close>

definition mmc_read_partition_tbl ::
    "emmc_cfg \<Rightarrow> kmalloc_t \<Rightarrow> 'd mmc_host \<Rightarrow> 'd mmc \<Rightarrow> nat \<Rightarrow> ('d mmc \<times> mmc_partitions_fmt option \<times> int) option" where
  "mmc_read_partition_tbl cfg km h m n =
     (let blk_size = 2 ^ read_blkbits (card m) in
      case km n blk_size of
        None \<Rightarrow> Some (m, None, - ENOMEM)
      | Some _ \<Rightarrow>
          (let tbl = replicate (sizeof_pt_fmt cfg) 0; start_blk = get_reserve_partition_off cfg in
           if start_blk < 0 then Some (m, Some (pt_parse cfg tbl), - EINVAL)
           else do {
             let start_blk = drop_bit (read_blkbits (card m)) start_blk;
             (m, tbl, ret) \<leftarrow> pt_read_blocks cfg h m start_blk tbl;
             if ret \<noteq> 0 then Some (m, Some (pt_parse cfg tbl), ret)
             else do {
               (m, tbl, ret) \<leftarrow> pt_read_last cfg h m (start_blk + int (length tbl div blk_size)) tbl;
               let pt = pt_parse cfg tbl;
               if ret \<noteq> 0 then Some (m, Some pt, ret)
               else Some (m, Some pt, if pt_valid cfg pt then 0 else -1)
             }
           }))"

text \<open>One pass of \<open>emmc_part_table_get\<close>: the entries with flag \<open>fl\<close> are copied to the places from
  \<open>part_num\<close> on; an entry named \<open>data\<close> of the last pass gets the size -1.\<close>

definition cstr_data :: cstr where
  "cstr_data = [0x64, 0x61, 0x74, 0x61]"

definition part_copy :: "emmc_cfg \<Rightarrow> bool \<Rightarrow> partitions \<Rightarrow> partitions" where
  "part_copy cfg last_pass p =
     (let nm = take (MAX_MMC_PART_NAME_LEN cfg) (p_name p) in
      \<lparr>p_name = nm,
       p_size = (if last_pass \<and> strncmp_eq nm cstr_data (MAX_MMC_PART_NAME_LEN cfg) then -1 else p_size p),
       p_offset = p_offset p, p_mask_flags = p_mask_flags p\<rparr>)"

fun part_pass ::
    "emmc_cfg \<Rightarrow> u32 \<Rightarrow> bool \<Rightarrow> partitions list \<Rightarrow> partitions list \<Rightarrow> nat \<Rightarrow> (partitions list \<times> nat) option" where
  "part_pass cfg fl lp [] tbl pn = Some (tbl, pn)"
| "part_pass cfg fl lp (p # ps) tbl pn =
     (if p_mask_flags p = fl then
        if pn < length tbl then part_pass cfg fl lp ps (tbl[pn := part_copy cfg lp p]) (pn + 1) else None
      else part_pass cfg fl lp ps tbl pn)"

text \<open>The array starts with whatever the allocator returned, \<open>junk\<close>; all of it is copied out.\<close>

definition emmc_part_table_get ::
    "emmc_cfg \<Rightarrow> partitions list option \<Rightarrow> partitions list \<Rightarrow> (int + partitions list) option" where
  "emmc_part_table_get cfg junk tmp_table =
     (case junk of
        None \<Rightarrow> Some (Inl (- ENOMEM))
      | Some tbl \<Rightarrow> do {
          let tmp = take (MAX_MMC_PART_NUM cfg) tmp_table;
          (tbl, pn) \<leftarrow> part_pass cfg (STORE_CODE cfg) False tmp tbl 0;
          (tbl, pn) \<leftarrow> part_pass cfg (STORE_CACHE cfg) False tmp tbl pn;
          (tbl, pn) \<leftarrow> part_pass cfg (STORE_DATA cfg) True tmp tbl pn;
          Some (Inr tbl)
        })"

section \<open>The device tree area\<close>

record aml_dtb_info =
  stamp :: "u32 list"
  valid :: "u8 list"

record 'd dtb_state =
  dmmc :: "'d mmc"
  glb_dtb_buf :: "u8 list option"
  dtb_infos :: aml_dtb_info
  dticks :: nat

abbreviation (input) DTB_RESERVE_OFFSET :: int where "DTB_RESERVE_OFFSET \<equiv> 0x400000"
abbreviation (input) MMC_DTB_PART_OFFSET :: int where "MMC_DTB_PART_OFFSET \<equiv> 0x2800000"
abbreviation (input) DTB_BLK_CNT :: int where "DTB_BLK_CNT \<equiv> 512"

text \<open>Offsets of the trailing fields of \<open>struct aml_dtb_rsv\<close>, which has 262144 bytes.\<close>

abbreviation (input) DTB_MAGIC_OFF :: nat where "DTB_MAGIC_OFF \<equiv> 262128"
abbreviation (input) DTB_VERSION_OFF :: nat where "DTB_VERSION_OFF \<equiv> 262132"
abbreviation (input) DTB_TIMESTAMP_OFF :: nat where "DTB_TIMESTAMP_OFF \<equiv> 262136"
abbreviation (input) DTB_CHECKSUM_OFF :: nat where "DTB_CHECKSUM_OFF \<equiv> 262140"
abbreviation (input) DTB_SUM_WORDS :: nat where "DTB_SUM_WORDS \<equiv> 65535"

text \<open>\<open>stamp_after(a, b)\<close> is \<open>(int)(b) - (int)(a) < 0\<close>, with the wrap-around of \<open>int\<close> under which
  the kernel is compiled.\<close>

definition stamp_after :: "u32 \<Rightarrow> u32 \<Rightarrow> bool" where
  "stamp_after a b \<longleftrightarrow> sint (b - a) < 0"

definition calc_dtb_checksum :: "u8 list \<Rightarrow> u32 option" where
  "calc_dtb_checksum dtb = checksum_loop dtb 0 DTB_SUM_WORDS 0"

definition verify_dtb_checksum :: "u8 list \<Rightarrow> int option" where
  "verify_dtb_checksum dtb =
     do { c \<leftarrow> calc_dtb_checksum dtb; st \<leftarrow> rd32 dtb DTB_CHECKSUM_OFF; Some (if c = st then 0 else 1) }"

definition dtb_write ::
    "emmc_cfg \<Rightarrow> 'd mmc_host \<Rightarrow> 'd mmc \<Rightarrow> int \<Rightarrow> u8 list \<Rightarrow> ('d mmc \<times> int) option" where
  "dtb_write cfg h m blk buf =
     do {
       let cnt = int (drop_bit (read_blkbits (card m)) (CONFIG_DTB_SIZE cfg));
       (m, buf, ret) \<leftarrow> chunk_loop (mmc_write_internal cfg h) (mmc_claim_host m) (of_int blk) cnt buf 0;
       Some (mmc_release_host m, if ret \<noteq> 0 then - EFAULT else ret)
     }"

definition dtb_read ::
    "emmc_cfg \<Rightarrow> 'd mmc_host \<Rightarrow> 'd mmc \<Rightarrow> int \<Rightarrow> u8 list \<Rightarrow> ('d mmc \<times> u8 list \<times> int) option" where
  "dtb_read cfg h m blk buf =
     do {
       let cnt = int (drop_bit (read_blkbits (card m)) (CONFIG_DTB_SIZE cfg));
       (m, buf, ret) \<leftarrow> chunk_loop (mmc_read_internal cfg h) (mmc_claim_host m) (of_int blk) cnt buf 0;
       Some (mmc_release_host m, buf, if ret \<noteq> 0 then - EFAULT else ret)
     }"

definition dtb_blk :: "emmc_cfg \<Rightarrow> mmc_partitions_fmt \<Rightarrow> nat \<Rightarrow> nat \<Rightarrow> int option" where
  "dtb_blk cfg pt blkbits cpy =
     do {
       off \<leftarrow> get_reserve_partition_off_from_tbl cfg pt;
       Some (drop_bit blkbits (off + DTB_RESERVE_OFFSET) + int cpy * DTB_BLK_CNT)
     }"

text \<open>One round of the loop of \<open>_dtb_init\<close>: the state, the buffer, and the value of \<open>ret\<close>.\<close>

definition dtb_init_copy ::
    "emmc_cfg \<Rightarrow> 'd mmc_host \<Rightarrow> mmc_partitions_fmt \<Rightarrow> nat \<Rightarrow> 'd mmc \<times> u8 list \<times> aml_dtb_info \<times> int \<Rightarrow>
     ('d mmc \<times> u8 list \<times> aml_dtb_info \<times> int) option" where
  "dtb_init_copy cfg h pt cpy st =
     (case st of (m, dtb, info, ret) \<Rightarrow> do {
       blk \<leftarrow> dtb_blk cfg pt (read_blkbits (card m)) cpy;
       (m, dtb, e) \<leftarrow> dtb_read cfg h m blk dtb;
       if e \<noteq> 0 then Some (m, dtb, info, ret)
       else do {
         ret \<leftarrow> verify_dtb_checksum dtb;
         if ret = 0 then do {
           ts \<leftarrow> rd32 dtb DTB_TIMESTAMP_OFF;
           Some (m, dtb, info\<lparr>stamp := (stamp info)[cpy := ts], valid := (valid info)[cpy := 1]\<rparr>, ret)
         }
         else Some (m, dtb, info, ret)
       }
     })"

definition dtb_init ::
    "emmc_cfg \<Rightarrow> kmalloc_t \<Rightarrow> 'd mmc_host \<Rightarrow> mmc_partitions_fmt \<Rightarrow> 'd dtb_state \<Rightarrow> ('d dtb_state \<times> int) option" where
  "dtb_init cfg km h pt s =
     (let (buf, n) = (case glb_dtb_buf s of
                        Some b \<Rightarrow> (Some b, dticks s)
                      | None \<Rightarrow> (km (dticks s) (CONFIG_DTB_SIZE cfg), Suc (dticks s)))
      in case buf of
           None \<Rightarrow> Some (s\<lparr>dticks := n\<rparr>, - ENOMEM)
         | Some dtb \<Rightarrow> do {
             st \<leftarrow> dtb_init_copy cfg h pt 1 (dmmc s, dtb, dtb_infos s, 0);
             (m, dtb, info, ret) \<leftarrow> dtb_init_copy cfg h pt 0 st;
             Some (\<lparr>dmmc = m, glb_dtb_buf = Some dtb, dtb_infos = info, dticks = n\<rparr>, ret)
           })"

text \<open>The time stamp of the next version.\<close>

definition dtb_next_stamp :: "aml_dtb_info \<Rightarrow> u32" where
  "dtb_next_stamp info =
     (let nvalid = uint (valid info ! 0) + uint (valid info ! 1) in
      if nvalid = 0 then 0
      else if nvalid = 1 then 1 + stamp info ! (if valid info ! 0 \<noteq> 0 then 0 else 1)
      else if stamp info ! 0 \<noteq> stamp info ! 1
           then 1 + (if stamp_after (stamp info ! 1) (stamp info ! 0) then stamp info ! 1 else stamp info ! 0)
           else 1 + stamp info ! 0)"

text \<open>The buffer with its trailing fields set, and the checksum over all but the last word.\<close>

definition dtb_seal :: "aml_dtb_info \<Rightarrow> u8 list \<Rightarrow> u8 list option" where
  "dtb_seal info dtb =
     do {
       dtb \<leftarrow> put_bytes dtb DTB_TIMESTAMP_OFF (le32 (dtb_next_stamp info));
       dtb \<leftarrow> put_bytes dtb DTB_VERSION_OFF (le32 1);
       dtb \<leftarrow> put_bytes dtb DTB_MAGIC_OFF (le32 0x00447e41);
       c \<leftarrow> calc_dtb_checksum dtb;
       put_bytes dtb DTB_CHECKSUM_OFF (le32 c)
     }"

definition amlmmc_dtb_write ::
    "emmc_cfg \<Rightarrow> 'd mmc_host \<Rightarrow> mmc_partitions_fmt \<Rightarrow> 'd mmc \<Rightarrow> aml_dtb_info \<Rightarrow> u8 list \<Rightarrow> nat \<Rightarrow>
     ('d mmc \<times> u8 list \<times> int) option" where
  "amlmmc_dtb_write cfg h pt m info buf len =
     (if len > CONFIG_DTB_SIZE cfg then Some (m, buf, - EFAULT)
      else do {
        buf \<leftarrow> dtb_seal info buf;
        blk0 \<leftarrow> dtb_blk cfg pt (read_blkbits (card m)) 0;
        (m, r0) \<leftarrow> dtb_write cfg h m blk0 buf;
        blk1 \<leftarrow> dtb_blk cfg pt (read_blkbits (card m)) 1;
        (m, r1) \<leftarrow> dtb_write cfg h m blk1 buf;
        Some (m, buf, r0 OR r1)
      })"

text \<open>The copy at a fixed place is read through a cell buffer of \<open>DTB_CELL_SIZE\<close> bytes.\<close>

partial_function (option) dtb_cell_loop ::
    "emmc_cfg \<Rightarrow> 'd mmc_host \<Rightarrow> 'd mmc \<Rightarrow> int \<Rightarrow> int \<Rightarrow> u8 list \<Rightarrow> nat \<Rightarrow> ('d mmc \<times> u8 list \<times> int) option" where
  "dtb_cell_loop cfg h m start_blk blk_cnt buf pos =
     (if blk_cnt = 0 then Some (m, buf, 0)
      else do {
        let cell = drop_bit (read_blkbits (card m)) (DTB_CELL_SIZE cfg);
        (m, buffer, ret) \<leftarrow> mmc_read_internal cfg h m (of_int start_blk) (of_nat cell)
                              (replicate (DTB_CELL_SIZE cfg) 0) 0;
        if ret \<noteq> 0 then Some (m, buf, - EFAULT)
        else do {
          buf \<leftarrow> put_bytes buf pos buffer;
          dtb_cell_loop cfg h m (start_blk + int cell) (blk_cnt - int cell) buf (pos + DTB_CELL_SIZE cfg)
        }
      })"

definition amlmmc_dtb_read ::
    "emmc_cfg \<Rightarrow> kmalloc_t \<Rightarrow> 'd mmc_host \<Rightarrow> nat \<Rightarrow> 'd mmc \<Rightarrow> u8 list \<Rightarrow> nat \<Rightarrow> ('d mmc \<times> u8 list \<times> int) option" where
  "amlmmc_dtb_read cfg km h n m buf len =
     (if len > CONFIG_DTB_SIZE cfg then Some (m, buf, - EFAULT)
      else do {
        buf \<leftarrow> put_bytes buf 0 (replicate len 0);
        case km n (DTB_CELL_SIZE cfg) of
          None \<Rightarrow> Some (m, buf, - ENOMEM)
        | Some _ \<Rightarrow>
            dtb_cell_loop cfg h m (drop_bit (read_blkbits (card m)) MMC_DTB_PART_OFFSET)
              (int (drop_bit (read_blkbits (card m)) (CONFIG_DTB_SIZE cfg))) buf 0
      })"

text \<open>The file operations.  \<open>c\<close> is the number of bytes the copy from or to user space reached,
  which the code does not look at; the kernel fills the rest of a copy from user space with
  zeros.  The results are the state, the user's bytes, the new position and the size returned.\<close>

definition mmc_dtb_read ::
    "emmc_cfg \<Rightarrow> kmalloc_t \<Rightarrow> 'd mmc_host \<Rightarrow> 'd dtb_state \<Rightarrow> nat \<Rightarrow> nat \<Rightarrow> nat \<Rightarrow>
     ('d dtb_state \<times> u8 list \<times> nat \<times> int) option" where
  "mmc_dtb_read cfg km h s c count ppos =
     (if ppos = CONFIG_DTB_SIZE cfg then Some (s, [], ppos, 0)
      else if ppos \<ge> CONFIG_DTB_SIZE cfg then Some (s, [], ppos, - EFAULT)
      else case glb_dtb_buf s of
             None \<Rightarrow> Some (s, [], ppos, - ENOMEM)
           | Some dtb_ptr \<Rightarrow> do {
               (m, dtb_ptr, ret) \<leftarrow> amlmmc_dtb_read cfg km h (dticks s) (mmc_claim_host (dmmc s)) dtb_ptr
                                      (CONFIG_DTB_SIZE cfg);
               let s = s\<lparr>dmmc := mmc_release_host m, glb_dtb_buf := Some dtb_ptr, dticks := Suc (dticks s)\<rparr>;
               if ret \<noteq> 0 then Some (s, [], ppos, 0)
               else do {
                 let sz = (if ppos + count > CONFIG_DTB_SIZE cfg then CONFIG_DTB_SIZE cfg - ppos else count);
                 bs \<leftarrow> get_bytes dtb_ptr ppos sz;
                 Some (s, take c bs, ppos + sz, int sz)
               }
             })"

definition mmc_dtb_write ::
    "emmc_cfg \<Rightarrow> 'd mmc_host \<Rightarrow> mmc_partitions_fmt \<Rightarrow> 'd dtb_state \<Rightarrow> nat \<Rightarrow> u8 list \<Rightarrow> nat \<Rightarrow>
     ('d dtb_state \<times> nat \<times> int) option" where
  "mmc_dtb_write cfg h pt s c ubuf ppos =
     (if ppos = CONFIG_DTB_SIZE cfg then Some (s, ppos, 0)
      else if ppos \<ge> CONFIG_DTB_SIZE cfg then Some (s, ppos, - EFAULT)
      else case glb_dtb_buf s of
             None \<Rightarrow> Some (s, ppos, - ENOMEM)
           | Some dtb_ptr \<Rightarrow> do {
               let m = mmc_claim_host (dmmc s);
               let sz = (if ppos + length ubuf > CONFIG_DTB_SIZE cfg then CONFIG_DTB_SIZE cfg - ppos
                         else length ubuf);
               dtb_ptr \<leftarrow> put_bytes dtb_ptr ppos (take (min c sz) ubuf @ replicate (sz - c) 0);
               (m, dtb_ptr, ret) \<leftarrow> amlmmc_dtb_write cfg h pt m (dtb_infos s) dtb_ptr (CONFIG_DTB_SIZE cfg);
               let s = s\<lparr>dmmc := mmc_release_host m, glb_dtb_buf := Some dtb_ptr\<rparr>;
               if ret \<noteq> 0 then Some (s, ppos, int sz) else Some (s, ppos + sz, int sz)
             })"

section \<open>Lemmas on the device tree area\<close>

lemma mmc_live_claim:
  "mmc_live_inv cfg h part user c k cap m \<Longrightarrow> mmc_live_inv cfg h part user c (k + 1) cap (mmc_claim_host m)"
  by (auto simp: mmc_live_inv_def mmc_io_inv_def mmc_inv_def mmc_claim_host_def)

lemma mmc_live_release:
  "mmc_live_inv cfg h part user c (k + 1) cap m \<Longrightarrow> mmc_live_inv cfg h part user c k cap (mmc_release_host m)"
  by (auto simp: mmc_live_inv_def mmc_io_inv_def mmc_inv_def mmc_release_host_def)

lemma mmc_io_claim:
  "mmc_io_inv cfg h part user c k m \<Longrightarrow> mmc_io_inv cfg h part user c (k + 1) (mmc_claim_host m)"
  by (auto simp: mmc_io_inv_def mmc_inv_def mmc_claim_host_def)

lemma mmc_io_release:
  "mmc_io_inv cfg h part user c (k + 1) m \<Longrightarrow> mmc_io_inv cfg h part user c k (mmc_release_host m)"
  by (auto simp: mmc_io_inv_def mmc_inv_def mmc_release_host_def)

lemma dev_claim [simp]: "dev (mmc_claim_host m) = dev m" "dev (mmc_release_host m) = dev m"
  by (simp_all add: mmc_claim_host_def mmc_release_host_def)

lemma mmc_live_io: "mmc_live_inv cfg h part user c k cap m \<Longrightarrow> mmc_io_inv cfg h part user c k m"
  by (simp add: mmc_live_inv_def)

lemma mmc_io_blkbits: "mmc_io_inv cfg h part user c k m \<Longrightarrow> read_blkbits (card m) = 9"
  by (auto simp: mmc_io_inv_def mmc_inv_def)

lemma card_claim [simp]: "card (mmc_claim_host m) = card m" "card (mmc_release_host m) = card m"
  by (simp_all add: mmc_claim_host_def mmc_release_host_def)

lemma reserve_off_bound: "find_reserved rname ps n = Some off \<Longrightarrow> -(2 ^ 31) \<le> off \<and> off < 2 ^ 31"
proof (induction rname ps n rule: find_reserved.induct)
  case (3 rname p ps n)
  then show ?case
    using sint_greater_eq [of "ucast (p_offset p) :: u32"] sint_less [of "ucast (p_offset p) :: u32"]
    by (auto split: if_splits)
qed auto

text \<open>A table with a reserved partition that starts at a block boundary.\<close>

definition reserved_at :: "emmc_cfg \<Rightarrow> mmc_partitions_fmt \<Rightarrow> nat \<Rightarrow> bool" where
  "reserved_at cfg pt off \<longleftrightarrow>
     get_reserve_partition_off_from_tbl cfg pt = Some (int off) \<and> 512 dvd off"

lemma reserved_at_bound: "reserved_at cfg pt off \<Longrightarrow> off < 2 ^ 31"
  using reserve_off_bound by (fastforce simp: reserved_at_def get_reserve_partition_off_from_tbl_def)

lemma unat_of_int_block:
  assumes "b = int n" and "n < 2 ^ 31"
  shows "unat (of_int b :: u32) = n"
  using assms unat_of_nat32 [of n] by simp

lemma dtb_blk_at:
  assumes "reserved_at cfg pt off" and "cpy < 2"
  shows "\<exists>blk. dtb_blk cfg pt 9 cpy = Some blk \<and> area_in_range (of_int blk) \<and>
     512 * unat (of_int blk :: u32) = off + 0x400000 + cpy * AREA_SIZE"
proof -
  obtain q where q: "off = 512 * q" using assms(1) by (auto simp: reserved_at_def)
  have b: "off < 2 ^ 31" using reserved_at_bound [OF assms(1)] .
  have e: "dtb_blk cfg pt 9 cpy = Some (int (q + 8192 + cpy * 512))"
    using assms(1) q by (simp add: dtb_blk_def reserved_at_def drop_bit_eq_div)
  have u: "unat (of_int (int (q + 8192 + cpy * 512)) :: u32) = q + 8192 + cpy * 512"
    using b q assms(2) by (intro unat_of_int_block) auto
  show ?thesis
    using e u b q assms(2) by (auto simp: area_in_range_def)
qed

lemma dtb_count: "CONFIG_DTB_SIZE cfg = AREA_SIZE \<Longrightarrow> int (drop_bit 9 (CONFIG_DTB_SIZE cfg)) = 512"
  by (simp add: drop_bit_eq_div)

lemma dtb_write_ok:
  assumes i: "mmc_io_inv cfg h part user c k m" and s: "CONFIG_DTB_SIZE cfg = AREA_SIZE"
    and r: "area_in_range (of_int blk)" and b: "length buf = AREA_SIZE"
  shows "\<exists>m' ret. dtb_write cfg h m blk buf = Some (m', ret) \<and> mmc_io_inv cfg h part user c k m' \<and>
     ret \<in> {0, - EFAULT} \<and>
     disk_same_outside (user (dev m)) (user (dev m')) (512 * unat (of_int blk :: u32)) AREA_SIZE \<and>
     (ret = 0 \<longrightarrow> disk_bytes (user (dev m')) (512 * unat (of_int blk :: u32)) AREA_SIZE = buf)"
  using emmc.chunk_write_area [OF mmc_io_claim [OF i] r, of buf] b
  by (auto simp: dtb_write_def mmc_io_blkbits [OF i] dtb_count [OF s] intro: mmc_io_release)

lemma dtb_write_done:
  assumes i: "mmc_live_inv cfg h part user c k cap m" and s: "CONFIG_DTB_SIZE cfg = AREA_SIZE"
    and r: "area_in_range (of_int blk)" "unat (of_int blk :: u32) + 512 < cap" and b: "length buf = AREA_SIZE"
  shows "\<exists>m'. dtb_write cfg h m blk buf = Some (m', 0) \<and> mmc_live_inv cfg h part user c k cap m' \<and>
     disk_same_outside (user (dev m)) (user (dev m')) (512 * unat (of_int blk :: u32)) AREA_SIZE \<and>
     disk_bytes (user (dev m')) (512 * unat (of_int blk :: u32)) AREA_SIZE = buf"
  using emmc_live.chunk_write_done [OF mmc_live_claim [OF i] r(1), of buf] r(2) b
  by (auto simp: dtb_write_def mmc_io_blkbits [OF mmc_live_io [OF i]] dtb_count [OF s] intro: mmc_live_release)

lemma dtb_read_done:
  assumes i: "mmc_live_inv cfg h part user c k cap m" and s: "CONFIG_DTB_SIZE cfg = AREA_SIZE"
    and r: "area_in_range (of_int blk)" "unat (of_int blk :: u32) + 512 < cap" and b: "length buf = AREA_SIZE"
  shows "\<exists>m'. dtb_read cfg h m blk buf =
       Some (m', disk_bytes (user (dev m)) (512 * unat (of_int blk :: u32)) AREA_SIZE, 0) \<and>
     mmc_live_inv cfg h part user c k cap m' \<and> user (dev m') = user (dev m)"
  using emmc_live.chunk_read_done [OF mmc_live_claim [OF i] r(1), of buf] r(2) b
  by (auto simp: dtb_read_def mmc_io_blkbits [OF mmc_live_io [OF i]] dtb_count [OF s] intro: mmc_live_release)

lemma rd32_put_bytes: "put_bytes buf off (le32 v) = Some buf' \<Longrightarrow> rd32 buf' off = Some v"
  by (rule f32.fetch_put)

text \<open>A sealed buffer: its checksum verifies and its stamp is the next one.\<close>

lemma dtb_seal_ok:
  assumes "length dtb = AREA_SIZE"
  shows "\<exists>dtb'. dtb_seal info dtb = Some dtb' \<and> length dtb' = AREA_SIZE \<and>
     verify_dtb_checksum dtb' = Some 0 \<and> rd32 dtb' DTB_TIMESTAMP_OFF = Some (dtb_next_stamp info) \<and>
     take DTB_MAGIC_OFF dtb' = take DTB_MAGIC_OFF dtb"
proof -
  obtain d1 where 1: "put_bytes dtb DTB_TIMESTAMP_OFF (le32 (dtb_next_stamp info)) = Some d1" "length d1 = AREA_SIZE"
    using put_bytes_Some_iff [of dtb] assms length_put_bytes by fastforce
  obtain d2 where 2: "put_bytes d1 DTB_VERSION_OFF (le32 1) = Some d2" "length d2 = AREA_SIZE"
    using put_bytes_Some_iff [of d1] 1(2) length_put_bytes by fastforce
  obtain d3 where 3: "put_bytes d2 DTB_MAGIC_OFF (le32 0x00447e41) = Some d3" "length d3 = AREA_SIZE"
    using put_bytes_Some_iff [of d2] 2(2) length_put_bytes by fastforce
  have c3: "calc_dtb_checksum d3 = Some (word_sum d3 0 DTB_SUM_WORDS)"
    using checksum_loop_sum [of 0 DTB_SUM_WORDS d3 "0 :: u32"] 3(2) by (simp add: calc_dtb_checksum_def)
  obtain d4 where 4: "put_bytes d3 DTB_CHECKSUM_OFF (le32 (word_sum d3 0 DTB_SUM_WORDS)) = Some d4" "length d4 = AREA_SIZE"
    using put_bytes_Some_iff [of d3] 3(2) length_put_bytes by fastforce
  have "take DTB_CHECKSUM_OFF d4 = take DTB_CHECKSUM_OFF d3"
    using put_bytes_take_before [OF 4(1)] by simp
  then have "word_sum d4 0 DTB_SUM_WORDS = (word_sum d3 0 DTB_SUM_WORDS :: u32)"
    by (intro word_sum_prefix) simp
  then have v: "verify_dtb_checksum d4 = Some 0"
    using checksum_loop_sum [of 0 DTB_SUM_WORDS d4 "0 :: u32"] 4 rd32_put_bytes [OF 4(1)]
    by (simp add: verify_dtb_checksum_def calc_dtb_checksum_def)
  have t: "rd32 d4 DTB_TIMESTAMP_OFF = Some (dtb_next_stamp info)"
    using rd32_put_bytes [OF 1(1)] f32.fetch_put_other [OF 2(1), of DTB_TIMESTAMP_OFF]
      f32.fetch_put_other [OF 3(1), of DTB_TIMESTAMP_OFF] f32.fetch_put_other [OF 4(1), of DTB_TIMESTAMP_OFF]
    by simp
  have p: "take DTB_MAGIC_OFF d4 = take DTB_MAGIC_OFF dtb"
    using put_bytes_take_before [OF 1(1), of DTB_MAGIC_OFF] put_bytes_take_before [OF 2(1), of DTB_MAGIC_OFF]
      put_bytes_take_before [OF 3(1), of DTB_MAGIC_OFF] put_bytes_take_before [OF 4(1), of DTB_MAGIC_OFF]
    by simp
  show ?thesis
    using 1(1) 2(1) 3(1) 4 c3 v t p by (simp add: dtb_seal_def)
qed

lemma amlmmc_dtb_write_spec:
  assumes i: "mmc_io_inv cfg h part user c k m" and s: "CONFIG_DTB_SIZE cfg = AREA_SIZE"
    and pt: "reserved_at cfg pt off" and b: "length buf = AREA_SIZE" and l: "len \<le> AREA_SIZE"
  shows "\<exists>m' buf' ret. amlmmc_dtb_write cfg h pt m info buf len = Some (m', buf', ret) \<and>
     mmc_io_inv cfg h part user c k m' \<and> dtb_seal info buf = Some buf' \<and>
     disk_same_outside (user (dev m)) (user (dev m')) (off + 0x400000) (2 * AREA_SIZE) \<and>
     (ret = 0 \<longrightarrow> (\<forall>cpy < 2. disk_bytes (user (dev m')) (off + 0x400000 + cpy * AREA_SIZE) AREA_SIZE = buf'))"
proof -
  obtain buf' where d: "dtb_seal info buf = Some buf'" "length buf' = AREA_SIZE"
    using dtb_seal_ok [OF b] by blast
  obtain b0 where b0: "dtb_blk cfg pt 9 0 = Some b0" "area_in_range (of_int b0)"
    "512 * unat (of_int b0 :: u32) = off + 0x400000" using dtb_blk_at [OF pt, of 0] by auto
  obtain b1 where b1: "dtb_blk cfg pt 9 1 = Some b1" "area_in_range (of_int b1)"
    "512 * unat (of_int b1 :: u32) = off + 0x400000 + AREA_SIZE" using dtb_blk_at [OF pt, of 1] by auto
  obtain m0 r0 where w0: "dtb_write cfg h m b0 buf' = Some (m0, r0)" "mmc_io_inv cfg h part user c k m0"
    "r0 \<in> {0, - EFAULT}" "disk_same_outside (user (dev m)) (user (dev m0)) (off + 0x400000) AREA_SIZE"
    "r0 = 0 \<Longrightarrow> disk_bytes (user (dev m0)) (off + 0x400000) AREA_SIZE = buf'"
    using dtb_write_ok [OF i s b0(2) d(2)] b0(3) by auto
  obtain m1 r1 where w1: "dtb_write cfg h m0 b1 buf' = Some (m1, r1)" "mmc_io_inv cfg h part user c k m1"
    "r1 \<in> {0, - EFAULT}"
    "disk_same_outside (user (dev m0)) (user (dev m1)) (off + 0x400000 + AREA_SIZE) AREA_SIZE"
    "r1 = 0 \<Longrightarrow> disk_bytes (user (dev m1)) (off + 0x400000 + AREA_SIZE) AREA_SIZE = buf'"
    using dtb_write_ok [OF w0(2) s b1(2) d(2)] b1(3) by auto
  have e: "amlmmc_dtb_write cfg h pt m info buf len = Some (m1, buf', r0 OR r1)"
    using l s d(1) b0(1) b1(1) w0(1) w1(1) mmc_io_blkbits [OF i] mmc_io_blkbits [OF w0(2)]
    by (simp add: amlmmc_dtb_write_def)
  have z: "r0 OR r1 = 0 \<Longrightarrow> r0 = 0 \<and> r1 = 0" using w0(3) w1(3) by auto
  have out: "disk_same_outside (user (dev m)) (user (dev m1)) (off + 0x400000) (2 * AREA_SIZE)"
    using disk_same_outside_join [OF w0(4) w1(4)] by simp
  have keep: "disk_bytes (user (dev m1)) (off + 0x400000) AREA_SIZE = disk_bytes (user (dev m0)) (off + 0x400000) AREA_SIZE"
    using disk_same_outside_bytes [OF w1(4)] by simp
  show ?thesis
    using e d w1(2) out z w0(5) w1(5) keep by (auto simp: less_2_cases_iff)
qed

lemma amlmmc_dtb_write_live:
  assumes i: "mmc_live_inv cfg h part user c k cap m" and s: "CONFIG_DTB_SIZE cfg = AREA_SIZE"
    and pt: "reserved_at cfg pt off" and b: "length buf = AREA_SIZE" and l: "len \<le> AREA_SIZE"
    and cap: "off + 0x400000 + 2 * AREA_SIZE < 512 * cap"
  shows "\<exists>m' buf'. amlmmc_dtb_write cfg h pt m info buf len = Some (m', buf', 0) \<and>
     mmc_live_inv cfg h part user c k cap m' \<and> dtb_seal info buf = Some buf' \<and>
     disk_same_outside (user (dev m)) (user (dev m')) (off + 0x400000) (2 * AREA_SIZE) \<and>
     (\<forall>cpy < 2. disk_bytes (user (dev m')) (off + 0x400000 + cpy * AREA_SIZE) AREA_SIZE = buf')"
proof -
  obtain buf' where d: "dtb_seal info buf = Some buf'" "length buf' = AREA_SIZE"
    using dtb_seal_ok [OF b] by blast
  obtain b0 where b0: "dtb_blk cfg pt 9 0 = Some b0" "area_in_range (of_int b0)"
    "512 * unat (of_int b0 :: u32) = off + 0x400000" using dtb_blk_at [OF pt, of 0] by auto
  obtain b1 where b1: "dtb_blk cfg pt 9 1 = Some b1" "area_in_range (of_int b1)"
    "512 * unat (of_int b1 :: u32) = off + 0x400000 + AREA_SIZE" using dtb_blk_at [OF pt, of 1] by auto
  have c: "unat (of_int b0 :: u32) + 512 < cap" "unat (of_int b1 :: u32) + 512 < cap"
    using b0(3) b1(3) cap by simp_all
  obtain m0 where w0: "dtb_write cfg h m b0 buf' = Some (m0, 0)" "mmc_live_inv cfg h part user c k cap m0"
    using dtb_write_done [OF i s b0(2) c(1) d(2)] by auto
  obtain m1 where w1: "dtb_write cfg h m0 b1 buf' = Some (m1, 0)" "mmc_live_inv cfg h part user c k cap m1"
    using dtb_write_done [OF w0(2) s b1(2) c(2) d(2)] by auto
  have e: "amlmmc_dtb_write cfg h pt m info buf len = Some (m1, buf', 0)"
    using l s d(1) b0(1) b1(1) w0(1) w1(1) mmc_io_blkbits [OF mmc_live_io [OF i]]
      mmc_io_blkbits [OF mmc_live_io [OF w0(2)]]
    by (simp add: amlmmc_dtb_write_def)
  then show ?thesis
    using amlmmc_dtb_write_spec [OF mmc_live_io [OF i] s pt b l, of info] w1(2) d(1) by auto
qed

text \<open>The scan of \<open>_dtb_init\<close> over a disk whose two copies are a buffer that verifies.\<close>

lemma dtb_init_copy_done:
  assumes i: "mmc_live_inv cfg h part user c k cap m" and s: "CONFIG_DTB_SIZE cfg = AREA_SIZE"
    and pt: "reserved_at cfg pt off" and b: "length buf = AREA_SIZE" and cpy: "cpy < 2"
    and cap: "off + 0x400000 + 2 * AREA_SIZE < 512 * cap"
    and dk: "disk_bytes (user (dev m)) (off + 0x400000 + cpy * AREA_SIZE) AREA_SIZE = dtb"
    and v: "verify_dtb_checksum dtb = Some 0" "rd32 dtb DTB_TIMESTAMP_OFF = Some ts"
  shows "\<exists>m'. dtb_init_copy cfg h pt cpy (m, buf, info, r) =
       Some (m', dtb, info\<lparr>stamp := (stamp info)[cpy := ts], valid := (valid info)[cpy := 1]\<rparr>, 0) \<and>
     mmc_live_inv cfg h part user c k cap m' \<and> user (dev m') = user (dev m)"
proof -
  obtain blk where blk: "dtb_blk cfg pt 9 cpy = Some blk" "area_in_range (of_int blk)"
    "512 * unat (of_int blk :: u32) = off + 0x400000 + cpy * AREA_SIZE"
    using dtb_blk_at [OF pt cpy] by auto
  have "unat (of_int blk :: u32) + 512 < cap"
    using blk(3) cap cpy by (auto simp: less_2_cases_iff)
  from dtb_read_done [OF i s blk(2) this b] blk(1,3) dk v show ?thesis
    by (auto simp: dtb_init_copy_def mmc_io_blkbits [OF mmc_live_io [OF i]])
qed

lemma update_two: "length xs = 2 \<Longrightarrow> xs[1 := x, 0 := x] = [x, x]"
  by (auto simp: length_Suc_conv numeral_2_eq_2)

lemma dtb_init_done:
  assumes i: "mmc_live_inv cfg h part user c k cap (dmmc s)" and cs: "CONFIG_DTB_SIZE cfg = AREA_SIZE"
    and pt: "reserved_at cfg pt off" and cap: "off + 0x400000 + 2 * AREA_SIZE < 512 * cap"
    and km: "kmalloc_succeeds km" and g: "\<And>b. glb_dtb_buf s = Some b \<Longrightarrow> length b = AREA_SIZE"
    and inf: "length (stamp (dtb_infos s)) = 2" "length (valid (dtb_infos s)) = 2"
    and dk: "\<forall>cpy < 2. disk_bytes (user (dev (dmmc s))) (off + 0x400000 + cpy * AREA_SIZE) AREA_SIZE = dtb"
    and v: "verify_dtb_checksum dtb = Some 0" "rd32 dtb DTB_TIMESTAMP_OFF = Some ts"
  shows "\<exists>s'. dtb_init cfg km h pt s = Some (s', 0) \<and> glb_dtb_buf s' = Some dtb \<and>
     stamp (dtb_infos s') = [ts, ts] \<and> valid (dtb_infos s') = [1, 1] \<and>
     mmc_live_inv cfg h part user c k cap (dmmc s') \<and> user (dev (dmmc s')) = user (dev (dmmc s))"
proof -
  obtain buf n where bn: "(case glb_dtb_buf s of Some b \<Rightarrow> (Some b, dticks s)
      | None \<Rightarrow> (km (dticks s) (CONFIG_DTB_SIZE cfg), Suc (dticks s))) = (Some buf, n)" "length buf = AREA_SIZE"
  proof (cases "glb_dtb_buf s")
    case None
    moreover obtain b where "km (dticks s) AREA_SIZE = Some b" "length b = AREA_SIZE"
      using km unfolding kmalloc_succeeds_def by blast
    ultimately show ?thesis using that cs by simp
  next
    case (Some b)
    then show ?thesis using that g by simp
  qed
  have dtb: "length dtb = AREA_SIZE" using dk [rule_format, of 0] length_disk_bytes by force
  obtain m1 where 1: "dtb_init_copy cfg h pt 1 (dmmc s, buf, dtb_infos s, 0) =
       Some (m1, dtb, (dtb_infos s)\<lparr>stamp := (stamp (dtb_infos s))[1 := ts],
                        valid := (valid (dtb_infos s))[1 := 1]\<rparr>, 0)"
    "mmc_live_inv cfg h part user c k cap m1" "user (dev m1) = user (dev (dmmc s))"
    using dtb_init_copy_done [OF i cs pt bn(2) _ cap _ v, of 1 "dtb_infos s" 0] dk [rule_format, of 1] by auto
  have dk0: "disk_bytes (user (dev m1)) (off + 0x400000 + 0 * AREA_SIZE) AREA_SIZE = dtb"
    using dk 1(3) by fastforce
  note 0 = dtb_init_copy_done [OF 1(2) cs pt dtb _ cap dk0 v,
      of "(dtb_infos s)\<lparr>stamp := (stamp (dtb_infos s))[1 := ts], valid := (valid (dtb_infos s))[1 := 1]\<rparr>" 0]
  show ?thesis
    using 0 1 bn(1) update_two [OF inf(1)] update_two [OF inf(2)] by (auto simp: dtb_init_def)
qed

text \<open>Reading the copy at the fixed place cell by cell gives its bytes.\<close>

lemma dtb_cell_loop_done:
  assumes "mmc_live_inv cfg h part user c k cap m" and q: "DTB_CELL_SIZE cfg = 512 * q" "q < 2 ^ 23"
    and "blk + t * q < cap" and "blk + t * q < 2 ^ 31" and "length buf = pos + t * (512 * q)"
  shows "\<exists>m'. dtb_cell_loop cfg h m (int blk) (int (t * q)) buf pos =
       Some (m', take pos buf @ disk_bytes (user (dev m)) (512 * blk) (t * (512 * q)), 0) \<and>
     mmc_live_inv cfg h part user c k cap m' \<and> user (dev m') = user (dev m)"
  using assms(1,4-6)
proof (induction t arbitrary: m blk buf pos)
  case 0
  then show ?case by (simp add: dtb_cell_loop.simps)
next
  case (Suc t)
  have c9: "read_blkbits (card m) = 9" using mmc_io_blkbits [OF mmc_live_io [OF Suc.prems(1)]] .
  have cell: "drop_bit 9 (DTB_CELL_SIZE cfg) = q" using q(1) by (simp add: drop_bit_eq_div)
  have u: "unat (of_int (int blk) :: u32) = blk" "unat (of_nat q :: u32) = q"
    using Suc.prems(3) q(2) unat_of_int_block [of "int blk" blk] unat_of_nat32 [of q] by simp_all
  show ?case
  proof (cases "q = 0")
    case True
    then show ?thesis using Suc.prems by (simp add: dtb_cell_loop.simps)
  next
    case False
    have r: "blocks_in_range (of_int (int blk)) (of_nat q)"
      using u q(2) Suc.prems(3) by (simp add: blocks_in_range_def)
    obtain m1 where 1: "mmc_read_internal cfg h m (of_int (int blk)) (of_nat q) (replicate (DTB_CELL_SIZE cfg) 0) 0 =
         Some (m1, disk_bytes (user (dev m)) (512 * blk) (512 * q), 0)"
      "mmc_live_inv cfg h part user c k cap m1" "user (dev m1) = user (dev m)"
      using emmc_live.rd_done [OF Suc.prems(1) r, of 0 "replicate (DTB_CELL_SIZE cfg) 0"] u q(1) Suc.prems(2)
      by auto
    let ?x = "disk_bytes (user (dev m)) (512 * blk) (512 * q)"
    have p: "put_bytes buf pos ?x = Some (take pos buf @ ?x @ drop (pos + 512 * q) buf)"
      using Suc.prems(4) by (simp add: put_bytes_def)
    have nz: "int q + int q * int t \<noteq> 0"
      using False of_nat_eq_0_iff [of "q * Suc t", where 'a = int] by (simp add: distrib_left)
    have "\<exists>m'. dtb_cell_loop cfg h m1 (int (blk + q)) (int (t * q)) (take pos buf @ ?x @ drop (pos + 512 * q) buf) (pos + 512 * q) =
         Some (m', take pos buf @ ?x @ disk_bytes (user (dev m1)) (512 * (blk + q)) (t * (512 * q)), 0) \<and>
       mmc_live_inv cfg h part user c k cap m' \<and> user (dev m') = user (dev m1)"
      using Suc.IH [OF 1(2), of "blk + q" "take pos buf @ ?x @ drop (pos + 512 * q) buf" "pos + 512 * q"]
        Suc.prems(2-4) by (simp add: algebra_simps)
    moreover have "dtb_cell_loop cfg h m (int blk) (int (Suc t * q)) buf pos =
        dtb_cell_loop cfg h m1 (int (blk + q)) (int (t * q)) (take pos buf @ ?x @ drop (pos + 512 * q) buf) (pos + 512 * q)"
      using False c9 cell 1(1) p q(1) nz
      by (subst dtb_cell_loop.simps) (simp add: algebra_simps)
    moreover have "?x @ disk_bytes (user (dev m)) (512 * (blk + q)) (t * (512 * q)) =
        disk_bytes (user (dev m)) (512 * blk) (Suc t * (512 * q))"
      using disk_bytes_add [of "user (dev m)" "512 * blk" "512 * q" "t * (512 * q)"] by (simp add: algebra_simps)
    ultimately show ?thesis using 1(3) by auto
  qed
qed

lemma amlmmc_dtb_read_done:
  assumes i: "mmc_live_inv cfg h part user c k cap m" and s: "CONFIG_DTB_SIZE cfg = AREA_SIZE"
    and q: "DTB_CELL_SIZE cfg = 512 * q" "t * (512 * q) = AREA_SIZE" and km: "kmalloc_succeeds km"
    and cap: "0x2800000 + AREA_SIZE < 512 * cap" and b: "length buf = AREA_SIZE"
  shows "\<exists>m'. amlmmc_dtb_read cfg km h n m buf AREA_SIZE =
       Some (m', disk_bytes (user (dev m)) 0x2800000 AREA_SIZE, 0) \<and>
     mmc_live_inv cfg h part user c k cap m' \<and> user (dev m') = user (dev m)"
proof -
  have tq: "t * q = 512" using q(2) by (simp add: mult.commute)
  then have qs: "q < 2 ^ 23" by (cases t) auto
  have k: "\<exists>x. km n (DTB_CELL_SIZE cfg) = Some x" using km unfolding kmalloc_succeeds_def by blast
  have p: "put_bytes buf 0 (replicate AREA_SIZE 0) = Some (replicate AREA_SIZE 0)"
    using b by (simp add: put_bytes_def)
  have c9: "read_blkbits (card m) = 9" using mmc_io_blkbits [OF mmc_live_io [OF i]] .
  have d: "drop_bit 9 (0x2800000 :: int) = int 81920" "int (drop_bit 9 (AREA_SIZE :: nat)) = int (t * q)"
    using tq by (simp_all add: drop_bit_eq_div)
  show ?thesis
    using dtb_cell_loop_done [OF i q(1) qs, of 81920 t "replicate AREA_SIZE 0" 0] cap tq q(2) k p s c9 d
    by (auto simp: amlmmc_dtb_read_def)
qed

text \<open>The partition table on the card.\<close>

lemma pt_read_blocks_spec:
  assumes i: "mmc_io_inv cfg h part user c k m" and b: "b < 2 ^ 22"
    and l: "length tbl = 512 * cnt + rest" "rest < 512" "cnt < 2 ^ 21"
  shows "\<exists>m' b' ret. pt_read_blocks cfg h m (int b) tbl = Some (m', b' @ drop (512 * cnt) tbl, ret) \<and>
     mmc_io_inv cfg h part user c k m' \<and> user (dev m') = user (dev m) \<and> length b' = 512 * cnt \<and>
     (ret = 0 \<longrightarrow> b' = disk_bytes (user (dev m)) (512 * b) (512 * cnt))"
proof -
  have c9: "read_blkbits (card m) = 9" using mmc_io_blkbits [OF i] .
  have q: "length tbl div 512 = cnt" using l(1,2) by simp
  have u: "unat (of_nat b :: u32) = b" "unat (of_nat cnt :: u32) = cnt"
    using b l(3) by (intro unat_of_nat32; simp)+
  have r: "blocks_in_range (of_nat b) (of_nat cnt)" using u b l(3) by (simp add: blocks_in_range_def)
  show ?thesis
  proof (cases "512 \<le> length tbl")
    case True
    then show ?thesis
      using mmc_read_ok [OF i r, of 0 tbl] u l(1) c9 q by (simp add: pt_read_blocks_def)
  next
    case False
    then have "cnt = 0" using q by simp
    then show ?thesis
      using False i c9 by (intro exI [of _ m] exI [of _ "[]"] exI [of _ 0]) (simp add: pt_read_blocks_def)
  qed
qed

lemma pt_read_last_spec:
  assumes i: "mmc_io_inv cfg h part user c k m" and b: "b < 2 ^ 23"
    and l: "length tbl = 512 * cnt + rest" "rest < 512"
  shows "\<exists>m' b' ret. pt_read_last cfg h m (int b) tbl = Some (m', take (512 * cnt) tbl @ b', ret) \<and>
     mmc_io_inv cfg h part user c k m' \<and> user (dev m') = user (dev m) \<and>
     (ret = 0 \<longrightarrow> b' = disk_bytes (user (dev m)) (512 * b) rest)"
proof -
  have c9: "read_blkbits (card m) = 9" using mmc_io_blkbits [OF i] .
  have q: "length tbl div 512 = cnt" "length tbl - cnt * 512 = rest" using l by simp_all
  have u: "unat (of_nat b :: u32) = b" using b by (intro unat_of_nat32) simp
  have r: "blocks_in_range (of_nat b) 1" using u b by (simp add: blocks_in_range_def)
  obtain m2 b2 r2 where 2: "mmc_read_internal cfg h m (of_nat b) 1 (replicate 512 0) 0 = Some (m2, b2, r2)"
    "mmc_io_inv cfg h part user c k m2" "user (dev m2) = user (dev m)" "length b2 = 512"
    "r2 = 0 \<Longrightarrow> b2 = disk_bytes (user (dev m)) (512 * b) 512"
    using mmc_read_ok [OF i r, of 0 "replicate 512 0"] u by auto
  have p: "put_bytes tbl (cnt * 512) (take rest b2) = Some (take (512 * cnt) tbl @ take rest b2)"
    using l 2(4) by (simp add: put_bytes_def mult.commute)
  have db: "take rest (disk_bytes (user (dev m)) (512 * b) 512) = disk_bytes (user (dev m)) (512 * b) rest"
    using disk_bytes_add [of "user (dev m)" "512 * b" rest "512 - rest"] l(2) by simp
  have e: "pt_read_last cfg h m (int b) tbl =
      (if rest = 0 then Some (m, tbl, 0) else if r2 \<noteq> 0 then Some (m2, tbl, r2)
       else Some (m2, take (512 * cnt) tbl @ take rest b2, 0))"
    using c9 q p 2(1) l by (auto simp: pt_read_last_def Let_def)
  have t: "tbl = take (512 * cnt) tbl @ drop (512 * cnt) tbl" by simp
  consider "rest = 0" | "rest \<noteq> 0" "r2 \<noteq> 0" | "rest \<noteq> 0" "r2 = 0" by blast
  then show ?thesis
  proof cases
    case 1
    then show ?thesis unfolding e using i l(1)
      by (intro exI [of _ m] exI [of _ "[]"] exI [of _ 0]) simp
  next
    case r: 2
    then show ?thesis unfolding e using 2 t
      by (intro exI [of _ m2] exI [of _ "drop (512 * cnt) tbl"] exI [of _ r2]) simp
  next
    case 3
    then show ?thesis unfolding e using 2 db
      by (intro exI [of _ m2] exI [of _ "take rest b2"] exI [of _ 0]) simp
  qed
qed

lemma mmc_read_partition_tbl_spec:
  assumes i: "mmc_io_inv cfg h part user c k m" and km: "kmalloc_succeeds km"
    and off: "get_reserve_partition_off cfg = int (512 * b)" "b < 2 ^ 22" and sz: "sizeof_pt_fmt cfg < 2 ^ 30"
  shows "\<exists>m' pt ret. mmc_read_partition_tbl cfg km h m n = Some (m', Some pt, ret) \<and>
     mmc_io_inv cfg h part user c k m' \<and> user (dev m') = user (dev m) \<and>
     (ret = 0 \<longrightarrow> pt = pt_parse cfg (disk_bytes (user (dev m)) (512 * b) (sizeof_pt_fmt cfg)) \<and> pt_valid cfg pt)"
proof -
  let ?z = "replicate (sizeof_pt_fmt cfg) (0 :: u8)"
  define cnt where "cnt = sizeof_pt_fmt cfg div 512"
  define rest where "rest = sizeof_pt_fmt cfg mod 512"
  have szq: "sizeof_pt_fmt cfg = 512 * cnt + rest" "rest < 512" "cnt < 2 ^ 21"
    using sz by (auto simp: cnt_def rest_def)
  have c9: "read_blkbits (card m) = 9" using mmc_io_blkbits [OF i] .
  obtain x where x: "km n 512 = Some x" using km unfolding kmalloc_succeeds_def by blast
  have d: "drop_bit 9 (int (512 * b)) = int b" by (simp add: drop_bit_eq_div)
  obtain m1 b1 r1 where 1: "pt_read_blocks cfg h m (int b) ?z = Some (m1, b1 @ drop (512 * cnt) ?z, r1)"
    "mmc_io_inv cfg h part user c k m1" "user (dev m1) = user (dev m)" "length b1 = 512 * cnt"
    "r1 = 0 \<Longrightarrow> b1 = disk_bytes (user (dev m)) (512 * b) (512 * cnt)"
    using pt_read_blocks_spec [OF i off(2), of ?z cnt rest] szq by auto
  let ?t = "b1 @ drop (512 * cnt) ?z"
  have lt: "length ?t = 512 * cnt + rest" using 1(4) szq(1) by simp
  obtain m2 b2 r2 where 2: "pt_read_last cfg h m1 (int (b + cnt)) ?t = Some (m2, b1 @ b2, r2)"
    "mmc_io_inv cfg h part user c k m2" "user (dev m2) = user (dev m)"
    "r2 = 0 \<Longrightarrow> b2 = disk_bytes (user (dev m)) (512 * (b + cnt)) rest"
    using pt_read_last_spec [OF 1(2), of "b + cnt" ?t cnt rest] lt szq(2,3) off(2) 1(3,4) by auto
  have all: "r1 = 0 \<Longrightarrow> r2 = 0 \<Longrightarrow> b1 @ b2 = disk_bytes (user (dev m)) (512 * b) (sizeof_pt_fmt cfg)"
    using 1(5) 2(4) disk_bytes_add [of "user (dev m)" "512 * b" "512 * cnt" rest] szq(1)
    by (simp add: algebra_simps)
  have cn: "length ?t div 512 = cnt" using lt szq(2) by simp
  have e: "mmc_read_partition_tbl cfg km h m n =
     (if r1 \<noteq> 0 then Some (m1, Some (pt_parse cfg ?t), r1)
      else if r2 \<noteq> 0 then Some (m2, Some (pt_parse cfg (b1 @ b2)), r2)
      else Some (m2, Some (pt_parse cfg (b1 @ b2)), if pt_valid cfg (pt_parse cfg (b1 @ b2)) then 0 else -1))"
    unfolding mmc_read_partition_tbl_def Let_def c9 off(1) d
    using x 1(1) 2(1) cn by (simp del: length_append)
  show ?thesis unfolding e using 1(2,3) 2(2,3) all by auto
qed

text \<open>A pass appends the copies of the entries with its flag.\<close>

lemma part_pass_spec:
  "pn + length (filter (\<lambda>p. p_mask_flags p = fl) ps) \<le> length tbl \<Longrightarrow>
     part_pass cfg fl lp ps tbl pn =
       Some (take pn tbl @ map (part_copy cfg lp) (filter (\<lambda>p. p_mask_flags p = fl) ps) @
               drop (pn + length (filter (\<lambda>p. p_mask_flags p = fl) ps)) tbl,
             pn + length (filter (\<lambda>p. p_mask_flags p = fl) ps))"
proof (induction ps arbitrary: tbl pn)
  case Nil
  then show ?case by simp
next
  case (Cons p ps)
  then show ?case
    by (auto simp: take_Suc_conv_app_nth take_update_swap drop_update_swap list_update_append)
qed

lemma filter3_length:
  assumes "a \<noteq> b" "b \<noteq> c" "a \<noteq> c"
  shows "length (filter (\<lambda>x. f x = a) xs) + length (filter (\<lambda>x. f x = b) xs) +
    length (filter (\<lambda>x. f x = c) xs) \<le> length xs"
  using assms by (induction xs) auto

section \<open>Properties of the partition and device tree code\<close>

text \<open>A device in memory that never fails, and a card of 1 GiB on it, for the witnesses.\<close>

definition ram_host :: "(u8 \<times> disk) mmc_host" where
  "ram_host = \<lparr>mmc_wait_for_req = \<lambda>(p, dk) mrq sg.
       (let res = \<lparr>cmd_error = 0, data_error = 0, stop_error = 0, bytes_xfered = blocks (data mrq) * blksz (data mrq)\<rparr>
        in case dflags (data mrq) of
             MMC_DATA_READ \<Rightarrow> ((p, dk), disk_bytes dk (req_pos True mrq) (length sg), res)
           | MMC_DATA_WRITE \<Rightarrow> ((p, disk_put dk (req_pos True mrq) sg), sg, res)),
     mmc_switch = \<lambda>(p, dk) v. ((v, dk), 0)\<rparr>"

definition reserved_part :: partitions where
  "reserved_part = \<lparr>p_name = [0x72, 0x65, 0x73], p_size = 0x4000000, p_offset = 0x2400000, p_mask_flags = 0\<rparr>"

definition ram_pt :: mmc_partitions_fmt where
  "ram_pt = \<lparr>magic = [0x4D, 0x50, 0x54, 0], part_num = 1, pt_checksum = 9, pt_partitions = [reserved_part]\<rparr>"

definition ram_cfg :: emmc_cfg where
  "ram_cfg = \<lparr>RESULT_FAIL = 1, RESULT_UNSUP_HOST = 2, MMC_RESERVED_NAME = [0x72, 0x65, 0x73],
     MMC_PARTITIONS_MAGIC = [0x4D, 0x50, 0x54], MAX_MMC_PART_NUM = 32, MAX_MMC_PART_NAME_LEN = 16,
     MMC_BOOT_PARTITION_SIZE = 0x400000, MMC_BOOT_PARTITION_RESERVED = 0x2000000,
     CONFIG_DTB_SIZE = 262144, DTB_CELL_SIZE = 65536, STORE_CODE = 1, STORE_CACHE = 2, STORE_DATA = 4,
     sizeof_pt_fmt = 1304, pt_parse = \<lambda>bs. ram_pt, part_words = \<lambda>p. [9]\<rparr>"

definition ram_card :: mmc_card where
  "ram_card = \<lparr>part_config = 0, read_blkbits = 9, sectors = 0x200000, csd_capacity = 0, card_sd = False,
     is_blockaddr = True, key_stamp = 0\<rparr>"

definition ram_mmc :: "(u8 \<times> disk) mmc" where
  "ram_mmc = \<lparr>card = ram_card, dev = (0, \<lambda>i. 0), claims = 0\<rparr>"

lemma ram_host_dev: "emmc_dev True ram_host fst snd"
  by (auto simp: emmc_dev_def ram_host_def Let_def disk_put_outside split: mmc_data_flag.splits)

lemma ram_live: "mmc_live_inv ram_cfg ram_host fst snd ram_card 0 0x200000 ram_mmc"
proof -
  have "emmc_never_fails ram_host fst"
    by (auto simp: emmc_never_fails_def ram_host_def res_ok_def Let_def split: mmc_data_flag.splits)
  then show ?thesis
    using ram_host_dev
    by (simp add: mmc_live_inv_def mmc_io_inv_def mmc_inv_def ram_cfg_def ram_mmc_def ram_card_def cfg_ok_def
        mmc_capacity_def)
qed

lemma ram_reserved: "reserved_at ram_cfg ram_pt 0x2400000"
  by (simp add: reserved_at_def get_reserve_partition_off_from_tbl_def ram_cfg_def ram_pt_def reserved_part_def)

lemma ram_km: "kmalloc_succeeds (\<lambda>n sz. Some (replicate sz 0))"
  by (simp add: kmalloc_succeeds_def)

lemma ram_cfg_sizes: "CONFIG_DTB_SIZE ram_cfg = 262144" "DTB_CELL_SIZE ram_cfg = 512 * 128"
  by (simp_all add: ram_cfg_def)

text \<open>C11: What a device tree write leaves on the card.  Whatever transfers fail, the write ends, changes
  nothing outside the two copies and keeps the card description and the claim count; when it
  returns 0 both copies hold the buffer with its trailing fields set, and that buffer passes the
  checksum test and has the next time stamp.\<close>

theorem dtb_write_both_copies:
  assumes i: "mmc_io_inv cfg h part user c k m" and s: "CONFIG_DTB_SIZE cfg = AREA_SIZE"
    and pt: "reserved_at cfg pt off" and b: "length buf = AREA_SIZE" and l: "len \<le> AREA_SIZE"
  shows "\<exists>m' buf' ret. amlmmc_dtb_write cfg h pt m info buf len = Some (m', buf', ret) \<and>
     card m' = card m \<and> claims m' = claims m \<and>
     disk_same_outside (user (dev m)) (user (dev m')) (off + 0x400000) (2 * AREA_SIZE) \<and>
     take DTB_MAGIC_OFF buf' = take DTB_MAGIC_OFF buf \<and> verify_dtb_checksum buf' = Some 0 \<and>
     rd32 buf' DTB_TIMESTAMP_OFF = Some (dtb_next_stamp info) \<and>
     (ret = 0 \<longrightarrow> (\<forall>cpy < 2. disk_bytes (user (dev m')) (off + 0x400000 + cpy * AREA_SIZE) AREA_SIZE = buf'))"
proof -
  obtain m' buf' ret where w: "amlmmc_dtb_write cfg h pt m info buf len = Some (m', buf', ret)"
    "mmc_io_inv cfg h part user c k m'" "dtb_seal info buf = Some buf'"
    "disk_same_outside (user (dev m)) (user (dev m')) (off + 0x400000) (2 * AREA_SIZE)"
    "ret = 0 \<longrightarrow> (\<forall>cpy < 2. disk_bytes (user (dev m')) (off + 0x400000 + cpy * AREA_SIZE) AREA_SIZE = buf')"
    using amlmmc_dtb_write_spec [OF assms, of info] by blast
  show ?thesis
    using w dtb_seal_ok [OF b, of info] i by (auto simp: mmc_io_inv_def)
qed

theorem dtb_write_both_copies_witness:
  "\<exists>m' buf' ret. amlmmc_dtb_write ram_cfg ram_host ram_pt ram_mmc \<lparr>stamp = [3, 7], valid = [1, 1]\<rparr>
       (replicate 262144 0) 262144 = Some (m', buf', ret) \<and> card m' = ram_card \<and>
     rd32 buf' 262136 = Some 8"
proof -
  have "dtb_next_stamp \<lparr>stamp = [3, 7], valid = [1, 1]\<rparr> = 8"
    by (simp add: dtb_next_stamp_def stamp_after_def)
  moreover have "card ram_mmc = ram_card" by (simp add: ram_mmc_def)
  ultimately show ?thesis
    using dtb_write_both_copies [OF mmc_live_io [OF ram_live] ram_cfg_sizes(1) ram_reserved,
        of "replicate 262144 0" 262144 "\<lparr>stamp = [3, 7], valid = [1, 1]\<rparr>"] by fastforce
qed

text \<open>C12: A written device tree is found at the next start: on a device that does not fail, the write
  returns 0 and a following \<open>_dtb_init\<close> verifies both copies, records the stamp written for both
  and leaves the written tree in the buffer.\<close>

theorem dtb_write_then_init:
  assumes i: "mmc_live_inv cfg h part user c k cap m" and s: "CONFIG_DTB_SIZE cfg = AREA_SIZE"
    and pt: "reserved_at cfg pt off" and b: "length buf = AREA_SIZE"
    and cap: "off + 0x400000 + 2 * AREA_SIZE < 512 * cap" and km: "kmalloc_succeeds km"
  shows "\<exists>m' buf' s'. amlmmc_dtb_write cfg h pt m info buf AREA_SIZE = Some (m', buf', 0) \<and>
     dtb_init cfg km h pt \<lparr>dmmc = m', glb_dtb_buf = None, dtb_infos = \<lparr>stamp = [0, 0], valid = [0, 0]\<rparr>, dticks = n\<rparr> =
       Some (s', 0) \<and>
     glb_dtb_buf s' = Some buf' \<and> stamp (dtb_infos s') = [dtb_next_stamp info, dtb_next_stamp info] \<and>
     valid (dtb_infos s') = [1, 1] \<and> take DTB_MAGIC_OFF buf' = take DTB_MAGIC_OFF buf"
proof -
  obtain m' buf' where w: "amlmmc_dtb_write cfg h pt m info buf AREA_SIZE = Some (m', buf', 0)"
    "mmc_live_inv cfg h part user c k cap m'" "dtb_seal info buf = Some buf'"
    "\<forall>cpy < 2. disk_bytes (user (dev m')) (off + 0x400000 + cpy * AREA_SIZE) AREA_SIZE = buf'"
    using amlmmc_dtb_write_live [OF i s pt b _ cap, of AREA_SIZE info] by auto
  have v: "verify_dtb_checksum buf' = Some 0" "rd32 buf' DTB_TIMESTAMP_OFF = Some (dtb_next_stamp info)"
    "take DTB_MAGIC_OFF buf' = take DTB_MAGIC_OFF buf"
    using dtb_seal_ok [OF b, of info] w(3) by auto
  let ?s = "\<lparr>dmmc = m', glb_dtb_buf = None, dtb_infos = \<lparr>stamp = [0, 0], valid = [0, 0]\<rparr>, dticks = n\<rparr>"
  have lv: "mmc_live_inv cfg h part user c k cap (dmmc ?s)" using w(2) by simp
  show ?thesis
    using dtb_init_done [OF lv s pt cap km _ _ _ _ v(1,2)] w v(3) by auto
qed

theorem dtb_write_then_init_witness:
  "\<exists>m' buf' s'. amlmmc_dtb_write ram_cfg ram_host ram_pt ram_mmc \<lparr>stamp = [3, 7], valid = [1, 0]\<rparr>
       (replicate 262144 5) 262144 = Some (m', buf', 0) \<and>
     dtb_init ram_cfg (\<lambda>n sz. Some (replicate sz 0)) ram_host ram_pt
       \<lparr>dmmc = m', glb_dtb_buf = None, dtb_infos = \<lparr>stamp = [0, 0], valid = [0, 0]\<rparr>, dticks = 0\<rparr> = Some (s', 0) \<and>
     glb_dtb_buf s' = Some buf' \<and> stamp (dtb_infos s') = [4, 4]"
proof -
  have "dtb_next_stamp \<lparr>stamp = [3, 7], valid = [1, 0]\<rparr> = 4" by (simp add: dtb_next_stamp_def)
  then show ?thesis
    using dtb_write_then_init [OF ram_live ram_cfg_sizes(1) ram_reserved _ _ ram_km,
        of "replicate 262144 5" "\<lparr>stamp = [3, 7], valid = [1, 0]\<rparr>" 0] by fastforce
qed

text \<open>C13: The device file gives back what was written to it.  With the reserved partition at 36 MiB, the
  place the read side assumes, a write of user bytes at position 0 followed by a read of as many
  bytes returns exactly those bytes, as long as they end before the trailing fields.\<close>

theorem mmc_dtb_file_roundtrip:
  assumes i: "mmc_live_inv cfg h part user c k cap (dmmc s)" and cs: "CONFIG_DTB_SIZE cfg = AREA_SIZE"
    and q: "DTB_CELL_SIZE cfg = 512 * q" "t * (512 * q) = AREA_SIZE"
    and pt: "reserved_at cfg pt 0x2400000" and cap: "0x2800000 + 2 * AREA_SIZE < 512 * cap"
    and km: "kmalloc_succeeds km" and g: "glb_dtb_buf s = Some g" "length g = AREA_SIZE"
    and u: "length ubuf \<le> DTB_MAGIC_OFF" "length ubuf \<le> n"
  shows "\<exists>s1 s2. mmc_dtb_write cfg h pt s n ubuf 0 = Some (s1, length ubuf, int (length ubuf)) \<and>
     mmc_dtb_read cfg km h s1 n (length ubuf) 0 = Some (s2, ubuf, length ubuf, int (length ubuf))"
proof -
  let ?b = "ubuf @ drop (length ubuf) g"
  have p: "put_bytes g 0 ubuf = Some ?b" and lb: "length ?b = AREA_SIZE"
    using u(1) g(2) by (simp_all add: put_bytes_def)
  obtain m1 b1 where w: "amlmmc_dtb_write cfg h pt (mmc_claim_host (dmmc s)) (dtb_infos s) ?b AREA_SIZE = Some (m1, b1, 0)"
    "mmc_live_inv cfg h part user c (k + 1) cap m1" "dtb_seal (dtb_infos s) ?b = Some b1"
    "disk_bytes (user (dev m1)) 0x2800000 AREA_SIZE = b1"
    using amlmmc_dtb_write_live [OF mmc_live_claim [OF i] cs pt lb, of AREA_SIZE "dtb_infos s"] cap by fastforce
  have b1: "length b1 = AREA_SIZE" "take DTB_MAGIC_OFF b1 = take DTB_MAGIC_OFF ?b"
    using dtb_seal_ok [OF lb, of "dtb_infos s"] w(3) by auto
  have pre: "take (length ubuf) b1 = ubuf"
    using arg_cong [OF b1(2), of "take (length ubuf)"] u(1) by (simp add: min_absorb1)
  define s1 where "s1 = s\<lparr>dmmc := mmc_release_host m1, glb_dtb_buf := Some b1\<rparr>"
  have e1: "mmc_dtb_write cfg h pt s n ubuf 0 = Some (s1, length ubuf, int (length ubuf))"
    using u g p cs w(1) by (simp add: mmc_dtb_write_def s1_def Let_def)
  obtain m2 where r: "amlmmc_dtb_read cfg km h (dticks s1) (mmc_claim_host (dmmc s1)) b1 AREA_SIZE = Some (m2, b1, 0)"
    using amlmmc_dtb_read_done [OF mmc_live_claim [OF mmc_live_release [OF w(2)]] cs q km _ b1(1), of "dticks s1"] cap w(4)
    by (auto simp: s1_def)
  have gb: "get_bytes b1 0 (length ubuf) = Some ubuf" using pre b1(1) u(1) by (simp add: get_bytes_def)
  have e2: "\<exists>s2. mmc_dtb_read cfg km h s1 n (length ubuf) 0 = Some (s2, ubuf, length ubuf, int (length ubuf))"
    using r u gb cs by (simp add: mmc_dtb_read_def s1_def Let_def)
  show ?thesis using e1 e2 by blast
qed

theorem mmc_dtb_file_roundtrip_witness:
  "let s = \<lparr>dmmc = ram_mmc, glb_dtb_buf = Some (replicate 262144 0),
            dtb_infos = \<lparr>stamp = [0, 0], valid = [0, 0]\<rparr>, dticks = 0\<rparr>
   in \<exists>s1 s2. mmc_dtb_write ram_cfg ram_host ram_pt s 9 [0xD0] 0 = Some (s1, 1, 1) \<and>
     mmc_dtb_read ram_cfg (\<lambda>n sz. Some (replicate sz 0)) ram_host s1 9 1 0 = Some (s2, [0xD0], 1, 1)"
proof -
  let ?s = "\<lparr>dmmc = ram_mmc, glb_dtb_buf = Some (replicate 262144 0),
            dtb_infos = \<lparr>stamp = [0, 0], valid = [0, 0]\<rparr>, dticks = 0\<rparr>"
  have i: "mmc_live_inv ram_cfg ram_host fst snd ram_card 0 0x200000 (dmmc ?s)" using ram_live by simp
  show ?thesis
    using mmc_dtb_file_roundtrip [OF i ram_cfg_sizes(1) ram_cfg_sizes(2) _ ram_reserved _ ram_km,
        of 4 "replicate 262144 0" "[0xD0]" 9] by simp
qed

text \<open>C14: The partition table is what the card holds: \<open>mmc_read_partition_tbl\<close> always ends without
  writing to the card, and when it returns 0 the table is the one of the bytes at the start of the
  reserved area, with the right magic, a number of entries in range and a matching checksum.\<close>

theorem partition_tbl_from_card:
  assumes i: "mmc_io_inv cfg h part user c k m" and km: "kmalloc_succeeds km"
    and off: "get_reserve_partition_off cfg = int (512 * b)" "b < 2 ^ 22" and sz: "sizeof_pt_fmt cfg < 2 ^ 30"
  shows "\<exists>m' pt ret. mmc_read_partition_tbl cfg km h m n = Some (m', Some pt, ret) \<and>
     user (dev m') = user (dev m) \<and> card m' = card m \<and>
     (ret = 0 \<longrightarrow> pt = pt_parse cfg (disk_bytes (user (dev m)) (512 * b) (sizeof_pt_fmt cfg)) \<and>
        strncmp_eq (magic pt) (MMC_PARTITIONS_MAGIC cfg) (length (magic pt)) \<and>
        0 < part_num pt \<and> part_num pt \<le> int (MAX_MMC_PART_NUM cfg) \<and>
        pt_checksum pt = mmc_partition_tbl_checksum_calc cfg (pt_partitions pt) (part_num pt))"
  using mmc_read_partition_tbl_spec [OF assms, of n] i
  by (auto simp: mmc_io_inv_def pt_valid_def)

theorem partition_tbl_from_card_witness:
  "\<exists>m' pt ret. mmc_read_partition_tbl ram_cfg (\<lambda>n sz. Some (replicate sz 0)) ram_host ram_mmc 0 =
     Some (m', Some pt, ret) \<and> card m' = card ram_mmc"
proof -
  have "get_reserve_partition_off ram_cfg = int (512 * 73728)" "sizeof_pt_fmt ram_cfg < 2 ^ 30"
    by (simp_all add: get_reserve_partition_off_def ram_cfg_def)
  from partition_tbl_from_card [OF mmc_live_io [OF ram_live] ram_km this(1) _ this(2), of 0]
  show ?thesis by auto
qed

text \<open>The partition checksum is blind to all entries but the first: it is the number of entries
  times the word sum of entry 0, so two tables that share that entry have the same checksum.\<close>

theorem partition_checksum_first_entry_only:
  "mmc_partition_tbl_checksum_calc cfg part n =
     sint (of_nat (nat n) * sum_list (part_words cfg (part ! 0)) :: u32)"
proof -
  have f: "foldl (+) a ws = a + sum_list ws" for a :: u32 and ws
    by (induction ws arbitrary: a) (simp_all add: add.assoc)
  have "part_checksum_loop ws i a = a + of_nat i * sum_list ws" for ws i a
    by (induction i arbitrary: a) (simp_all add: f algebra_simps)
  then show ?thesis by (simp add: mmc_partition_tbl_checksum_calc_def)
qed

text \<open>C15: The sysfs table is the code, cache and data entries of the partition table, in this order and
  each group in the order of the table, with the size of \<open>data\<close> set to -1; it fits the array, whose
  remaining places keep the allocator's bytes.\<close>

theorem emmc_part_table_groups:
  assumes f: "STORE_CODE cfg \<noteq> STORE_CACHE cfg" "STORE_CACHE cfg \<noteq> STORE_DATA cfg" "STORE_CODE cfg \<noteq> STORE_DATA cfg"
    and j: "length junk = MAX_MMC_PART_NUM cfg" and tm: "length tmp = MAX_MMC_PART_NUM cfg"
  shows "let sel = (\<lambda>fl. filter (\<lambda>p. p_mask_flags p = fl) tmp);
             out = map (part_copy cfg False) (sel (STORE_CODE cfg)) @
                   map (part_copy cfg False) (sel (STORE_CACHE cfg)) @
                   map (part_copy cfg True) (sel (STORE_DATA cfg))
         in length out \<le> MAX_MMC_PART_NUM cfg \<and>
            emmc_part_table_get cfg (Some junk) tmp = Some (Inr (out @ drop (length out) junk))"
proof -
  have l: "length (filter (\<lambda>p. p_mask_flags p = STORE_CODE cfg) tmp) +
     length (filter (\<lambda>p. p_mask_flags p = STORE_CACHE cfg) tmp) +
     length (filter (\<lambda>p. p_mask_flags p = STORE_DATA cfg) tmp) \<le> length tmp"
    by (rule filter3_length [OF f])
  then show ?thesis
    using j tm by (simp add: emmc_part_table_get_def part_pass_spec Let_def ac_simps)
qed

theorem emmc_part_table_groups_witness:
  "length (map (part_copy ram_cfg False) (replicate 32 (reserved_part\<lparr>p_mask_flags := 1\<rparr>))) \<le> 32 \<and>
   emmc_part_table_get ram_cfg (Some (replicate 32 reserved_part)) (replicate 32 (reserved_part\<lparr>p_mask_flags := 1\<rparr>)) =
     Some (Inr (map (part_copy ram_cfg False) (replicate 32 (reserved_part\<lparr>p_mask_flags := 1\<rparr>))))"
proof -
  have f: "STORE_CODE ram_cfg = 1" "STORE_CACHE ram_cfg = 2" "STORE_DATA ram_cfg = 4" "MAX_MMC_PART_NUM ram_cfg = 32"
    by (simp_all add: ram_cfg_def)
  show ?thesis
    using emmc_part_table_groups [of ram_cfg "replicate 32 reserved_part" "replicate 32 (reserved_part\<lparr>p_mask_flags := 1\<rparr>)"]
    by (simp add: f Let_def)
qed

text \<open>The result of a transfer is lost when the partition had to be switched: if the card was on
  another partition and both switches succeed, \<open>mmc_transfer\<close> returns 0 whatever the
  transfer itself reported.\<close>

theorem mmc_transfer_switch_hides_error:
  assumes "part_config (card m) AND EXT_CSD_PART_CONFIG_ACC_MASK \<noteq> 0"
    and "\<And>d v. snd (mmc_switch h d v) = 0"
    and "mmc_transfer cfg h m blk n buf off w = Some (m', buf', ret)"
    and "mmc_capacity ((card m)\<lparr>part_config := part_config (card m) AND NOT EXT_CSD_PART_CONFIG_ACC_MASK\<rparr>) = Some cap"
    and "\<not> cap \<le> blk + n"
  shows "ret = 0"
  using assms by (auto simp: mmc_transfer_def Let_def case_prod_beta Option.bind_eq_Some_conv split: if_splits)

definition dead_host :: "u8 mmc_host" where
  "dead_host = \<lparr>mmc_wait_for_req = \<lambda>d mrq sg. (d, sg, \<lparr>cmd_error = -110, data_error = 0, stop_error = 0, bytes_xfered = 0\<rparr>),
     mmc_switch = \<lambda>d v. (v, 0)\<rparr>"

theorem mmc_transfer_switch_hides_error_witness:
  "\<exists>m' buf'. mmc_transfer ram_cfg dead_host \<lparr>card = ram_card\<lparr>part_config := 1\<rparr>, dev = 1, claims = 0\<rparr>
     5 1 (replicate 512 0) 0 True = Some (m', buf', 0)"
proof -
  let ?m = "\<lparr>card = ram_card\<lparr>part_config := 1\<rparr>, dev = 1, claims = 0\<rparr> :: u8 mmc"
  have "\<exists>m' buf' ret. mmc_transfer ram_cfg dead_host ?m 5 1 (replicate 512 0) 0 True = Some (m', buf', ret)"
    by (simp add: mmc_transfer_def dead_host_def ram_card_def mmc_capacity_def mmc_do_req_def get_bytes_def Let_def)
  then obtain m' buf' ret where
    "mmc_transfer ram_cfg dead_host ?m 5 1 (replicate 512 0) 0 True = Some (m', buf', ret)" by blast
  moreover have "ret = 0"
    by (rule mmc_transfer_switch_hides_error [OF _ _ calculation, where cap = "0x200000"])
      (simp_all add: dead_host_def ram_card_def mmc_capacity_def)
  ultimately show ?thesis by blast
qed

end
