(* ===== verification/Emmc_Key.thy ===== *)
theory Emmc_Key
  imports Emmc_Partitions
begin

unbundle bit_operations_syntax

text \<open>
  The key area of \<open>soc/amlogic/mmc/emmc_key.c\<close>: two copies of 256 KiB behind the partition
  table of the reserved partition, followed by one block of information (checksum, stamp, magic)
  for each.  The file is modelled with \<open>KEY_BACKUP\<close> defined, as it is in the source.

  The state \<open>ek_state\<close> holds the card, the two \<open>key_infos\<close> and the number of allocator calls;
  what the functions take from outside is collected in \<open>emmc_env\<close>.
\<close>

section \<open>State and addresses\<close>

record aml_key_info =
  ki_checksum :: u64
  ki_stamp :: u32
  ki_magic :: u32

record 'd ek_state =
  kmmc :: "'d mmc"
  key_infos :: "aml_key_info list"
  kticks :: nat

record 'd emmc_env =
  e_cfg :: emmc_cfg
  e_km :: kmalloc_t
  e_host :: "'d mmc_host"
  e_pt :: mmc_partitions_fmt

abbreviation (input) EMMC_KEYAREA_SIZE :: nat where "EMMC_KEYAREA_SIZE \<equiv> 262144"
abbreviation (input) EMMC_KEYAREA_COUNT :: nat where "EMMC_KEYAREA_COUNT \<equiv> 2"
abbreviation (input) EMMCKEY_RESERVE_OFFSET :: int where "EMMCKEY_RESERVE_OFFSET \<equiv> 0x4000"

definition key_info_bytes :: "aml_key_info \<Rightarrow> u8 list" where
  "key_info_bytes i = le64 (ki_checksum i) @ le32 (ki_stamp i) @ le32 (ki_magic i)"

definition key_info_read :: "u8 list \<Rightarrow> aml_key_info option" where
  "key_info_read bs =
     do { c \<leftarrow> rd64 bs 0; st \<leftarrow> rd32 bs 8; mg \<leftarrow> rd32 bs 12; Some \<lparr>ki_checksum = c, ki_stamp = st, ki_magic = mg\<rparr> }"

text \<open>The first block of copy \<open>idx\<close>, and the block of its information.\<close>

definition key_blk :: "int \<Rightarrow> nat \<Rightarrow> int \<Rightarrow> u32" where
  "key_blk off blkbits idx =
     ucast (drop_bit blkbits (of_int (off + EMMCKEY_RESERVE_OFFSET + idx * int EMMC_KEYAREA_SIZE) :: u64))"

definition info_blk :: "int \<Rightarrow> nat \<Rightarrow> int \<Rightarrow> u32" where
  "info_blk off blkbits idx =
     ucast (drop_bit blkbits (of_int (off + EMMCKEY_RESERVE_OFFSET + 2 * int EMMC_KEYAREA_SIZE) :: u64) + of_int idx)"

abbreviation key_bits :: "'d ek_state \<Rightarrow> nat" where "key_bits s \<equiv> read_blkbits (card (kmmc s))"

definition key_off :: "'d emmc_env \<Rightarrow> int option" where
  "key_off e = get_reserve_partition_off_from_tbl (e_cfg e) (e_pt e)"

section \<open>Operations\<close>

definition emmc_read_valid_key ::
    "'d emmc_env \<Rightarrow> 'd ek_state \<Rightarrow> u8 list \<Rightarrow> int \<Rightarrow> ('d ek_state \<times> u8 list \<times> int) option" where
  "emmc_read_valid_key e s buffer valid_flag =
     do {
       off \<leftarrow> key_off e;
       let blk = key_blk off (key_bits s) (valid_flag - 1);
       let cnt = int (drop_bit (key_bits s) EMMC_KEYAREA_SIZE);
       (m, buffer, ret) \<leftarrow> chunk_loop (mmc_read_internal (e_cfg e) (e_host e)) (mmc_claim_host (kmmc s))
                              blk cnt buffer 0;
       Some (s\<lparr>kmmc := mmc_release_host m\<rparr>, buffer, ret)
     }"

definition calc_key_checksum :: "u8 list \<Rightarrow> int \<Rightarrow> u64 option" where
  "calc_key_checksum addr sz = checksum_loop addr 0 (nat (drop_bit 2 sz)) 0"

text \<open>Copy \<open>valid_flag mod 2\<close> is written with the information of index \<open>valid_flag - 1\<close>.  When
  the copy cannot be written, the function leaves without releasing the host.\<close>

definition emmc_write_one_key ::
    "'d emmc_env \<Rightarrow> 'd ek_state \<Rightarrow> u8 list \<Rightarrow> int \<Rightarrow> ('d ek_state \<times> int) option" where
  "emmc_write_one_key e s buffer valid_flag =
     (case e_km e (kticks s) 512 of
        None \<Rightarrow> Some (s\<lparr>kticks := Suc (kticks s)\<rparr>, -1)
      | Some ci \<Rightarrow> do {
          let s = s\<lparr>kticks := Suc (kticks s)\<rparr>;
          off \<leftarrow> key_off e;
          info \<leftarrow> (if 1 \<le> valid_flag \<and> valid_flag \<le> int (length (key_infos s))
                   then Some (key_infos s ! nat (valid_flag - 1)) else None);
          checksum_info \<leftarrow> put_bytes (replicate (length ci) 0) 0 (key_info_bytes info);
          let cnt = int (drop_bit (key_bits s) EMMC_KEYAREA_SIZE);
          (m, buffer, ret) \<leftarrow> chunk_loop (mmc_write_internal (e_cfg e) (e_host e)) (mmc_claim_host (kmmc s))
                                (key_blk off (key_bits s) (valid_flag mod 2)) cnt buffer 0;
          if ret \<noteq> 0 then Some (s\<lparr>kmmc := m\<rparr>, ret)
          else do {
            (m, _, ret) \<leftarrow> mmc_write_internal (e_cfg e) (e_host e) m
                             (info_blk off (key_bits s) (valid_flag mod 2)) 1 checksum_info 0;
            Some (s\<lparr>kmmc := mmc_release_host m\<rparr>, ret)
          }
        })"

definition set_key_stamp :: "u32 \<Rightarrow> 'd ek_state \<Rightarrow> 'd ek_state" where
  "set_key_stamp st s = s\<lparr>kmmc := (kmmc s)\<lparr>card := (card (kmmc s))\<lparr>key_stamp := st\<rparr>\<rparr>\<rparr>"

definition update_old_key :: "'d emmc_env \<Rightarrow> 'd ek_state \<Rightarrow> u8 list \<Rightarrow> ('d ek_state \<times> int) option" where
  "update_old_key e s addr =
     (let k = key_infos s;
          go = (\<lambda>k valid_flag. do {
            (s, ret) \<leftarrow> emmc_write_one_key e (s\<lparr>key_infos := k\<rparr>) addr valid_flag;
            if ret \<noteq> 0 then Some (s, ret) else Some (set_key_stamp (ki_stamp (key_infos s ! 0)) s, ret)
          })
      in if stamp_after (ki_stamp (k ! 1)) (ki_stamp (k ! 0)) then go (k[1 := k ! 0]) 2
         else if stamp_after (ki_stamp (k ! 0)) (ki_stamp (k ! 1)) then go (k[0 := k ! 1]) 1
         else Some (s, 0))"

definition verify_key_checksum ::
    "'d emmc_env \<Rightarrow> 'd ek_state \<Rightarrow> u8 list \<Rightarrow> nat \<Rightarrow> ('d ek_state \<times> int) option" where
  "verify_key_checksum e s addr cpy =
     do {
       off \<leftarrow> key_off e;
       case e_km e (kticks s) 512 of
         None \<Rightarrow> Some (s\<lparr>kticks := Suc (kticks s)\<rparr>, -1)
       | Some ci \<Rightarrow> do {
           let s = s\<lparr>kticks := Suc (kticks s)\<rparr>;
           (m, ci, ret) \<leftarrow> mmc_read_internal (e_cfg e) (e_host e) (mmc_claim_host (kmmc s))
                             (info_blk off (key_bits s) (int cpy)) 1 ci 0;
           let s = s\<lparr>kmmc := mmc_release_host m\<rparr>;
           if ret \<noteq> 0 then Some (s, ret)
           else do {
             info \<leftarrow> key_info_read ci;
             checksum \<leftarrow> calc_key_checksum addr (int EMMC_KEYAREA_SIZE);
             Some (s\<lparr>key_infos := (key_infos s)[cpy := info]\<rparr>,
                   if checksum = ki_checksum info then 0 else 1)
           }
         }
     }"

definition write_invalid_key ::
    "'d emmc_env \<Rightarrow> 'd ek_state \<Rightarrow> u8 list \<Rightarrow> int \<Rightarrow> ('d ek_state \<times> u8 list \<times> int) option" where
  "write_invalid_key e s addr valid_flag =
     (if valid_flag > 2 \<or> valid_flag < 1 then Some (s, addr, -1)
      else do {
        (s, addr, ret) \<leftarrow> emmc_read_valid_key e s addr valid_flag;
        if ret \<noteq> 0 then Some (s, addr, ret)
        else do {
          (s, ret) \<leftarrow> emmc_write_one_key e s addr valid_flag;
          Some (s, addr, ret)
        }
      })"

definition amlmmc_read ::
    "'d emmc_env \<Rightarrow> 'd ek_state \<Rightarrow> u32 \<Rightarrow> u8 list \<Rightarrow> int \<Rightarrow> ('d ek_state \<times> u8 list \<times> int) option" where
  "amlmmc_read e s blk buf cnt =
     do {
       (m, buf, ret) \<leftarrow> chunk_loop (mmc_read_internal (e_cfg e) (e_host e)) (mmc_claim_host (kmmc s))
                          blk cnt buf 0;
       Some (s\<lparr>kmmc := mmc_release_host m\<rparr>, buf, if ret \<noteq> 0 then - EFAULT else ret)
     }"

text \<open>One round of the loop of \<open>update_key_info\<close>.\<close>

definition update_key_copy ::
    "'d emmc_env \<Rightarrow> nat \<Rightarrow> 'd ek_state \<times> u8 list \<times> int \<Rightarrow> ('d ek_state \<times> u8 list \<times> int) option" where
  "update_key_copy e cpy st =
     (case st of (s, addr, valid_flag) \<Rightarrow> do {
       off \<leftarrow> key_off e;
       (s, addr, err) \<leftarrow> amlmmc_read e s (key_blk off (key_bits s) (int cpy)) addr
                           (int (drop_bit (key_bits s) EMMC_KEYAREA_SIZE));
       if err \<noteq> 0 then Some (s, addr, valid_flag)
       else do {
         (s, ret) \<leftarrow> verify_key_checksum e s addr cpy;
         if ret = 0 \<and> ki_magic (key_infos s ! cpy) \<noteq> 0
         then Some (s, addr, valid_flag + (int cpy + 1))
         else Some (s, addr, valid_flag)
       }
     })"

definition update_key_info :: "'d emmc_env \<Rightarrow> 'd ek_state \<Rightarrow> u8 list \<Rightarrow> ('d ek_state \<times> u8 list \<times> int) option" where
  "update_key_info e s addr =
     do {
       st \<leftarrow> update_key_copy e 1 (s, addr, 0);
       (s, addr, valid_flag) \<leftarrow> update_key_copy e 0 st;
       let k = key_infos s;
       Some (set_key_stamp (if ki_stamp (k ! 0) > ki_stamp (k ! 1) then ki_stamp (k ! 0) else ki_stamp (k ! 1)) s,
             addr, valid_flag)
     }"

definition key_init :: "'d emmc_env \<Rightarrow> 'd ek_state \<Rightarrow> ('d ek_state \<times> int) option" where
  "key_init e s =
     (case e_km e (kticks s) EMMC_KEYAREA_SIZE of
        None \<Rightarrow> Some (s\<lparr>kticks := Suc (kticks s)\<rparr>, - ENOMEM)
      | Some key \<Rightarrow> do {
          (s, key, vf) \<leftarrow> update_key_info e (s\<lparr>kticks := Suc (kticks s)\<rparr>) key;
          if vf = 1 then do { (s, _, _) \<leftarrow> write_invalid_key e s key 1; Some (s, 0) }
          else if vf = 2 then do { (s, _, _) \<leftarrow> write_invalid_key e s key 2; Some (s, 0) }
          else if vf = 3 then do { (s, _) \<leftarrow> update_old_key e s key; Some (s, 0) }
          else Some (s, 0)
        })"

text \<open>One round of \<open>emmc_key_write\<close>: the new information of copy \<open>cpy\<close>, then the copy.\<close>

definition key_write_copy ::
    "'d emmc_env \<Rightarrow> 'd ek_state \<Rightarrow> u8 list \<Rightarrow> u32 \<Rightarrow> nat \<Rightarrow> ('d ek_state \<times> int) option" where
  "key_write_copy e s buffer len cpy =
     do {
       ck \<leftarrow> calc_key_checksum buffer (sint len);
       let info = \<lparr>ki_checksum = ck, ki_stamp = key_stamp (card (kmmc s)) + 1, ki_magic = 9\<rparr>;
       emmc_write_one_key e (s\<lparr>key_infos := (key_infos s)[cpy - 1 := info]\<rparr>) buffer (int cpy)
     }"

definition emmc_key_write ::
    "'d emmc_env \<Rightarrow> 'd ek_state \<Rightarrow> u8 list \<Rightarrow> u32 \<Rightarrow> ('d ek_state \<times> int) option" where
  "emmc_key_write e s buffer len =
     do {
       (s, ret) \<leftarrow> key_write_copy e s buffer len 1;
       if ret \<noteq> 0 then Some (s, ret) else key_write_copy e s buffer len 2
     }"

text \<open>The read loop of \<open>emmc_key_read\<close>: at most 256 blocks a round, until none is left.\<close>

function key_read_loop ::
    "emmc_cfg \<Rightarrow> 'd mmc_host \<Rightarrow> 'd mmc \<Rightarrow> u32 \<Rightarrow> int \<Rightarrow> u8 list \<Rightarrow> nat \<Rightarrow> ('d mmc \<times> u8 list \<times> int) option" where
  "key_read_loop cfg h m blk cnt buf dst =
     do {
       (m, buf, ret) \<leftarrow> mmc_read_internal cfg h m blk (of_int (min 256 cnt)) buf dst;
       if ret \<noteq> 0 then Some (m, buf, ret)
       else if cnt - 256 > 0 then key_read_loop cfg h m (blk + 256) (cnt - 256) buf 131072
       else Some (m, buf, ret)
     }"
  by pat_completeness auto
termination
  by (relation "measure (\<lambda>(cfg, h, m, blk, cnt, buf, dst). nat cnt)") auto

declare key_read_loop.simps [simp del]

text \<open>The results are the state, the buffer, \<open>*actual_length\<close> and the return value.\<close>

definition emmc_key_read ::
    "'d emmc_env \<Rightarrow> 'd ek_state \<Rightarrow> u8 list \<Rightarrow> u32 \<Rightarrow> ('d ek_state \<times> u8 list \<times> u32 \<times> int) option" where
  "emmc_key_read e s buffer len =
     do {
       off \<leftarrow> key_off e;
       (m, buffer, ret) \<leftarrow> key_read_loop (e_cfg e) (e_host e) (mmc_claim_host (kmmc s))
                              (key_blk off (key_bits s) 0) (int (unat (drop_bit (key_bits s) len))) buffer 0;
       Some (s\<lparr>kmmc := mmc_release_host m\<rparr>, buffer, len, ret)
     }"

section \<open>The list of key areas\<close>

record emmckey_valid_node_t =
  phy_addr :: u64
  phy_size :: u64

record aml_emmckey_info_t =
  key_valid_node :: "emmckey_valid_node_t list"
  keyarea_phy_addr :: u64
  keyarea_phy_size :: u64
  lba_start :: u64
  lba_end :: u64
  ek_key_init :: u8
  ek_key_valid :: u8
  key_part_count :: u8

text \<open>The loop of \<open>aml_emmc_key_check\<close> appends one node per copy, with \<open>keypart_cnt\<close> a \<open>u8\<close>;
  \<open>fuel\<close> bounds the rounds, and 256 are enough for any count.\<close>

fun key_check_loop :: "kmalloc_t \<Rightarrow> nat \<Rightarrow> aml_emmckey_info_t \<Rightarrow> u8 \<Rightarrow> nat \<Rightarrow> (aml_emmckey_info_t \<times> nat \<times> int) option" where
  "key_check_loop km 0 info cnt n = None"
| "key_check_loop km (Suc fuel) info cnt n =
     (case km n 24 of
        None \<Rightarrow> Some (info, Suc n, - ENOMEM)
      | Some _ \<Rightarrow>
          (let node = \<lparr>phy_addr = keyarea_phy_addr info + of_nat EMMC_KEYAREA_SIZE * ucast cnt,
                       phy_size = of_nat EMMC_KEYAREA_SIZE\<rparr>;
               info = info\<lparr>ek_key_valid := 0, key_valid_node := key_valid_node info @ [node]\<rparr>
           in if cnt + 1 < key_part_count info then key_check_loop km fuel info (cnt + 1) (Suc n)
              else Some (info\<lparr>ek_key_valid := 1\<rparr>, Suc n, 0)))"

definition aml_emmc_key_check :: "kmalloc_t \<Rightarrow> aml_emmckey_info_t \<Rightarrow> nat \<Rightarrow> (aml_emmckey_info_t \<times> nat \<times> int) option" where
  "aml_emmc_key_check km info n =
     (let count = ucast (keyarea_phy_size info div of_nat EMMC_KEYAREA_SIZE) :: u8;
          count = (if count > of_nat EMMC_KEYAREA_COUNT then of_nat EMMC_KEYAREA_COUNT else count)
      in key_check_loop km 256 (info\<lparr>key_part_count := count\<rparr>) 0 n)"

section \<open>The area on the disk\<close>

definition key_copy :: "nat \<Rightarrow> disk \<Rightarrow> nat \<Rightarrow> u8 list" where
  "key_copy off dk idx = disk_bytes dk (off + 0x4000 + idx * AREA_SIZE) AREA_SIZE"

definition key_inf :: "nat \<Rightarrow> disk \<Rightarrow> nat \<Rightarrow> u8 list" where
  "key_inf off dk idx = disk_bytes dk (off + 0x4000 + 2 * AREA_SIZE + idx * 512) 512"

text \<open>The block an information is stored in, and disks that differ in one copy and its block only.\<close>

definition inf_block :: "aml_key_info \<Rightarrow> u8 list" where
  "inf_block i = key_info_bytes i @ replicate 496 0"

definition only_copy :: "nat \<Rightarrow> nat \<Rightarrow> disk \<Rightarrow> disk \<Rightarrow> bool" where
  "only_copy off idx dk dk' \<longleftrightarrow>
     (\<forall>a. \<not> (off + 0x4000 + idx * AREA_SIZE \<le> a \<and> a < off + 0x4000 + idx * AREA_SIZE + AREA_SIZE) \<longrightarrow>
          \<not> (off + 0x4000 + 2 * AREA_SIZE + idx * 512 \<le> a \<and> a < off + 0x4000 + 2 * AREA_SIZE + idx * 512 + 512) \<longrightarrow>
          dk' a = dk a)"

lemma only_copy_refl [simp]: "only_copy off idx dk dk"
  by (simp add: only_copy_def)

lemma only_copy_area:
  "disk_same_outside dk dk' (off + 0x4000 + idx * AREA_SIZE) AREA_SIZE \<Longrightarrow> only_copy off idx dk dk'"
  by (auto simp: only_copy_def disk_same_outside_def not_less)

lemma only_copy_info:
  "only_copy off idx dk dk1 \<Longrightarrow> disk_same_outside dk1 dk2 (off + 0x4000 + 2 * AREA_SIZE + idx * 512) 512 \<Longrightarrow>
     only_copy off idx dk dk2"
  unfolding only_copy_def disk_same_outside_def by (metis not_less)

lemma only_copy_other:
  assumes "only_copy off idx dk dk'" and "idx < 2" and "j < 2" and "j \<noteq> idx"
  shows "key_copy off dk' j = key_copy off dk j" and "key_inf off dk' j = key_inf off dk j"
proof -
  show "key_copy off dk' j = key_copy off dk j"
    unfolding key_copy_def by (rule disk_bytes_cong) (use assms in \<open>auto simp: only_copy_def less_2_cases_iff\<close>)
  show "key_inf off dk' j = key_inf off dk j"
    unfolding key_inf_def by (rule disk_bytes_cong) (use assms in \<open>auto simp: only_copy_def less_2_cases_iff\<close>)
qed

lemma only_copy_outside:
  "only_copy off idx dk dk' \<Longrightarrow> idx < 2 \<Longrightarrow> disk_same_outside dk dk' (off + 0x4000) (2 * AREA_SIZE + 1024)"
  by (auto simp: only_copy_def disk_same_outside_def less_2_cases_iff)

lemma info_keeps_copies:
  assumes "disk_same_outside dk1 dk2 (off + 0x4000 + 2 * AREA_SIZE + idx * 512) 512" and "j < 2"
  shows "key_copy off dk2 j = key_copy off dk1 j"
  unfolding key_copy_def
  by (rule disk_same_outside_bytes [OF assms(1)]) (use assms(2) in \<open>auto simp: less_2_cases_iff\<close>)

lemma length_key_copy [simp]: "length (key_copy off dk j) = AREA_SIZE" "length (key_inf off dk j) = 512"
  by (simp_all add: key_copy_def key_inf_def)

lemma length_key_info_bytes [simp]: "length (key_info_bytes i) = 16"
  by (simp add: key_info_bytes_def)

text \<open>The information read back from its block is the one stored.\<close>

lemma key_info_read_block: "key_info_read (inf_block i) = Some i"
proof -
  have "rd64 (inf_block i) 0 = Some (ki_checksum i)"
    using f64.fetch_start by (simp add: inf_block_def key_info_bytes_def)
  moreover have "rd32 (inf_block i) 8 = Some (ki_stamp i)"
    using f32.fetch_at [of "le64 (ki_checksum i)" "ki_stamp i"] by (simp add: inf_block_def key_info_bytes_def)
  moreover have "rd32 (inf_block i) 12 = Some (ki_magic i)"
    using f32.fetch_at [of "le64 (ki_checksum i) @ le32 (ki_stamp i)" "ki_magic i"]
    by (simp add: inf_block_def key_info_bytes_def)
  ultimately show ?thesis by (simp add: key_info_read_def)
qed

text \<open>Block numbers as addresses.\<close>

lemma unat_of_nat64: "n < 2 ^ 64 \<Longrightarrow> unat (of_nat n :: u64) = n"
  by (simp add: unat_of_nat take_bit_nat_eq_self)

lemma unat_ucast32: "unat (w :: u64) < 2 ^ 32 \<Longrightarrow> unat (ucast w :: u32) = unat w"
  by (simp add: unsigned_ucast_eq unsigned_take_bit_eq take_bit_nat_eq_self)

lemma unat_drop9: "n < 2 ^ 40 \<Longrightarrow> unat (drop_bit 9 (of_nat n :: u64)) = n div 512"
  using unat_of_nat64 [of n] by (simp add: drop_bit_eq_div unat_div)

lemma key_blk_at:
  assumes "reserved_at cfg pt off" and "idx < 2"
  shows "area_in_range (key_blk (int off) 9 (int idx))"
    and "512 * unat (key_blk (int off) 9 (int idx)) = off + 0x4000 + idx * AREA_SIZE"
proof -
  obtain q where q: "off = 512 * q" using assms(1) by (auto simp: reserved_at_def)
  have b: "off < 2 ^ 31" using reserved_at_bound [OF assms(1)] .
  define a where "a = off + 0x4000 + idx * AREA_SIZE"
  have a: "a < 2 ^ 40" "a = 512 * (q + 32 + idx * 512)" using b q assms(2) by (auto simp: a_def)
  have w: "of_int (int off + 0x4000 + int idx * int AREA_SIZE) = (of_nat a :: u64)"
    by (simp add: a_def)
  have u: "unat (key_blk (int off) 9 (int idx)) = q + 32 + idx * 512"
    using unat_drop9 [OF a(1)] a(2) b q assms(2) unfolding key_blk_def w
    by (subst unat_ucast32) auto
  show "area_in_range (key_blk (int off) 9 (int idx))"
    using u b q assms(2) by (simp add: area_in_range_def)
  show "512 * unat (key_blk (int off) 9 (int idx)) = off + 0x4000 + idx * AREA_SIZE"
    using u q by simp
qed

lemma info_blk_at:
  assumes "reserved_at cfg pt off" and "idx < 2"
  shows "blocks_in_range (info_blk (int off) 9 (int idx)) 1"
    and "512 * unat (info_blk (int off) 9 (int idx)) = off + 0x4000 + 2 * AREA_SIZE + idx * 512"
proof -
  obtain q where q: "off = 512 * q" using assms(1) by (auto simp: reserved_at_def)
  have b: "off < 2 ^ 31" using reserved_at_bound [OF assms(1)] .
  define a where "a = off + 0x4000 + 2 * AREA_SIZE"
  have a: "a < 2 ^ 40" "a = 512 * (q + 1056)" using b q by (auto simp: a_def)
  have w: "of_int (int off + 0x4000 + 2 * int AREA_SIZE) = (of_nat a :: u64)"
    by (simp add: a_def)
  have "unat (drop_bit 9 (of_nat a :: u64)) = q + 1056"
    using unat_drop9 [OF a(1)] a(2) by simp
  then have "drop_bit 9 (of_nat a :: u64) = of_nat (q + 1056)"
    using of_nat_unat [of "drop_bit 9 (of_nat a :: u64)", where 'a = "64 word"] by simp
  then have "drop_bit 9 (of_nat a :: u64) + of_nat idx = of_nat (q + 1056 + idx)" by simp
  then have "unat (drop_bit 9 (of_nat a :: u64) + of_int (int idx)) = q + 1056 + idx"
    using unat_of_nat64 [of "q + 1056 + idx"] b q assms(2) by (simp del: of_nat_add)
  then have u: "unat (info_blk (int off) 9 (int idx)) = q + 1056 + idx"
    using b q assms(2) unfolding info_blk_def w by (subst unat_ucast32) auto
  show "blocks_in_range (info_blk (int off) 9 (int idx)) 1"
    using u b q assms(2) by (simp add: blocks_in_range_def)
  show "512 * unat (info_blk (int off) 9 (int idx)) = off + 0x4000 + 2 * AREA_SIZE + idx * 512"
    using u q by simp
qed

section \<open>Specifications of the operations\<close>

definition ek_io ::
    "'d emmc_env \<Rightarrow> ('d \<Rightarrow> u8) \<Rightarrow> ('d \<Rightarrow> disk) \<Rightarrow> mmc_card \<Rightarrow> int \<Rightarrow> nat \<Rightarrow> 'd ek_state \<Rightarrow> bool" where
  "ek_io e part user c k off s \<longleftrightarrow>
     mmc_io_inv (e_cfg e) (e_host e) part user c k (kmmc s) \<and> length (key_infos s) = 2 \<and>
     reserved_at (e_cfg e) (e_pt e) off \<and> kmalloc_sized (e_km e)"

definition ek_live ::
    "'d emmc_env \<Rightarrow> ('d \<Rightarrow> u8) \<Rightarrow> ('d \<Rightarrow> disk) \<Rightarrow> mmc_card \<Rightarrow> int \<Rightarrow> nat \<Rightarrow> nat \<Rightarrow> 'd ek_state \<Rightarrow> bool" where
  "ek_live e part user c k cap off s \<longleftrightarrow>
     mmc_live_inv (e_cfg e) (e_host e) part user c k cap (kmmc s) \<and> length (key_infos s) = 2 \<and>
     reserved_at (e_cfg e) (e_pt e) off \<and> kmalloc_succeeds (e_km e) \<and>
     off + 0x4000 + 2 * AREA_SIZE + 1024 < 512 * cap"

lemma ek_live_io: "ek_live e part user c k cap off s \<Longrightarrow> ek_io e part user c k off s"
  by (auto simp: ek_live_def ek_io_def intro: mmc_live_io kmalloc_succeeds_sized)

lemma ek_io_off: "ek_io e part user c k off s \<Longrightarrow> key_off e = Some (int off)"
  by (simp add: ek_io_def key_off_def reserved_at_def)

lemma ek_io_bits: "ek_io e part user c k off s \<Longrightarrow> key_bits s = 9"
  by (auto simp: ek_io_def intro: mmc_io_blkbits)

lemma area_blocks: "int (drop_bit 9 (262144 :: nat)) = 512"
  by (simp add: drop_bit_eq_div)

lemma flag_of_copy: "idx < 2 \<Longrightarrow> (2 - int idx) mod 2 = int idx" "idx < 2 \<Longrightarrow> nat (2 - int idx - 1) = 1 - idx"
  "idx < 2 \<Longrightarrow> 1 \<le> 2 - int idx" "idx < 2 \<Longrightarrow> 2 - int idx \<le> 2"
  by (auto simp: less_2_cases_iff)

lemma inf_block_put: "put_bytes (replicate 512 0) 0 (key_info_bytes i) = Some (inf_block i)"
  by (simp add: put_bytes_def inf_block_def)

lemma length_inf_block [simp]: "length (inf_block i) = 512"
  by (simp add: inf_block_def)

text \<open>Writing copy \<open>idx\<close>, whose flag is \<open>2 - idx\<close>: nothing but the copy and its block can change; when 0
  is returned both are written and the host is released.\<close>

lemma emmc_write_one_key_spec:
  assumes i: "ek_io e part user c k off s" and idx: "idx < 2" and b: "AREA_SIZE \<le> length buf"
  shows "\<exists>s' ret k'. emmc_write_one_key e s buf (2 - int idx) = Some (s', ret) \<and>
     ek_io e part user c k' off s' \<and> k' \<in> {k, k + 1} \<and> key_infos s' = key_infos s \<and>
     only_copy off idx (user (dev (kmmc s))) (user (dev (kmmc s'))) \<and>
     (ret = 0 \<longrightarrow> k' = k \<and> key_copy off (user (dev (kmmc s'))) idx = take AREA_SIZE buf \<and>
        key_inf off (user (dev (kmmc s'))) idx = inf_block (key_infos s ! (1 - idx)))"
proof (cases "e_km e (kticks s) 512")
  case None
  then show ?thesis using i by (auto simp: emmc_write_one_key_def ek_io_def)
next
  case (Some ci)
  have io: "mmc_io_inv (e_cfg e) (e_host e) part user c k (kmmc s)" and l2: "length (key_infos s) = 2"
    and pt: "reserved_at (e_cfg e) (e_pt e) off" and lc: "length ci = 512"
    using i Some by (auto simp: ek_io_def kmalloc_sized_def)
  note B = key_blk_at [OF pt idx] and I = info_blk_at [OF pt idx]
  let ?info = "key_infos s ! (1 - idx)"
  obtain m1 r1 where 1: "chunk_loop (mmc_write_internal (e_cfg e) (e_host e)) (mmc_claim_host (kmmc s))
      (key_blk (int off) 9 (int idx)) 512 buf 0 = Some (m1, buf, r1)"
    "mmc_io_inv (e_cfg e) (e_host e) part user c (k + 1) m1"
    "disk_same_outside (user (dev (kmmc s))) (user (dev m1)) (off + 0x4000 + idx * AREA_SIZE) AREA_SIZE"
    "r1 = 0 \<Longrightarrow> disk_bytes (user (dev m1)) (off + 0x4000 + idx * AREA_SIZE) AREA_SIZE = take AREA_SIZE buf"
    using emmc.chunk_write_area [OF mmc_io_claim [OF io] B(1) b] B(2) by auto
  obtain m2 r2 where 2: "mmc_write_internal (e_cfg e) (e_host e) m1 (info_blk (int off) 9 (int idx)) 1
      (inf_block ?info) 0 = Some (m2, inf_block ?info, r2)" "mmc_io_inv (e_cfg e) (e_host e) part user c (k + 1) m2"
    "disk_same_outside (user (dev m1)) (user (dev m2)) (off + 0x4000 + 2 * AREA_SIZE + idx * 512) 512"
    "r2 = 0 \<Longrightarrow> disk_bytes (user (dev m2)) (off + 0x4000 + 2 * AREA_SIZE + idx * 512) 512 = inf_block ?info"
    using emmc.wr_ok [OF 1(2) I(1), of 0 "inf_block ?info"] I(2) by auto
  define s1 where "s1 = s\<lparr>kticks := Suc (kticks s)\<rparr>"
  have e: "emmc_write_one_key e s buf (2 - int idx) =
      (if r1 \<noteq> 0 then Some (s1\<lparr>kmmc := m1\<rparr>, r1) else Some (s1\<lparr>kmmc := mmc_release_host m2\<rparr>, r2))"
    using Some 1(1) 2(1) l2 ek_io_off [OF i] ek_io_bits [OF i] flag_of_copy [OF idx] lc inf_block_put
    by (simp add: emmc_write_one_key_def s1_def area_blocks)
  have oc: "only_copy off idx (user (dev (kmmc s))) (user (dev m1))" using 1(3) by (rule only_copy_area)
  show ?thesis
  proof (cases "r1 = 0")
    case True
    have "key_copy off (user (dev m2)) idx = take AREA_SIZE buf"
      using info_keeps_copies [OF 2(3) idx] 1(4) [OF True] by (simp add: key_copy_def)
    then show ?thesis
      unfolding e using True i 2(4) only_copy_info [OF oc 2(3)] mmc_io_release [OF 2(2)]
      by (intro exI [of _ "s1\<lparr>kmmc := mmc_release_host m2\<rparr>"] exI [of _ r2] exI [of _ k])
        (auto simp: s1_def ek_io_def key_inf_def)
  next
    case False
    then show ?thesis
      unfolding e using i 1(2) oc
      by (intro exI [of _ "s1\<lparr>kmmc := m1\<rparr>"] exI [of _ r1] exI [of _ "k + 1"]) (auto simp: s1_def ek_io_def)
  qed
qed

lemma emmc_write_one_key_done:
  assumes i: "ek_live e part user c k cap off s" and idx: "idx < 2" and b: "AREA_SIZE \<le> length buf"
  shows "\<exists>s'. emmc_write_one_key e s buf (2 - int idx) = Some (s', 0) \<and>
     ek_live e part user c k cap off s' \<and> key_infos s' = key_infos s \<and>
     only_copy off idx (user (dev (kmmc s))) (user (dev (kmmc s'))) \<and>
     key_copy off (user (dev (kmmc s'))) idx = take AREA_SIZE buf \<and>
     key_inf off (user (dev (kmmc s'))) idx = inf_block (key_infos s ! (1 - idx))"
proof -
  have lv: "mmc_live_inv (e_cfg e) (e_host e) part user c k cap (kmmc s)" and l2: "length (key_infos s) = 2"
    and pt: "reserved_at (e_cfg e) (e_pt e) off" and km: "kmalloc_succeeds (e_km e)"
    and cap: "off + 0x4000 + 2 * AREA_SIZE + 1024 < 512 * cap"
    using i by (auto simp: ek_live_def)
  obtain ci where ci: "e_km e (kticks s) 512 = Some ci" "length ci = 512"
    using km unfolding kmalloc_succeeds_def by blast
  note B = key_blk_at [OF pt idx] and I = info_blk_at [OF pt idx]
  let ?info = "key_infos s ! (1 - idx)"
  have cb: "unat (key_blk (int off) 9 (int idx)) + 512 < cap" "unat (info_blk (int off) 9 (int idx)) + 1 < cap"
    using B(2) I(2) cap idx by (auto simp: less_2_cases_iff)
  obtain m1 where 1: "chunk_loop (mmc_write_internal (e_cfg e) (e_host e)) (mmc_claim_host (kmmc s))
      (key_blk (int off) 9 (int idx)) 512 buf 0 = Some (m1, buf, 0)"
    "mmc_live_inv (e_cfg e) (e_host e) part user c (k + 1) cap m1"
    using emmc_live.chunk_write_done [OF mmc_live_claim [OF lv] B(1) b cb(1)] by auto
  obtain m2 where 2: "mmc_write_internal (e_cfg e) (e_host e) m1 (info_blk (int off) 9 (int idx)) 1
      (inf_block ?info) 0 = Some (m2, inf_block ?info, 0)" "mmc_live_inv (e_cfg e) (e_host e) part user c (k + 1) cap m2"
    using emmc_live.wr_done [OF 1(2) I(1), of 0 "inf_block ?info"] cb(2) by auto
  have io: "ek_io e part user c k off s" using i by (rule ek_live_io)
  have e: "emmc_write_one_key e s buf (2 - int idx) = Some (s\<lparr>kticks := Suc (kticks s), kmmc := mmc_release_host m2\<rparr>, 0)"
    using ci 1(1) 2(1) l2 ek_io_off [OF io] ek_io_bits [OF io] flag_of_copy [OF idx] inf_block_put
    by (simp add: emmc_write_one_key_def area_blocks)
  moreover have "ek_live e part user c k cap off (s\<lparr>kticks := Suc (kticks s), kmmc := mmc_release_host m2\<rparr>)"
    using i mmc_live_release [OF 2(2)] by (simp add: ek_live_def)
  ultimately show ?thesis using emmc_write_one_key_spec [OF io idx b] by auto
qed

text \<open>The information that goes with a buffer.\<close>

definition key_info_for :: "u32 \<Rightarrow> u8 list \<Rightarrow> aml_key_info" where
  "key_info_for st buf = \<lparr>ki_checksum = word_sum buf 0 65536, ki_stamp = st, ki_magic = 9\<rparr>"

lemma calc_key_checksum_area:
  "AREA_SIZE \<le> length buf \<Longrightarrow> calc_key_checksum buf (int AREA_SIZE) = Some (word_sum buf 0 65536)"
  using checksum_loop_sum [of 0 65536 buf "0 :: u64"] by (simp add: calc_key_checksum_def drop_bit_eq_div)

lemma key_write_copy_eq:
  assumes "AREA_SIZE \<le> length buf"
  shows "key_write_copy e s buf 0x40000 cpy =
     emmc_write_one_key e (s\<lparr>key_infos := (key_infos s)[cpy - 1 := key_info_for (key_stamp (card (kmmc s)) + 1) buf]\<rparr>)
       buf (int cpy)"
  using calc_key_checksum_area [OF assms] by (simp add: key_write_copy_def key_info_for_def)

lemma ek_io_infos: "ek_io e part user c k off s \<Longrightarrow> length ks = 2 \<Longrightarrow> ek_io e part user c k off (s\<lparr>key_infos := ks\<rparr>)"
  by (simp add: ek_io_def)

lemma ek_live_infos:
  "ek_live e part user c k cap off s \<Longrightarrow> length ks = 2 \<Longrightarrow> ek_live e part user c k cap off (s\<lparr>key_infos := ks\<rparr>)"
  by (simp add: ek_live_def)

lemma ek_io_card: "ek_io e part user c k off s \<Longrightarrow> card (kmmc s) = c"
  by (simp add: ek_io_def mmc_io_inv_def)

lemma two_list: "length xs = 2 \<Longrightarrow> xs = [xs ! 0, xs ! 1]"
  by (auto simp: length_Suc_conv numeral_2_eq_2)

text \<open>Writing a key: copy 1 first, then copy 0.  Whatever fails, one of the two copies is good: either
  copy 0 is untouched, or copy 1 is the new one.\<close>

lemma emmc_key_write_spec:
  assumes i: "ek_io e part user c k off s" and b: "AREA_SIZE \<le> length buf"
    and info: "info = key_info_for (key_stamp c + 1) buf"
  shows "\<exists>s' ret k'. emmc_key_write e s buf 0x40000 = Some (s', ret) \<and>
     ek_io e part user c k' off s' \<and> k' \<in> {k, k + 1} \<and>
     disk_same_outside (user (dev (kmmc s))) (user (dev (kmmc s'))) (off + 0x4000) (2 * AREA_SIZE + 1024) \<and>
     (key_copy off (user (dev (kmmc s'))) 0 = key_copy off (user (dev (kmmc s))) 0 \<and>
      key_inf off (user (dev (kmmc s'))) 0 = key_inf off (user (dev (kmmc s))) 0 \<or>
      key_copy off (user (dev (kmmc s'))) 1 = take AREA_SIZE buf \<and>
      key_inf off (user (dev (kmmc s'))) 1 = inf_block info) \<and>
     (ret = 0 \<longrightarrow> k' = k \<and> key_infos s' = [info, info] \<and>
        (\<forall>idx < 2. key_copy off (user (dev (kmmc s'))) idx = take AREA_SIZE buf \<and>
                   key_inf off (user (dev (kmmc s'))) idx = inf_block info))"
proof -
  have l2: "length (key_infos s) = 2" using i by (simp add: ek_io_def)
  let ?s0 = "s\<lparr>key_infos := (key_infos s)[0 := info]\<rparr>" and ?d = "user (dev (kmmc s))"
  have i0: "ek_io e part user c k off ?s0" using i l2 by (intro ek_io_infos) simp_all
  have e1: "key_write_copy e s buf 0x40000 1 = emmc_write_one_key e ?s0 buf (2 - int 1)"
    using ek_io_card [OF i] info by (simp add: key_write_copy_eq [OF b])
  obtain s1 r1 k1 where 1: "emmc_write_one_key e ?s0 buf (2 - int 1) = Some (s1, r1)"
    "ek_io e part user c k1 off s1" "k1 \<in> {k, k + 1}" "key_infos s1 = (key_infos s)[0 := info]"
    "only_copy off 1 ?d (user (dev (kmmc s1)))"
    "r1 = 0 \<Longrightarrow> k1 = k" "r1 = 0 \<Longrightarrow> key_copy off (user (dev (kmmc s1))) 1 = take AREA_SIZE buf"
    "r1 = 0 \<Longrightarrow> key_inf off (user (dev (kmmc s1))) 1 = inf_block info"
    using emmc_write_one_key_spec [OF i0, of 1 buf] b l2 by auto
  note o1 = only_copy_other [OF 1(5), of 0] and x1 = only_copy_outside [OF 1(5)]
  show ?thesis
  proof (cases "r1 = 0")
    case False
    then show ?thesis using e1 1 o1 x1 by (auto simp: emmc_key_write_def)
  next
    case True
    have st1: "card (kmmc s1) = c" using ek_io_card [OF 1(2)] .
    let ?s2 = "s1\<lparr>key_infos := (key_infos s1)[1 := info]\<rparr>"
    have ki: "(key_infos s1)[1 := info] = [info, info]" using two_list [OF l2] 1(4) by (metis list_update_code(2) list_update_code(3) One_nat_def)
    have i2: "ek_io e part user c k off ?s2" using 1(2) 1(6) [OF True] ki by (intro ek_io_infos) simp_all
    have e2: "key_write_copy e s1 buf 0x40000 2 = emmc_write_one_key e ?s2 buf (2 - int 0)"
      using st1 info by (simp add: key_write_copy_eq [OF b])
    obtain s2 r2 k2 where 2: "emmc_write_one_key e ?s2 buf (2 - int 0) = Some (s2, r2)"
      "ek_io e part user c k2 off s2" "k2 \<in> {k, k + 1}" "key_infos s2 = [info, info]"
      "only_copy off 0 (user (dev (kmmc s1))) (user (dev (kmmc s2)))"
      "r2 = 0 \<Longrightarrow> k2 = k" "r2 = 0 \<Longrightarrow> key_copy off (user (dev (kmmc s2))) 0 = take AREA_SIZE buf"
      "r2 = 0 \<Longrightarrow> key_inf off (user (dev (kmmc s2))) 0 = inf_block info"
      using emmc_write_one_key_spec [OF i2, of 0 buf] b ki by auto
    note o2 = only_copy_other [OF 2(5), of 1] and x2 = only_copy_outside [OF 2(5)]
    have "disk_same_outside ?d (user (dev (kmmc s2))) (off + 0x4000) (2 * AREA_SIZE + 1024)"
      using x1 x2 by (auto simp: disk_same_outside_def)
    then show ?thesis
      using True e1 1 e2 2 o2 by (auto simp: emmc_key_write_def less_2_cases_iff)
  qed
qed

lemma emmc_key_write_done:
  assumes i: "ek_live e part user c k cap off s" and b: "AREA_SIZE \<le> length buf"
    and info: "info = key_info_for (key_stamp c + 1) buf"
  shows "\<exists>s'. emmc_key_write e s buf 0x40000 = Some (s', 0) \<and>
     ek_live e part user c k cap off s' \<and> key_infos s' = [info, info] \<and>
     disk_same_outside (user (dev (kmmc s))) (user (dev (kmmc s'))) (off + 0x4000) (2 * AREA_SIZE + 1024) \<and>
     (\<forall>idx < 2. key_copy off (user (dev (kmmc s'))) idx = take AREA_SIZE buf \<and>
                key_inf off (user (dev (kmmc s'))) idx = inf_block info)"
proof -
  have io: "ek_io e part user c k off s" using i by (rule ek_live_io)
  have l2: "length (key_infos s) = 2" using i by (simp add: ek_live_def)
  let ?s0 = "s\<lparr>key_infos := (key_infos s)[0 := info]\<rparr>"
  have i0: "ek_live e part user c k cap off ?s0" using i l2 by (intro ek_live_infos) simp_all
  have e1: "key_write_copy e s buf 0x40000 1 = emmc_write_one_key e ?s0 buf (2 - int 1)"
    using ek_io_card [OF io] info by (simp add: key_write_copy_eq [OF b])
  obtain s1 where 1: "emmc_write_one_key e ?s0 buf (2 - int 1) = Some (s1, 0)" "ek_live e part user c k cap off s1"
    using emmc_write_one_key_done [OF i0, of 1 buf] b by auto
  have l1: "length (key_infos s1) = 2" using 1(2) by (simp add: ek_live_def)
  let ?s2 = "s1\<lparr>key_infos := (key_infos s1)[1 := info]\<rparr>"
  have i2: "ek_live e part user c k cap off ?s2" using 1(2) l1 by (intro ek_live_infos) simp_all
  have e2: "key_write_copy e s1 buf 0x40000 2 = emmc_write_one_key e ?s2 buf (2 - int 0)"
    using ek_io_card [OF ek_live_io [OF 1(2)]] info by (simp add: key_write_copy_eq [OF b])
  obtain s2 where 2: "emmc_write_one_key e ?s2 buf (2 - int 0) = Some (s2, 0)" "ek_live e part user c k cap off s2"
    using emmc_write_one_key_done [OF i2, of 0 buf] b by auto
  have "emmc_key_write e s buf 0x40000 = Some (s2, 0)"
    using e1 1(1) e2 2(1) by (simp add: emmc_key_write_def)
  then show ?thesis using emmc_key_write_spec [OF io b info] 2(2) by auto
qed

text \<open>Reading a key: copy 0.\<close>

lemma key_read_loop_area: "key_read_loop cfg h m blk 512 buf 0 = chunk_loop (mmc_read_internal cfg h) m blk 512 buf 0"
proof -
  have "key_read_loop cfg h m blk 256 buf 131072 = chunk_loop (mmc_read_internal cfg h) m blk 256 buf 131072" for m blk buf
    by (simp add: key_read_loop.simps [of _ _ _ _ 256] chunk_loop.simps [of _ _ _ 256] case_prod_unfold cong: if_cong)
  then show ?thesis
    by (simp add: key_read_loop.simps [of _ _ _ _ 512] chunk_loop.simps [of _ _ _ 512] case_prod_unfold cong: if_cong)
qed

lemma emmc_key_read_spec:
  assumes i: "ek_io e part user c k off s" and b: "AREA_SIZE \<le> length buf"
  shows "\<exists>s' bs ret. emmc_key_read e s buf 0x40000 = Some (s', bs @ drop AREA_SIZE buf, 0x40000, ret) \<and>
     ek_io e part user c k off s' \<and> user (dev (kmmc s')) = user (dev (kmmc s)) \<and> key_infos s' = key_infos s \<and>
     length bs = AREA_SIZE \<and> (ret = 0 \<longrightarrow> bs = key_copy off (user (dev (kmmc s))) 0)"
proof -
  have io: "mmc_io_inv (e_cfg e) (e_host e) part user c k (kmmc s)"
    and pt: "reserved_at (e_cfg e) (e_pt e) off" using i by (auto simp: ek_io_def)
  note B = key_blk_at [OF pt, of 0]
  have n: "int (unat (drop_bit 9 (0x40000 :: u32))) = 512" by (simp add: drop_bit_eq_div)
  show ?thesis
    using emmc.chunk_read_area [OF mmc_io_claim [OF io] _ b, of "key_blk (int off) 9 0"] B n
      ek_io_off [OF i] ek_io_bits [OF i] i
    by (auto simp: emmc_key_read_def key_read_loop_area ek_io_def key_copy_def intro: mmc_io_release)
qed

lemma emmc_key_read_done:
  assumes i: "ek_live e part user c k cap off s" and b: "AREA_SIZE \<le> length buf"
  shows "\<exists>s'. emmc_key_read e s buf 0x40000 =
       Some (s', key_copy off (user (dev (kmmc s))) 0 @ drop AREA_SIZE buf, 0x40000, 0) \<and>
     ek_live e part user c k cap off s' \<and> user (dev (kmmc s')) = user (dev (kmmc s)) \<and> key_infos s' = key_infos s"
proof -
  have lv: "mmc_live_inv (e_cfg e) (e_host e) part user c k cap (kmmc s)"
    and pt: "reserved_at (e_cfg e) (e_pt e) off" and cap: "off + 0x4000 + 2 * AREA_SIZE + 1024 < 512 * cap"
    using i by (auto simp: ek_live_def)
  note B = key_blk_at [OF pt, of 0]
  have n: "int (unat (drop_bit 9 (0x40000 :: u32))) = 512" by (simp add: drop_bit_eq_div)
  have "unat (key_blk (int off) 9 0) + 512 < cap" using B(2) cap by simp
  then show ?thesis
    using emmc_live.chunk_read_done [OF mmc_live_claim [OF lv] _ b, of "key_blk (int off) 9 0"] B n
      ek_io_off [OF ek_live_io [OF i]] ek_io_bits [OF ek_live_io [OF i]] i
    by (auto simp: emmc_key_read_def key_read_loop_area ek_live_def key_copy_def intro: mmc_live_release)
qed

section \<open>The scan at start\<close>

text \<open>The information stored with a copy, and whether the scan accepts the copy.\<close>

definition copy_info :: "nat \<Rightarrow> disk \<Rightarrow> nat \<Rightarrow> aml_key_info" where
  "copy_info off dk idx = the (key_info_read (key_inf off dk idx))"

definition copy_valid :: "nat \<Rightarrow> disk \<Rightarrow> nat \<Rightarrow> bool" where
  "copy_valid off dk idx \<longleftrightarrow>
     word_sum (key_copy off dk idx) 0 65536 = ki_checksum (copy_info off dk idx) \<and>
     ki_magic (copy_info off dk idx) \<noteq> 0"

lemma rd64_total: "off + 8 \<le> length buf \<Longrightarrow> \<exists>v. rd64 buf off = Some v"
  by (simp add: fetch_def get_bytes_def)

lemma key_info_read_inf: "key_info_read (key_inf off dk idx) = Some (copy_info off dk idx)"
proof -
  obtain c where "rd64 (key_inf off dk idx) 0 = Some c" using rd64_total [of 0 "key_inf off dk idx"] by auto
  then show ?thesis
    unfolding copy_info_def by (simp add: key_info_read_def rd32_eq)
qed

lemma copy_info_block: "key_inf off dk idx = inf_block i \<Longrightarrow> copy_info off dk idx = i"
  by (simp add: copy_info_def key_info_read_block)

lemma set_key_stamp_live:
  "ek_live e part user c k cap off s \<Longrightarrow>
     ek_live e part user (c\<lparr>key_stamp := st\<rparr>) k cap off (set_key_stamp st s)"
  by (auto simp: ek_live_def set_key_stamp_def mmc_live_inv_def mmc_io_inv_def mmc_inv_def mmc_capacity_def)

lemma set_key_stamp_simps [simp]:
  "dev (kmmc (set_key_stamp st s)) = dev (kmmc s)" "key_infos (set_key_stamp st s) = key_infos s"
  by (simp_all add: set_key_stamp_def)

lemma ek_live_ticks: "ek_live e part user c k cap off s \<Longrightarrow> ek_live e part user c k cap off (s\<lparr>kticks := n\<rparr>)"
  by (simp add: ek_live_def)

lemma ek_read_area:
  assumes i: "ek_live e part user c k cap off s" and idx: "idx < 2" and b: "length buf = AREA_SIZE"
  shows "\<exists>m'. chunk_loop (mmc_read_internal (e_cfg e) (e_host e)) (mmc_claim_host (kmmc s))
       (key_blk (int off) 9 (int idx)) 512 buf 0 = Some (m', key_copy off (user (dev (kmmc s))) idx, 0) \<and>
     ek_live e part user c k cap off (s\<lparr>kmmc := mmc_release_host m'\<rparr>) \<and> user (dev m') = user (dev (kmmc s))"
proof -
  have lv: "mmc_live_inv (e_cfg e) (e_host e) part user c k cap (kmmc s)"
    and pt: "reserved_at (e_cfg e) (e_pt e) off" and cap: "off + 0x4000 + 2 * AREA_SIZE + 1024 < 512 * cap"
    using i by (auto simp: ek_live_def)
  note B = key_blk_at [OF pt idx]
  have "unat (key_blk (int off) 9 (int idx)) + 512 < cap" using B(2) cap idx by (auto simp: less_2_cases_iff)
  from emmc_live.chunk_read_done [OF mmc_live_claim [OF lv] B(1) _ this, of buf] show ?thesis
    using B(2) b i by (auto simp: ek_live_def key_copy_def intro: mmc_live_release)
qed

lemma verify_key_checksum_done:
  assumes i: "ek_live e part user c k cap off s" and idx: "idx < 2" and b: "length addr = AREA_SIZE"
  shows "\<exists>s'. verify_key_checksum e s addr idx =
       Some (s', if word_sum addr 0 65536 = ki_checksum (copy_info off (user (dev (kmmc s))) idx) then 0 else 1) \<and>
     ek_live e part user c k cap off s' \<and> user (dev (kmmc s')) = user (dev (kmmc s)) \<and>
     key_infos s' = (key_infos s)[idx := copy_info off (user (dev (kmmc s))) idx]"
proof -
  have io: "ek_io e part user c k off s" using i by (rule ek_live_io)
  have lv: "mmc_live_inv (e_cfg e) (e_host e) part user c k cap (kmmc s)"
    and pt: "reserved_at (e_cfg e) (e_pt e) off" and km: "kmalloc_succeeds (e_km e)"
    and cap: "off + 0x4000 + 2 * AREA_SIZE + 1024 < 512 * cap"
    using i by (auto simp: ek_live_def)
  obtain ci where ci: "e_km e (kticks s) 512 = Some ci" "length ci = 512"
    using km unfolding kmalloc_succeeds_def by blast
  note I = info_blk_at [OF pt idx]
  have "unat (info_blk (int off) 9 (int idx)) + 1 < cap" using I(2) cap idx by (auto simp: less_2_cases_iff)
  then obtain m' where m': "mmc_read_internal (e_cfg e) (e_host e) (mmc_claim_host (kmmc s))
      (info_blk (int off) 9 (int idx)) 1 ci 0 = Some (m', key_inf off (user (dev (kmmc s))) idx, 0)"
    "mmc_live_inv (e_cfg e) (e_host e) part user c (k + 1) cap m'" "user (dev m') = user (dev (kmmc s))"
    using emmc_live.rd_done [OF mmc_live_claim [OF lv] I(1), of 0 ci] I(2) ci(2) by (auto simp: key_inf_def)
  have ck: "calc_key_checksum addr (int AREA_SIZE) = Some (word_sum addr 0 65536)"
    using b by (intro calc_key_checksum_area) simp
  show ?thesis
    using ci m'(1,3) ek_io_off [OF io] ek_io_bits [OF io] ck key_info_read_inf mmc_live_release [OF m'(2)] i
    by (auto simp: verify_key_checksum_def ek_live_def)
qed

lemma update_key_copy_done:
  assumes i: "ek_live e part user c k cap off s" and idx: "idx < 2" and b: "length addr = AREA_SIZE"
    and dk: "dk = user (dev (kmmc s))"
  shows "\<exists>s'. update_key_copy e idx (s, addr, vf) =
       Some (s', key_copy off dk idx, if copy_valid off dk idx then vf + (int idx + 1) else vf) \<and>
     ek_live e part user c k cap off s' \<and> user (dev (kmmc s')) = dk \<and>
     key_infos s' = (key_infos s)[idx := copy_info off dk idx]"
proof -
  have io: "ek_io e part user c k off s" using i by (rule ek_live_io)
  have l2: "length (key_infos s) = 2" using i by (simp add: ek_live_def)
  obtain m1 where 1: "chunk_loop (mmc_read_internal (e_cfg e) (e_host e)) (mmc_claim_host (kmmc s))
       (key_blk (int off) 9 (int idx)) 512 addr 0 = Some (m1, key_copy off dk idx, 0)"
    "ek_live e part user c k cap off (s\<lparr>kmmc := mmc_release_host m1\<rparr>)" "user (dev m1) = dk"
    using ek_read_area [OF i idx b] dk by auto
  let ?s1 = "s\<lparr>kmmc := mmc_release_host m1\<rparr>"
  obtain s2 where 2: "verify_key_checksum e ?s1 (key_copy off dk idx) idx =
       Some (s2, if word_sum (key_copy off dk idx) 0 65536 = ki_checksum (copy_info off dk idx) then 0 else 1)"
    "ek_live e part user c k cap off s2" "user (dev (kmmc s2)) = dk"
    "key_infos s2 = (key_infos s)[idx := copy_info off dk idx]"
    using verify_key_checksum_done [OF 1(2) idx, of "key_copy off dk idx"] 1(3) by auto
  show ?thesis
    using 1(1) 2 ek_io_off [OF io] ek_io_bits [OF io] l2 idx
    by (auto simp: update_key_copy_def amlmmc_read_def area_blocks copy_valid_def)
qed

definition scan_flag :: "nat \<Rightarrow> disk \<Rightarrow> int" where
  "scan_flag off dk = (if copy_valid off dk 1 then 2 else 0) + (if copy_valid off dk 0 then 1 else 0)"

definition max_stamp :: "u32 \<Rightarrow> u32 \<Rightarrow> u32" where
  "max_stamp a b = (if a > b then a else b)"

lemma update_key_info_done:
  assumes i: "ek_live e part user c k cap off s" and b: "length addr = AREA_SIZE"
    and dk: "dk = user (dev (kmmc s))"
    and st: "st = max_stamp (ki_stamp (copy_info off dk 0)) (ki_stamp (copy_info off dk 1))"
  shows "\<exists>s'. update_key_info e s addr = Some (s', key_copy off dk 0, scan_flag off dk) \<and>
     ek_live e part user (c\<lparr>key_stamp := st\<rparr>) k cap off s' \<and> user (dev (kmmc s')) = dk \<and>
     key_infos s' = [copy_info off dk 0, copy_info off dk 1]"
proof -
  have l2: "length (key_infos s) = 2" using i by (simp add: ek_live_def)
  obtain s1 where 1: "update_key_copy e 1 (s, addr, 0) = Some (s1, key_copy off dk 1, if copy_valid off dk 1 then 2 else 0)"
    "ek_live e part user c k cap off s1" "user (dev (kmmc s1)) = dk" "key_infos s1 = (key_infos s)[1 := copy_info off dk 1]"
    using update_key_copy_done [OF i _ b dk, of 1 0] by auto
  obtain s2 where 2: "update_key_copy e 0 (s1, key_copy off dk 1, if copy_valid off dk 1 then 2 else 0) =
      Some (s2, key_copy off dk 0, scan_flag off dk)"
    "ek_live e part user c k cap off s2" "user (dev (kmmc s2)) = dk"
    "key_infos s2 = (key_infos s)[1 := copy_info off dk 1, 0 := copy_info off dk 0]"
    using update_key_copy_done [OF 1(2) _ _ 1(3) [symmetric], of 0 "key_copy off dk 1" "if copy_valid off dk 1 then 2 else 0"] 1(4)
    by (auto simp: scan_flag_def)
  have k: "key_infos s2 = [copy_info off dk 0, copy_info off dk 1]"
    using 2(4) l2 by (auto simp: length_Suc_conv numeral_2_eq_2)
  have "update_key_info e s addr = Some (set_key_stamp st s2, key_copy off dk 0, scan_flag off dk)"
    using 1(1) 2(1) k st by (simp add: update_key_info_def max_stamp_def Let_def)
  then show ?thesis
    using 2(3) k set_key_stamp_live [OF 2(2), of st] by simp
qed

lemma write_invalid_key_done:
  assumes i: "ek_live e part user c k cap off s" and idx: "idx < 2" and b: "length addr = AREA_SIZE"
    and dk: "dk = user (dev (kmmc s))"
  shows "\<exists>s' a'. write_invalid_key e s addr (2 - int idx) = Some (s', a', 0) \<and>
     ek_live e part user c k cap off s' \<and> only_copy off idx dk (user (dev (kmmc s'))) \<and>
     key_copy off (user (dev (kmmc s'))) idx = key_copy off dk (1 - idx) \<and>
     key_inf off (user (dev (kmmc s'))) idx = inf_block (key_infos s ! (1 - idx))"
proof -
  have io: "ek_io e part user c k off s" using i by (rule ek_live_io)
  have j: "1 - idx < 2" "int (1 - idx) = 2 - int idx - 1" using idx by auto
  obtain m1 where 1: "chunk_loop (mmc_read_internal (e_cfg e) (e_host e)) (mmc_claim_host (kmmc s))
       (key_blk (int off) 9 (int (1 - idx))) 512 addr 0 = Some (m1, key_copy off dk (1 - idx), 0)"
    "ek_live e part user c k cap off (s\<lparr>kmmc := mmc_release_host m1\<rparr>)" "user (dev m1) = dk"
    using ek_read_area [OF i j(1) b] dk by auto
  let ?s1 = "s\<lparr>kmmc := mmc_release_host m1\<rparr>"
  have r: "emmc_read_valid_key e s addr (2 - int idx) = Some (?s1, key_copy off dk (1 - idx), 0)"
    using 1(1) j(2) ek_io_off [OF io] ek_io_bits [OF io] by (simp add: emmc_read_valid_key_def area_blocks)
  obtain s2 where 2: "emmc_write_one_key e ?s1 (key_copy off dk (1 - idx)) (2 - int idx) = Some (s2, 0)"
    "ek_live e part user c k cap off s2" "only_copy off idx dk (user (dev (kmmc s2)))"
    "key_copy off (user (dev (kmmc s2))) idx = key_copy off dk (1 - idx)"
    "key_inf off (user (dev (kmmc s2))) idx = inf_block (key_infos s ! (1 - idx))"
    using emmc_write_one_key_done [OF 1(2) idx, of "key_copy off dk (1 - idx)"] 1(3) by auto
  show ?thesis
    using r 2 flag_of_copy(3,4) [OF idx] by (simp add: write_invalid_key_def)
qed

text \<open>What the scan at start does to a disk, by the copies it accepts.\<close>

lemma key_init_scan:
  assumes i: "ek_live e part user c k cap off s" and dk: "dk = user (dev (kmmc s))"
    and st: "st = max_stamp (ki_stamp (copy_info off dk 0)) (ki_stamp (copy_info off dk 1))"
  shows "\<exists>s1. ek_live e part user (c\<lparr>key_stamp := st\<rparr>) k cap off s1 \<and> user (dev (kmmc s1)) = dk \<and>
     key_infos s1 = [copy_info off dk 0, copy_info off dk 1] \<and>
     key_init e s =
       (if scan_flag off dk = 1 then do { (s, _, _) \<leftarrow> write_invalid_key e s1 (key_copy off dk 0) 1; Some (s, 0) }
        else if scan_flag off dk = 2 then do { (s, _, _) \<leftarrow> write_invalid_key e s1 (key_copy off dk 0) 2; Some (s, 0) }
        else if scan_flag off dk = 3 then do { (s, _) \<leftarrow> update_old_key e s1 (key_copy off dk 0); Some (s, 0) }
        else Some (s1, 0))"
proof -
  obtain key where key: "e_km e (kticks s) AREA_SIZE = Some key" "length key = AREA_SIZE"
    using i unfolding ek_live_def kmalloc_succeeds_def by blast
  have dk': "dk = user (dev (kmmc (s\<lparr>kticks := Suc (kticks s)\<rparr>)))" using dk by simp
  obtain s1 where "update_key_info e (s\<lparr>kticks := Suc (kticks s)\<rparr>) key = Some (s1, key_copy off dk 0, scan_flag off dk)"
    "ek_live e part user (c\<lparr>key_stamp := st\<rparr>) k cap off s1" "user (dev (kmmc s1)) = dk"
    "key_infos s1 = [copy_info off dk 0, copy_info off dk 1]"
    using update_key_info_done [OF ek_live_ticks [OF i] key(2) dk' st] by blast
  then show ?thesis using key(1) by (auto simp: key_init_def)
qed

lemma key_init_both_valid:
  assumes i: "ek_live e part user c k cap off s" and dk: "dk = user (dev (kmmc s))"
    and v: "copy_valid off dk 0" "copy_valid off dk 1"
    and eq: "ki_stamp (copy_info off dk 0) = st" "ki_stamp (copy_info off dk 1) = st"
  shows "\<exists>s'. key_init e s = Some (s', 0) \<and> ek_live e part user (c\<lparr>key_stamp := st\<rparr>) k cap off s' \<and>
     user (dev (kmmc s')) = dk"
proof -
  have f: "scan_flag off dk = 3" "max_stamp (ki_stamp (copy_info off dk 0)) (ki_stamp (copy_info off dk 1)) = st"
    using v eq by (simp_all add: scan_flag_def max_stamp_def)
  obtain s1 where 1: "ek_live e part user (c\<lparr>key_stamp := st\<rparr>) k cap off s1" "user (dev (kmmc s1)) = dk"
    "key_infos s1 = [copy_info off dk 0, copy_info off dk 1]"
    "key_init e s = do { (s, _) \<leftarrow> update_old_key e s1 (key_copy off dk 0); Some (s, 0) }"
    using key_init_scan [OF i dk refl] f by auto
  have "update_old_key e s1 (key_copy off dk 0) = Some (s1, 0)"
    using 1(3) eq by (simp add: update_old_key_def stamp_after_def)
  then show ?thesis using 1 by auto
qed

lemma copy_valid_same:
  "key_copy off dk' j' = key_copy off dk j \<Longrightarrow> key_inf off dk' j' = inf_block (copy_info off dk j) \<Longrightarrow>
     copy_valid off dk j \<Longrightarrow> copy_valid off dk' j' \<and> copy_info off dk' j' = copy_info off dk j"
  by (simp add: copy_valid_def copy_info_block)

lemma copy_valid_cong:
  "key_copy off dk' j = key_copy off dk j \<Longrightarrow> key_inf off dk' j = key_inf off dk j \<Longrightarrow>
     copy_valid off dk' j = copy_valid off dk j"
  by (simp add: copy_valid_def copy_info_def)

lemma key_init_one_valid:
  assumes i: "ek_live e part user c k cap off s" and dk: "dk = user (dev (kmmc s))" and idx: "idx < 2"
    and v: "copy_valid off dk (1 - idx)" "\<not> copy_valid off dk idx"
  shows "\<exists>s'. key_init e s = Some (s', 0) \<and>
     (\<forall>j < 2. key_copy off (user (dev (kmmc s'))) j = key_copy off dk (1 - idx) \<and>
              copy_valid off (user (dev (kmmc s'))) j)"
proof -
  have f: "scan_flag off dk = 2 - int idx" using v idx by (auto simp: scan_flag_def less_2_cases_iff)
  obtain st s1 where 1: "ek_live e part user (c\<lparr>key_stamp := st\<rparr>) k cap off s1" "user (dev (kmmc s1)) = dk"
    "key_infos s1 = [copy_info off dk 0, copy_info off dk 1]"
    "key_init e s = do { (s, _, _) \<leftarrow> write_invalid_key e s1 (key_copy off dk 0) (2 - int idx); Some (s, 0) }"
    using key_init_scan [OF i dk refl] f idx by (auto simp: less_2_cases_iff)
  have inf: "key_infos s1 ! (1 - idx) = copy_info off dk (1 - idx)" using 1(3) idx by (auto simp: less_2_cases_iff)
  obtain s2 a2 where 2: "write_invalid_key e s1 (key_copy off dk 0) (2 - int idx) = Some (s2, a2, 0)"
    "only_copy off idx dk (user (dev (kmmc s2)))" "key_copy off (user (dev (kmmc s2))) idx = key_copy off dk (1 - idx)"
    "key_inf off (user (dev (kmmc s2))) idx = inf_block (copy_info off dk (1 - idx))"
    using write_invalid_key_done [OF 1(1) idx _ 1(2) [symmetric], of "key_copy off dk 0"] inf by auto
  note o = only_copy_other [OF 2(2) idx, of "1 - idx"]
  have "copy_valid off (user (dev (kmmc s2))) idx" using copy_valid_same [OF 2(3,4) v(1)] by simp
  moreover have "copy_valid off (user (dev (kmmc s2))) (1 - idx)"
    using copy_valid_cong [of off "user (dev (kmmc s2))" "1 - idx" dk] o v(1) idx by (auto simp: less_2_cases_iff)
  moreover have "key_copy off (user (dev (kmmc s2))) (1 - idx) = key_copy off dk (1 - idx)"
    using o idx by (auto simp: less_2_cases_iff)
  moreover have "j = idx \<or> j = 1 - idx" if "j < 2" for j using that idx by (auto simp: less_2_cases_iff)
  ultimately have "\<forall>j < 2. key_copy off (user (dev (kmmc s2))) j = key_copy off dk (1 - idx) \<and>
      copy_valid off (user (dev (kmmc s2))) j" using 2(3) by metis
  then show ?thesis using 1(4) 2(1) by auto
qed

section \<open>Properties of the key area\<close>

definition ram_env :: "(u8 \<times> disk) emmc_env" where
  "ram_env = \<lparr>e_cfg = ram_cfg, e_km = \<lambda>n sz. Some (replicate sz 0), e_host = ram_host, e_pt = ram_pt\<rparr>"

definition ram_ek :: "disk \<Rightarrow> (u8 \<times> disk) ek_state" where
  "ram_ek dk = \<lparr>kmmc = ram_mmc\<lparr>dev := (0, dk)\<rparr>,
     key_infos = replicate 2 \<lparr>ki_checksum = 0, ki_stamp = 0, ki_magic = 0\<rparr>, kticks = 0\<rparr>"

lemma ram_ek_live: "ek_live ram_env fst snd ram_card 0 0x200000 0x2400000 (ram_ek dk)"
proof -
  have "mmc_live_inv ram_cfg ram_host fst snd ram_card 0 0x200000 (ram_mmc\<lparr>dev := (0, dk)\<rparr>)"
    using ram_live by (simp add: mmc_live_inv_def mmc_io_inv_def mmc_inv_def ram_mmc_def ram_card_def)
  then show ?thesis
    using ram_reserved ram_km by (simp add: ek_live_def ram_env_def ram_ek_def)
qed

lemma ram_ek_dev: "snd (dev (kmmc (ram_ek dk))) = dk"
  by (simp add: ram_ek_def ram_mmc_def)

text \<open>A driver that starts afresh on the same disk: cleared information, some stamp.\<close>

definition ek_restart :: "u32 \<Rightarrow> 'd ek_state \<Rightarrow> 'd ek_state" where
  "ek_restart st s = set_key_stamp st (s\<lparr>key_infos := replicate 2 \<lparr>ki_checksum = 0, ki_stamp = 0, ki_magic = 0\<rparr>\<rparr>)"

lemma ek_restart_live:
  assumes "ek_live e part user c k cap off s"
  shows "ek_live e part user (c\<lparr>key_stamp := st\<rparr>) k cap off (ek_restart st s)"
  unfolding ek_restart_def using assms by (intro set_key_stamp_live ek_live_infos) simp_all

text \<open>C8: A stored key survives a restart.  On a device that does not fail, \<open>emmc_key_write\<close> of a 256 KiB
  buffer returns 0; on a driver that starts afresh on that disk, with any stamp and cleared information,
  the scan \<open>update_key_info\<close> of \<open>_key_init\<close> finds both copies valid (flag 3) and the buffer in
  copy 0; \<open>_key_init\<close> leaves the disk alone and takes over the stamp that was written; and then
  \<open>emmc_key_read\<close> returns the buffer.\<close>

theorem emmc_key_write_restart_read:
  assumes i: "ek_live e part user c k cap off s" and b: "length buf = AREA_SIZE" "length rbuf = AREA_SIZE"
  shows "\<exists>s1 s2 s3 s4. emmc_key_write e s buf 0x40000 = Some (s1, 0) \<and>
     disk_same_outside (user (dev (kmmc s))) (user (dev (kmmc s1))) (off + 0x4000) (2 * AREA_SIZE + 1024) \<and>
     update_key_info e (ek_restart st s1) rbuf = Some (s4, buf, 3) \<and>
     key_init e (ek_restart st s1) = Some (s2, 0) \<and>
     user (dev (kmmc s2)) = user (dev (kmmc s1)) \<and> key_stamp (card (kmmc s2)) = key_stamp c + 1 \<and>
     emmc_key_read e s2 rbuf 0x40000 = Some (s3, buf, 0x40000, 0)"
proof -
  let ?info = "key_info_for (key_stamp c + 1) buf"
  obtain s1 where 1: "emmc_key_write e s buf 0x40000 = Some (s1, 0)" "ek_live e part user c k cap off s1"
    "disk_same_outside (user (dev (kmmc s))) (user (dev (kmmc s1))) (off + 0x4000) (2 * AREA_SIZE + 1024)"
    "\<forall>idx < 2. key_copy off (user (dev (kmmc s1))) idx = take AREA_SIZE buf \<and>
                key_inf off (user (dev (kmmc s1))) idx = inf_block ?info"
    using emmc_key_write_done [OF i _ refl, of buf] b(1) by auto
  let ?dk = "user (dev (kmmc s1))"
  let ?s1 = "ek_restart st s1"
  have i1: "ek_live e part user (c\<lparr>key_stamp := st\<rparr>) k cap off ?s1" and d1: "user (dev (kmmc ?s1)) = ?dk"
    using ek_restart_live [OF 1(2)] by (simp_all add: ek_restart_def)
  have c: "key_copy off ?dk j = buf" "copy_info off ?dk j = ?info" if "j < 2" for j
    using 1(4) that b(1) by (auto intro: copy_info_block)
  have v: "copy_valid off ?dk j" if "j < 2" for j
    using c [OF that] by (simp add: copy_valid_def key_info_for_def)
  obtain s2 where 2: "key_init e ?s1 = Some (s2, 0)" "ek_live e part user (c\<lparr>key_stamp := key_stamp c + 1\<rparr>) k cap off s2"
    "user (dev (kmmc s2)) = ?dk"
    using key_init_both_valid [OF i1 d1 [symmetric] v v, of "key_stamp c + 1"] c by (auto simp: key_info_for_def)
  have "scan_flag off ?dk = 3" using v by (simp add: scan_flag_def)
  then obtain s4 where 4: "update_key_info e ?s1 rbuf = Some (s4, buf, 3)"
    using update_key_info_done [OF i1 b(2) d1 [symmetric] refl] c(1) [of 0] by auto
  obtain s3 where 3: "emmc_key_read e s2 rbuf 0x40000 = Some (s3, key_copy off (user (dev (kmmc s2))) 0 @ drop AREA_SIZE rbuf, 0x40000, 0)"
    using emmc_key_read_done [OF 2(2), of rbuf] b(2) by auto
  show ?thesis
    using 1(1,3) 2(1,3) 3 4 c(1) [of 0] b ek_io_card [OF ek_live_io [OF 2(2)]] by auto
qed

theorem emmc_key_write_restart_read_witness:
  "\<exists>s1 s2 s3. emmc_key_write ram_env (ram_ek (\<lambda>i. 7)) (replicate 262144 1) 0x40000 = Some (s1, 0) \<and>
     key_init ram_env (ek_restart 0 s1) = Some (s2, 0) \<and>
     emmc_key_read ram_env s2 (replicate 262144 0) 0x40000 = Some (s3, replicate 262144 1, 0x40000, 0)"
  using emmc_key_write_restart_read [OF ram_ek_live, of "replicate 262144 1" "replicate 262144 0" "\<lambda>i. 7" 0] by auto

text \<open>C9: A failing write never damages both copies.  Whatever transfer or allocation fails, \<open>emmc_key_write\<close>
  returns and changes nothing outside the key area; copy 0 and its information are untouched, or
  copy 1 is the new key with its information; and a return value of 0 means that both are.\<close>

theorem emmc_key_write_keeps_one_copy:
  assumes i: "ek_io e part user c k off s" and b: "AREA_SIZE \<le> length buf"
  shows "\<exists>s' ret. emmc_key_write e s buf 0x40000 = Some (s', ret) \<and>
     disk_same_outside (user (dev (kmmc s))) (user (dev (kmmc s'))) (off + 0x4000) (2 * AREA_SIZE + 1024) \<and>
     (key_copy off (user (dev (kmmc s'))) 0 = key_copy off (user (dev (kmmc s))) 0 \<and>
      key_inf off (user (dev (kmmc s'))) 0 = key_inf off (user (dev (kmmc s))) 0 \<or>
      key_copy off (user (dev (kmmc s'))) 1 = take AREA_SIZE buf \<and> copy_valid off (user (dev (kmmc s'))) 1) \<and>
     (ret = 0 \<longrightarrow> (\<forall>idx < 2. key_copy off (user (dev (kmmc s'))) idx = take AREA_SIZE buf \<and>
                             copy_valid off (user (dev (kmmc s'))) idx))"
proof -
  let ?info = "key_info_for (key_stamp c + 1) buf"
  have p: "word_sum (take AREA_SIZE buf) 0 65536 = (word_sum buf 0 65536 :: u64)"
    by (rule word_sum_prefix) simp
  have v: "copy_valid off dk j" if "key_copy off dk j = take AREA_SIZE buf" "key_inf off dk j = inf_block ?info" for dk j
    using that p by (simp add: copy_valid_def copy_info_block key_info_for_def)
  show ?thesis
    using emmc_key_write_spec [OF i b refl] v by metis
qed

theorem emmc_key_write_keeps_one_copy_witness:
  "\<exists>s' ret. emmc_key_write (ram_env\<lparr>e_km := \<lambda>n sz. if n = 0 then Some (replicate sz 0) else None\<rparr>) (ram_ek (\<lambda>i. 7))
     (replicate 262144 1) 0x40000 = Some (s', ret)"
proof -
  have "ek_io (ram_env\<lparr>e_km := \<lambda>n sz. if n = 0 then Some (replicate sz 0) else None\<rparr>) fst snd ram_card 0 0x2400000 (ram_ek (\<lambda>i. 7))"
    using ek_live_io [OF ram_ek_live] by (simp add: ek_io_def ram_env_def kmalloc_sized_def)
  from emmc_key_write_keeps_one_copy [OF this, of "replicate 262144 1"] show ?thesis by auto
qed

text \<open>C10: The scan at start repairs a lost copy: when exactly one copy is accepted, \<open>_key_init\<close> rewrites
  the other from it, and afterwards both copies hold its key and are accepted.\<close>

theorem key_init_repairs_copy:
  assumes "ek_live e part user c k cap off s" and "idx < 2"
    and "copy_valid off (user (dev (kmmc s))) (1 - idx)" and "\<not> copy_valid off (user (dev (kmmc s))) idx"
  shows "\<exists>s'. key_init e s = Some (s', 0) \<and>
     (\<forall>j < 2. key_copy off (user (dev (kmmc s'))) j = key_copy off (user (dev (kmmc s))) (1 - idx) \<and>
              copy_valid off (user (dev (kmmc s'))) j)"
  using key_init_one_valid [OF assms(1) refl assms(2-4)] .

text \<open>A zeroed disk with the given information blocks: its copies are zeros, whose checksum is 0.\<close>

definition info_disk :: "aml_key_info \<Rightarrow> aml_key_info \<Rightarrow> disk" where
  "info_disk i0 i1 = disk_put (\<lambda>a. 0) 0x2484000 (inf_block i0 @ inf_block i1)"

lemma word_sum_zeros: "4 * n \<le> k \<Longrightarrow> word_sum (replicate k 0) 0 n = 0"
proof -
  assume k: "4 * n \<le> k"
  have "ucast (of_le32 (take 4 (drop (4 * j) (replicate k (0 :: u8))))) = (0 :: 'a :: len word)" if "j < n" for j
  proof -
    have "take 4 (drop (4 * j) (replicate k (0 :: u8))) = replicate 4 0"
      using that k by (simp add: min_absorb1)
    moreover have "of_le32 (replicate 4 0) = 0" by code_simp
    ultimately show ?thesis by simp
  qed
  then have "map (\<lambda>j. ucast (of_le32 (take 4 (drop (4 * j) (replicate k (0 :: u8))))) :: 'a :: len word) [0 ..< n] =
      map (\<lambda>j. 0) [0 ..< n]" by (intro map_cong) auto
  then show "word_sum (replicate k 0) 0 n = (0 :: 'a word)" unfolding word_sum_def by (simp only: add_0) simp
qed

lemma info_disk_copies:
  assumes "j < 2"
  shows "key_copy 0x2400000 (info_disk i0 i1) j = replicate AREA_SIZE 0"
    and "copy_info 0x2400000 (info_disk i0 i1) j = (if j = 0 then i0 else i1)"
proof -
  show "key_copy 0x2400000 (info_disk i0 i1) j = replicate AREA_SIZE 0"
    unfolding key_copy_def info_disk_def disk_bytes_def disk_put_def
    by (rule nth_equalityI) (use assms in \<open>auto simp: less_2_cases_iff\<close>)
  have "disk_bytes (info_disk i0 i1) 0x2484000 1024 = inf_block i0 @ inf_block i1"
    using disk_bytes_put [of "\<lambda>a. 0" "0x2484000" "inf_block i0 @ inf_block i1"] by (simp add: info_disk_def)
  then have "key_inf 0x2400000 (info_disk i0 i1) 0 = inf_block i0" "key_inf 0x2400000 (info_disk i0 i1) 1 = inf_block i1"
    using disk_bytes_add [of "info_disk i0 i1" "0x2484000" 512 512] by (simp_all add: key_inf_def)
  then show "copy_info 0x2400000 (info_disk i0 i1) j = (if j = 0 then i0 else i1)"
    using assms copy_info_block by (auto simp: less_2_cases_iff)
qed

lemma info_disk_valid:
  "j < 2 \<Longrightarrow> copy_valid 0x2400000 (info_disk i0 i1) j \<longleftrightarrow>
     ki_checksum (if j = 0 then i0 else i1) = 0 \<and> ki_magic (if j = 0 then i0 else i1) \<noteq> 0"
  using info_disk_copies [of j i0 i1] word_sum_zeros [of 65536 AREA_SIZE] by (auto simp: copy_valid_def)

theorem key_init_repairs_copy_witness:
  "\<exists>s'. key_init ram_env (ram_ek (info_disk \<lparr>ki_checksum = 0, ki_stamp = 5, ki_magic = 9\<rparr>
       \<lparr>ki_checksum = 0, ki_stamp = 0, ki_magic = 0\<rparr>)) = Some (s', 0) \<and>
     copy_valid 0x2400000 (snd (dev (kmmc s'))) 1"
proof -
  let ?d = "info_disk \<lparr>ki_checksum = 0, ki_stamp = 5, ki_magic = 9\<rparr> \<lparr>ki_checksum = 0, ki_stamp = 0, ki_magic = 0\<rparr>"
  have "copy_valid 0x2400000 ?d (1 - 1)" "\<not> copy_valid 0x2400000 ?d 1"
    using info_disk_valid [of 0] info_disk_valid [of 1] by simp_all
  then show ?thesis
    using key_init_repairs_copy [OF ram_ek_live [of ?d], of 1] by (auto simp: ram_ek_dev)
qed

text \<open>The newer of two valid copies is not carried over.  When both are accepted and copy 1 has the
  newer stamp (which a write interrupted after its first copy leaves), \<open>_key_init\<close> rewrites copy 0
  from itself: both copies keep their keys and stamps, and \<open>emmc_key_read\<close> goes on returning the
  older one.\<close>

theorem key_init_keeps_older_copy:
  assumes i: "ek_live e part user c k cap off s" and dk: "dk = user (dev (kmmc s))"
    and v: "copy_valid off dk 0" "copy_valid off dk 1"
    and newer: "stamp_after (ki_stamp (copy_info off dk 1)) (ki_stamp (copy_info off dk 0))"
    and b: "length buf = AREA_SIZE"
  shows "\<exists>s' s''. key_init e s = Some (s', 0) \<and>
     (\<forall>j < 2. key_copy off (user (dev (kmmc s'))) j = key_copy off dk j \<and>
              copy_info off (user (dev (kmmc s'))) j = copy_info off dk j) \<and>
     emmc_key_read e s' buf 0x40000 = Some (s'', key_copy off dk 0, 0x40000, 0)"
proof -
  have f: "scan_flag off dk = 3" using v by (simp add: scan_flag_def)
  obtain st s1 where 1: "ek_live e part user (c\<lparr>key_stamp := st\<rparr>) k cap off s1" "user (dev (kmmc s1)) = dk"
    "key_infos s1 = [copy_info off dk 0, copy_info off dk 1]"
    "key_init e s = do { (s, _) \<leftarrow> update_old_key e s1 (key_copy off dk 0); Some (s, 0) }"
    using key_init_scan [OF i dk refl] f by auto
  let ?k = "[copy_info off dk 0, copy_info off dk 0]"
  obtain s2 where 2: "emmc_write_one_key e (s1\<lparr>key_infos := ?k\<rparr>) (key_copy off dk 0) (2 - int 0) = Some (s2, 0)"
    "ek_live e part user (c\<lparr>key_stamp := st\<rparr>) k cap off s2" "key_infos s2 = ?k"
    "only_copy off 0 dk (user (dev (kmmc s2)))" "key_copy off (user (dev (kmmc s2))) 0 = key_copy off dk 0"
    "key_inf off (user (dev (kmmc s2))) 0 = inf_block (copy_info off dk 0)"
    using emmc_write_one_key_done [OF ek_live_infos [OF 1(1), of ?k], of 0 "key_copy off dk 0"] 1(2) by auto
  define s' where "s' = set_key_stamp (ki_stamp (copy_info off dk 0)) s2"
  have "update_old_key e s1 (key_copy off dk 0) = Some (s', 0)"
    using 1(3) newer 2(1,3) by (simp add: update_old_key_def Let_def s'_def)
  then have k: "key_init e s = Some (s', 0)" using 1(4) by simp
  have lv: "ek_live e part user (c\<lparr>key_stamp := st, key_stamp := ki_stamp (copy_info off dk 0)\<rparr>) k cap off s'"
    unfolding s'_def by (rule set_key_stamp_live [OF 2(2)])
  have cp: "key_copy off (user (dev (kmmc s'))) j = key_copy off dk j \<and>
      copy_info off (user (dev (kmmc s'))) j = copy_info off dk j" if "j < 2" for j
    using that 2(5,6) only_copy_other [OF 2(4), of 1] copy_info_block [OF 2(6)]
    by (auto simp: s'_def less_2_cases_iff copy_info_def)
  show ?thesis
    using k cp emmc_key_read_done [OF lv, of buf] b cp [of 0] by auto
qed

theorem key_init_keeps_older_copy_witness:
  "\<exists>s' s''. key_init ram_env (ram_ek (info_disk \<lparr>ki_checksum = 0, ki_stamp = 5, ki_magic = 9\<rparr>
       \<lparr>ki_checksum = 0, ki_stamp = 6, ki_magic = 9\<rparr>)) = Some (s', 0) \<and>
     emmc_key_read ram_env s' (replicate 262144 1) 0x40000 = Some (s'', replicate 262144 0, 0x40000, 0)"
proof -
  let ?d = "info_disk \<lparr>ki_checksum = 0, ki_stamp = 5, ki_magic = 9\<rparr> \<lparr>ki_checksum = 0, ki_stamp = 6, ki_magic = 9\<rparr>"
  have v: "copy_valid 0x2400000 ?d 0" "copy_valid 0x2400000 ?d 1"
    using info_disk_valid [of 0] info_disk_valid [of 1] by simp_all
  have n: "stamp_after (ki_stamp (copy_info 0x2400000 ?d 1)) (ki_stamp (copy_info 0x2400000 ?d 0))"
    using info_disk_copies(2) [of 0] info_disk_copies(2) [of 1] by (simp add: stamp_after_def)
  show ?thesis
    using key_init_keeps_older_copy [OF ram_ek_live [of ?d] ram_ek_dev [symmetric] v n, of "replicate 262144 1"]
      info_disk_copies(1) [of 0] by auto
qed

text \<open>A failed write of a copy leaves the host claimed: when the transfer of the copy fails,
  \<open>emmc_write_one_key\<close> returns the error with one claim more than it started with.\<close>

theorem emmc_write_failure_keeps_claim:
  assumes i: "ek_io e part user c k off s" and km: "kmalloc_succeeds (e_km e)" and idx: "idx < 2"
    and w: "chunk_loop (mmc_write_internal (e_cfg e) (e_host e)) (mmc_claim_host (kmmc s))
      (key_blk (int off) 9 (int idx)) 512 buf 0 = Some (m', buf', ret)" "ret \<noteq> 0"
    and b: "AREA_SIZE \<le> length buf"
  shows "\<exists>s'. emmc_write_one_key e s buf (2 - int idx) = Some (s', ret) \<and>
     claims (kmmc s') = claims (kmmc s) + 1"
proof -
  obtain ci where ci: "e_km e (kticks s) 512 = Some ci" "length ci = 512"
    using km unfolding kmalloc_succeeds_def by blast
  have l2: "length (key_infos s) = 2" and pt: "reserved_at (e_cfg e) (e_pt e) off"
    and io: "mmc_io_inv (e_cfg e) (e_host e) part user c k (kmmc s)"
    using i by (auto simp: ek_io_def)
  have "mmc_io_inv (e_cfg e) (e_host e) part user c (k + 1) m'"
    using emmc.chunk_write_area [OF mmc_io_claim [OF io] key_blk_at(1) [OF pt idx] b] w(1) by auto
  then have cl: "claims m' = claims (kmmc s) + 1" using io by (simp add: mmc_io_inv_def)
  show ?thesis
    using ci w l2 ek_io_off [OF i] ek_io_bits [OF i] flag_of_copy [OF idx] inf_block_put cl
    by (simp add: emmc_write_one_key_def area_blocks)
qed

text \<open>A device that refuses every request.\<close>

definition stuck_env :: "(u8 \<times> disk) emmc_env" where
  "stuck_env = ram_env\<lparr>e_host := ram_host\<lparr>mmc_wait_for_req :=
     \<lambda>d mrq sg. (d, sg, \<lparr>cmd_error = -110, data_error = 0, stop_error = 0, bytes_xfered = 0\<rparr>)\<rparr>\<rparr>"

lemma stuck_io: "ek_io stuck_env fst snd ram_card 0 0x2400000 (ram_ek dk)"
proof -
  have "emmc_dev True (e_host stuck_env) fst snd"
    by (auto simp: emmc_dev_def stuck_env_def ram_env_def ram_host_def res_ok_def split: mmc_data_flag.splits)
  then show ?thesis
    using ek_live_io [OF ram_ek_live, of dk]
    by (simp add: ek_io_def stuck_env_def ram_env_def mmc_io_inv_def mmc_inv_def ram_ek_def ram_mmc_def ram_card_def)
qed

theorem emmc_write_failure_keeps_claim_witness:
  "\<exists>s'. emmc_write_one_key stuck_env (ram_ek (\<lambda>i. 0)) (replicate 262144 1) 1 = Some (s', -110) \<and>
     claims (kmmc s') = 1"
proof -
  have km: "kmalloc_succeeds (e_km stuck_env)" using ram_km by (simp add: stuck_env_def ram_env_def)
  have i: "ek_io stuck_env fst snd ram_card 0 0x2400000 (ram_ek (\<lambda>i. 0))" by (rule stuck_io)
  have m: "mmc_inv (e_cfg stuck_env) (e_host stuck_env) fst snd (mmc_claim_host (kmmc (ram_ek (\<lambda>i. 0))))"
    using mmc_io_claim [of "e_cfg stuck_env" "e_host stuck_env" fst snd ram_card 0] i
    by (auto simp: ek_io_def mmc_io_inv_def)
  have u: "key_blk (int 0x2400000) 9 (int 1) = 74272" by (simp add: key_blk_def drop_bit_eq_div)
  have "\<exists>m'. mmc_write_internal (e_cfg stuck_env) (e_host stuck_env) (mmc_claim_host (kmmc (ram_ek (\<lambda>i. 0))))
      74272 256 (replicate 262144 1) 0 = Some (m', replicate 262144 1, -110)"
    unfolding mmc_write_internal_def mmc_transfer_user [OF m]
    by (simp add: mmc_do_req_def Let_def get_bytes_def stuck_env_def ram_env_def ram_ek_def ram_mmc_def ram_card_def
        mmc_capacity_def mmc_claim_host_def mmc_check_result_def push_bit_eq_mult)
  then obtain m' where "chunk_loop (mmc_write_internal (e_cfg stuck_env) (e_host stuck_env))
      (mmc_claim_host (kmmc (ram_ek (\<lambda>i. 0)))) (key_blk (int 0x2400000) 9 (int 1)) 512 (replicate 262144 1) 0 =
      Some (m', replicate 262144 1, -110)"
    unfolding u by (auto simp: chunk_loop.simps)
  from emmc_write_failure_keeps_claim [OF i km _ this] show ?thesis
    by (simp add: ram_ek_def ram_mmc_def)
qed

lemma key_check_two:
  assumes "kmalloc_succeeds km" and "keyarea_phy_size info = 2 * 262144 + 1024"
  shows "\<exists>info'. aml_emmc_key_check km info n = Some (info', n + 2, 0) \<and> ek_key_valid info' = 1 \<and>
     key_part_count info' = 2 \<and>
     key_valid_node info' = key_valid_node info @
       [\<lparr>phy_addr = keyarea_phy_addr info, phy_size = 262144\<rparr>,
        \<lparr>phy_addr = keyarea_phy_addr info + 262144, phy_size = 262144\<rparr>]"
proof -
  have k: "\<exists>x. km i 24 = Some x" for i using assms(1) unfolding kmalloc_succeeds_def by blast
  obtain x0 x1 where x: "km n 24 = Some x0" "km (Suc n) 24 = Some x1" using k by blast
  have c: "(ucast (keyarea_phy_size info div 262144) :: u8) = 2" using assms(2) by simp
  have "\<exists>info'. key_check_loop km (Suc (Suc fuel)) (info\<lparr>key_part_count := 2\<rparr>) 0 n = Some (info', n + 2, 0) \<and>
      ek_key_valid info' = 1 \<and> key_part_count info' = 2 \<and>
      key_valid_node info' = key_valid_node info @
        [\<lparr>phy_addr = keyarea_phy_addr info, phy_size = 262144\<rparr>,
         \<lparr>phy_addr = keyarea_phy_addr info + 262144, phy_size = 262144\<rparr>]" for fuel
    by (simp add: x Let_def)
  from this [of 254] show ?thesis by (simp add: aml_emmc_key_check_def c Let_def)
qed

text \<open>The list of key areas: for the area size \<open>emmc_key_init\<close> sets up, the check appends one node
  for each of the two copies, at its address, and ends with the area marked valid.\<close>

theorem emmc_key_check_nodes:
  assumes "kmalloc_succeeds km" and "keyarea_phy_size info = 2 * 262144 + 1024"
  shows "\<exists>info'. aml_emmc_key_check km info n = Some (info', n + 2, 0) \<and> ek_key_valid info' = 1 \<and>
     key_part_count info' = 2 \<and>
     key_valid_node info' = key_valid_node info @
       [\<lparr>phy_addr = keyarea_phy_addr info, phy_size = 262144\<rparr>,
        \<lparr>phy_addr = keyarea_phy_addr info + 262144, phy_size = 262144\<rparr>]"
  using assms by (rule key_check_two)

theorem emmc_key_check_nodes_witness:
  "\<exists>info'. aml_emmc_key_check (\<lambda>n sz. Some (replicate sz 0))
       \<lparr>key_valid_node = [], keyarea_phy_addr = 0x2404000, keyarea_phy_size = 2 * 262144 + 1024, lba_start = 0,
        lba_end = 0, ek_key_init = 1, ek_key_valid = 0, key_part_count = 0\<rparr> 0 = Some (info', 2, 0) \<and>
     ek_key_valid info' = 1"
  using emmc_key_check_nodes [OF ram_km, of "\<lparr>key_valid_node = [], keyarea_phy_addr = 0x2404000,
        keyarea_phy_size = 2 * 262144 + 1024, lba_start = 0, lba_end = 0, ek_key_init = 1, ek_key_valid = 0,
        key_part_count = 0\<rparr>" 0]
  by (auto simp: numeral_2_eq_2)

end
