(* ===== verification/Key_Stack.thy ===== *)
theory Key_Stack
  imports Storage_Key Emmc_Key
begin

unbundle bit_operations_syntax

text \<open>
  The key storage put together: the eMMC key area registers itself as the storage of the key
  manager (\<open>emmc_key_init\<close> of \<open>soc/amlogic/mmc/emmc_key.c\<close>), the key manager chooses its interface
  and loads its keys.  The driver state \<open>'d\<close> of \<open>Storage_Key\<close> is here the state of \<open>Emmc_Key\<close>, and the
  contract \<open>key_block_store\<close> is discharged for \<open>emmc_key_read\<close> and \<open>emmc_key_write\<close>.
\<close>

section \<open>Registration of the key area\<close>

text \<open>The two allocations are the 56 bytes of \<open>emmckey_info\<close> and the 16 bytes of \<open>uk_type\<close>; both are
  freed again on every path.  The result of \<open>_key_init\<close> is not looked at.\<close>

definition emmc_key_init ::
    "'d emmc_env \<Rightarrow> ('f, 'd ek_state) uk_store \<Rightarrow> (('f, 'd ek_state) uk_store \<times> int) option" where
  "emmc_key_init e s =
     (let d = sdev s; n = kticks d; bits = key_bits d in
      case e_km e n 56 of
        None \<Rightarrow> Some (s\<lparr>sdev := d\<lparr>kticks := n + 1\<rparr>\<rparr>, - ENOMEM)
      | Some _ \<Rightarrow>
          (case e_km e (n + 1) 16 of
             None \<Rightarrow> Some (s\<lparr>sdev := d\<lparr>kticks := n + 2\<rparr>\<rparr>, - ENOMEM)
           | Some _ \<Rightarrow> do {
               off \<leftarrow> key_off e;
               if off < 0 then Some (s\<lparr>sdev := d\<lparr>kticks := n + 2\<rparr>\<rparr>, - EINVAL)
               else do {
                 let addr = (of_int (off + EMMCKEY_RESERVE_OFFSET) :: u64);
                 let sz = (of_nat (EMMC_KEYAREA_COUNT * EMMC_KEYAREA_SIZE + 512 * 2) :: u32);
                 let info = \<lparr>key_valid_node = [], keyarea_phy_addr = addr, keyarea_phy_size = ucast sz,
                             lba_start = drop_bit bits addr, lba_end = drop_bit bits (addr + ucast sz),
                             ek_key_init = 1, ek_key_valid = 0, key_part_count = 0\<rparr>;
                 (d, _) \<leftarrow> key_init e (d\<lparr>kticks := n + 2\<rparr>);
                 (_, n, err) \<leftarrow> aml_emmc_key_check (e_km e) info (kticks d);
                 let s = s\<lparr>sdev := d\<lparr>kticks := n\<rparr>\<rparr>;
                 if err \<noteq> 0 then Some (s, err)
                 else let (s, r) = register_unifykey_types s (Some \<lparr>storage_type = UNIFYKEY_STORAGE_TYPE_EMMC,
                        ut_ops = \<lparr>ops_read = Some (emmc_key_read e), ops_write = Some (emmc_key_write e)\<rparr>\<rparr>)
                      in Some (s, if r \<noteq> 0 then - EINVAL else 0)
               }
             }))"

section \<open>The key area as a block store\<close>

text \<open>The key area keeps a block safely when both copies are valid, equal and of one stamp.\<close>

definition area_image :: "nat \<Rightarrow> disk \<Rightarrow> u8 list option" where
  "area_image off dk =
     (if copy_valid off dk 0 \<and> copy_valid off dk 1 \<and> key_copy off dk 0 = key_copy off dk 1 \<and>
         ki_stamp (copy_info off dk 0) = ki_stamp (copy_info off dk 1)
      then Some (key_copy off dk 0) else None)"

definition ek_image :: "('d \<Rightarrow> disk) \<Rightarrow> nat \<Rightarrow> 'd ek_state \<Rightarrow> u8 list option" where
  "ek_image user off s = area_image off (user (dev (kmmc s)))"

lemma area_image_copy: "area_image off dk = Some b \<Longrightarrow> key_copy off dk 0 = b"
  by (auto simp: area_image_def split: if_splits)

lemma emmc_read_image:
  assumes i: "ek_live e part user c k cap off d" and b: "length buf = 262144" and im: "ek_image user off d = Some bs"
  shows "\<exists>d'. emmc_key_read e d buf (of_nat 262144) = Some (d', bs, of_nat 262144, 0) \<and>
    ek_live e part user c k cap off d' \<and> ek_image user off d' = Some bs"
  using emmc_key_read_done [OF i, of buf] b im area_image_copy [of off "user (dev (kmmc d))" bs]
  by (auto simp: ek_image_def)

lemma emmc_write_image:
  assumes i: "ek_live e part user c k cap off d" and b: "length buf = 262144"
  shows "\<exists>d'. emmc_key_write e d buf (of_nat 262144) = Some (d', 0) \<and>
    ek_live e part user c k cap off d' \<and> ek_image user off d' = Some buf"
proof -
  let ?info = "key_info_for (key_stamp c + 1) buf"
  obtain d' where d: "emmc_key_write e d buf 0x40000 = Some (d', 0)" "ek_live e part user c k cap off d'"
    "\<forall>idx < 2. key_copy off (user (dev (kmmc d'))) idx = take AREA_SIZE buf \<and>
                key_inf off (user (dev (kmmc d'))) idx = inf_block ?info"
    using emmc_key_write_done [OF i _ refl, of buf] b by auto
  let ?dk = "user (dev (kmmc d'))"
  have c: "key_copy off ?dk j = buf" "copy_info off ?dk j = ?info" if "j < 2" for j
    using d(3) that b by (auto intro: copy_info_block)
  have v: "copy_valid off ?dk j" if "j < 2" for j
    using c [OF that] by (simp add: copy_valid_def key_info_for_def)
  have "ek_image user off d' = Some buf"
    using v c by (simp add: ek_image_def area_image_def)
  with d(1,2) show ?thesis by simp
qed

interpretation emmc_keys: key_block_store "emmc_key_read e" "emmc_key_write e" "ek_image user off"
  "ek_live e part user c k cap off" 262144
  for e :: "'d emmc_env" and part user c k cap off
  by unfold_locales (use emmc_read_image emmc_write_image in auto)

section \<open>Start-up\<close>

text \<open>Start of the key area on a disk that keeps a block: the driver is registered, the block stays.\<close>

lemma emmc_key_init_image:
  assumes i: "ek_live e part user c k cap off (sdev s)" and im: "ek_image user off (sdev s) = Some bs"
    and un: "storage_type (unifykey_types s) = 0"
  shows "\<exists>s' c'. emmc_key_init e s = Some (s', 0) \<and> ek_live e part user c' k cap off (sdev s') \<and>
    ek_image user off (sdev s') = Some bs \<and>
    (\<exists>d. s' = s\<lparr>sdev := d, unifykey_types := \<lparr>storage_type = 1,
      ut_ops = \<lparr>ops_read = Some (emmc_key_read e), ops_write = Some (emmc_key_write e)\<rparr>\<rparr>\<rparr>)"
proof -
  let ?n = "kticks (sdev s)" and ?d = "sdev s"
  have km: "kmalloc_succeeds (e_km e)" using i by (simp add: ek_live_def)
  then obtain x y where xy: "e_km e ?n 56 = Some x" "e_km e (Suc ?n) 16 = Some y"
    unfolding kmalloc_succeeds_def by blast
  have off: "key_off e = Some (int off)" using ek_io_off [OF ek_live_io [OF i]] .
  let ?d2 = "?d\<lparr>kticks := ?n + 2\<rparr>" and ?dk = "user (dev (kmmc ?d))"
  have i2: "ek_live e part user c k cap off ?d2" using i by (rule ek_live_ticks)
  have v: "copy_valid off ?dk 0" "copy_valid off ?dk 1" "ki_stamp (copy_info off ?dk 1) = ki_stamp (copy_info off ?dk 0)"
    using im by (auto simp: ek_image_def area_image_def split: if_splits)
  obtain d3 where d3: "key_init e ?d2 = Some (d3, 0)" "user (dev (kmmc d3)) = ?dk"
    "ek_live e part user (c\<lparr>key_stamp := ki_stamp (copy_info off ?dk 0)\<rparr>) k cap off d3"
    using key_init_both_valid [OF i2 _ v(1,2) refl v(3)] by auto
  let ?info = "\<lparr>key_valid_node = [], keyarea_phy_addr = of_int (int off + 0x4000) :: u64, keyarea_phy_size = 525312 :: u64,
     lba_start = drop_bit (key_bits ?d) (of_int (int off + 0x4000)), lba_end = drop_bit (key_bits ?d) (of_int (int off + 0x4000) + 525312),
     ek_key_init = 1, ek_key_valid = 0, key_part_count = 0\<rparr>"
  obtain info' where chk: "aml_emmc_key_check (e_km e) ?info (kticks d3) = Some (info', kticks d3 + 2, 0)"
    using key_check_two [OF km, of ?info "kticks d3"] by auto
  let ?d4 = "d3\<lparr>kticks := kticks d3 + 2\<rparr>"
  have i4: "ek_live e part user (c\<lparr>key_stamp := ki_stamp (copy_info off ?dk 0)\<rparr>) k cap off ?d4"
    using d3(3) by (rule ek_live_ticks)
  have "emmc_key_init e s = Some (s\<lparr>sdev := ?d4, unifykey_types := \<lparr>storage_type = 1,
      ut_ops = \<lparr>ops_read = Some (emmc_key_read e), ops_write = Some (emmc_key_write e)\<rparr>\<rparr>\<rparr>, 0)"
    using xy off d3(1) chk un
    by (simp add: emmc_key_init_def Let_def register_unifykey_types_def is_valid_unifykey_storage_type_def
        word_le_nat_alt)
  moreover have "ek_image user off ?d4 = Some bs" using im d3(2) by (simp add: ek_image_def)
  ultimately show ?thesis using i4 by auto
qed

text \<open>A store as the boot leaves it: nothing registered, no keys, the default block size.\<close>

definition boot_store :: "('f, 'd) uk_store \<Rightarrow> bool" where
  "boot_store s \<longleftrightarrow> storage_type (unifykey_types s) = 0 \<and> normal_blksz s = 262144 \<and>
     blockinited (nk s) = 0 \<and> keys (nk s) = []"

text \<open>The whole start: eMMC driver, choice of the interface, initialisation of the keys.\<close>

definition key_stack_start ::
    "'d emmc_env \<Rightarrow> 'f uk_env \<Rightarrow> ('f, 'd ek_state) uk_store \<Rightarrow> (('f, 'd ek_state) uk_store \<times> int) option" where
  "key_stack_start e env s =
     do {
       (s, ret) \<leftarrow> emmc_key_init e s;
       if ret \<noteq> 0 then Some (s, ret)
       else let (s, ret) = amlkey_if_init env s in if ret \<noteq> 0 then Some (s, ret) else amlkey_init env s
     }"

lemma amlkey_if_init_normal:
  assumes km: "kmalloc_succeeds (kmalloc (u_kenv env))" and bz: "u_blocksize env \<in> {None, Some 262144}"
    and sec: "security_key_init (u_smc env) (u_mm env) (u_share_ok env) (sk s) = (k, - EOPNOTSUPP)"
    and nz: "normal_blksz s = 262144"
  shows "\<exists>b. length b = 262144 \<and> amlkey_if_init env s =
     (s\<lparr>sk := k, normal_block := Some b, nk := (nk s)\<lparr>ticks := Suc (ticks (nk s))\<rparr>,
        amlkey_if := Some IFTYPE_NORMAL_STORAGE\<rparr>, 0)"
proof -
  obtain b where "kmalloc (u_kenv env) (ticks (nk s)) 262144 = Some b" "length b = 262144"
    using km unfolding kmalloc_succeeds_def by blast
  then show ?thesis using bz sec nz by (auto simp: amlkey_if_init_def normal_key_init_def Let_def)
qed

lemma key_stack_start_image:
  assumes i: "ek_live e part user c k cap off (sdev s)" and im: "ek_image user off (sdev s) = Some bs"
    and boot: "boot_store s" and ke: "kernel_ok H env" and bz: "u_blocksize env \<in> {None, Some 262144}"
    and sec: "snd (security_key_init (u_smc env) (u_mm env) (u_share_ok env) (sk s)) = - EOPNOTSUPP"
    and ni: "nk_image H bs 262144 ks h" "list_all (nk_obj_ok H) ks" "distinct (map obj_name ks)"
  shows "\<exists>s' c'. key_stack_start e env s = Some (s', 0) \<and> amlkey_if s' = Some IFTYPE_NORMAL_STORAGE \<and>
     normal_running (emmc_key_read e) (emmc_key_write e) (ek_live e part user c' k cap off) 262144 H s' \<and>
     nk_map (keys (nk s')) = nk_map ks"
proof -
  let ?ut = "\<lparr>storage_type = 1, ut_ops = \<lparr>ops_read = Some (emmc_key_read e), ops_write = Some (emmc_key_write e)\<rparr>\<rparr>"
  have un: "storage_type (unifykey_types s) = 0" and nz: "normal_blksz s = 262144"
    and fr: "blockinited (nk s) = 0" "keys (nk s) = []" using boot by (auto simp: boot_store_def)
  obtain d c' where 1: "emmc_key_init e s = Some (s\<lparr>sdev := d, unifykey_types := ?ut\<rparr>, 0)"
    "ek_live e part user c' k cap off d" "ek_image user off d = Some bs"
    using emmc_key_init_image [OF i im un] by auto
  let ?s1 = "s\<lparr>sdev := d, unifykey_types := ?ut\<rparr>"
  obtain kk where kk: "security_key_init (u_smc env) (u_mm env) (u_share_ok env) (sk ?s1) = (kk, - EOPNOTSUPP)"
    using sec by (cases "security_key_init (u_smc env) (u_mm env) (u_share_ok env) (sk s)") simp
  obtain b where b: "length b = 262144" "amlkey_if_init env ?s1 =
     (?s1\<lparr>sk := kk, normal_block := Some b, nk := (nk s)\<lparr>ticks := Suc (ticks (nk s))\<rparr>,
        amlkey_if := Some IFTYPE_NORMAL_STORAGE\<rparr>, 0)"
    using amlkey_if_init_normal [OF _ bz kk] ke nz by (auto simp: kernel_ok_def)
  let ?s2 = "?s1\<lparr>sk := kk, normal_block := Some b, nk := (nk s)\<lparr>ticks := Suc (ticks (nk s))\<rparr>,
        amlkey_if := Some IFTYPE_NORMAL_STORAGE\<rparr>"
  have rdy: "normal_ready (emmc_key_read e) (emmc_key_write e) (ek_live e part user c' k cap off) 262144 ?s2"
    using 1(2) b(1) nz by (simp add: normal_ready_def)
  have "ek_image user off (sdev ?s2) = Some bs" "blockinited (nk ?s2) = 0" "keys (nk ?s2) = []"
    using 1(3) fr by simp_all
  from emmc_keys.init_normal_image [OF rdy ke this(1) ni this(2,3)] obtain s' where
    s': "amlkey_init_normal env ?s2 = Some (s', 0)"
      "normal_running (emmc_key_read e) (emmc_key_write e) (ek_live e part user c' k cap off) 262144 H s'"
      "amlkey_if s' = amlkey_if ?s2" "nk_map (keys (nk s')) = nk_map ks" by blast
  have "key_stack_start e env s = Some (s', 0)"
    using 1(1) b(2) s'(1) by (simp add: key_stack_start_def amlkey_init_def)
  with s' show ?thesis by auto
qed

section \<open>A concrete board\<close>

text \<open>A board without secure storage, with an empty key store on a memory-backed card, for the witnesses.\<close>

definition plain_env :: "unit uk_env" where
  "plain_env = \<lparr>u_kenv = good_env, u_smc = \<lambda>func st. (SMC_UNK, st),
     u_mm = \<lparr>pfn_valid = \<lambda>_. True, phys_to_virt = \<lambda>_ _. None, ioremap_cache = \<lambda>_ _. None\<rparr>,
     u_blocksize = None, u_share_ok = True\<rparr>"

definition booted :: "disk \<Rightarrow> (unit, (u8 \<times> disk) ek_state) uk_store" where
  "booted dk = \<lparr>securekey_prebuf = None, si_buffer = False, si_size = 0x40000,
     unifykey_types = \<lparr>storage_type = 0, ut_ops = \<lparr>ops_read = None, ops_write = None\<rparr>\<rparr>,
     normal_blksz = 262144, normal_flashsize = 262144, normal_block = None, amlkey_if = None,
     nk = \<lparr>keys = [], blockinited = 0, rawhead = reset_raw_head, enchead = \<lparr>blocksize = 0, flashsize = 0\<rparr>, ticks = 0\<rparr>,
     sk = \<lparr>storage_init_status = 0, sm_in = [], sm_out = [], sm_block = [], sm_size = 0, fw = ()\<rparr>, sdev = ram_ek dk\<rparr>"

definition serving :: "(unit, (u8 \<times> disk) ek_state) uk_store" where
  "serving = (booted (\<lambda>_. 0))\<lparr>unifykey_types := \<lparr>storage_type = 1,
       ut_ops = \<lparr>ops_read = Some (emmc_key_read ram_env), ops_write = Some (emmc_key_write ram_env)\<rparr>\<rparr>,
     normal_block := Some (replicate 262144 0), amlkey_if := Some IFTYPE_NORMAL_STORAGE,
     nk := (nk (booted (\<lambda>_. 0)))\<lparr>blockinited := 2\<rparr>\<rparr>"

lemma plain_ok: "kernel_ok good_hash plain_env"
  using good_env_ok by (simp add: kernel_ok_def plain_env_def)

lemma serving_running: "normal_running (emmc_key_read ram_env) (emmc_key_write ram_env)
    (ek_live ram_env fst snd ram_card 0 0x200000 0x2400000) 262144 good_hash serving"
  using ram_ek_live [of "\<lambda>_. 0"]
  by (simp add: normal_running_def normal_ready_def serving_def booted_def nk_inv_def reset_raw_head_def)

lemma serving_keys: "nk_map (keys (nk serving)) = Map.empty" "amlkey_if serving = Some IFTYPE_NORMAL_STORAGE"
  by (simp_all add: serving_def booted_def nk_map_def)

lemma booted_ok: "boot_store (booted dk)" "ek_live ram_env fst snd ram_card 0 0x200000 0x2400000 (sdev (booted dk))"
  "snd (dev (kmmc (sdev (booted dk)))) = dk"
  "snd (security_key_init (u_smc plain_env) (u_mm plain_env) (u_share_ok plain_env) (sk (booted dk))) = - EOPNOTSUPP"
  using ram_ek_live [of dk]
  by (simp_all add: boot_store_def booted_def ram_ek_dev security_key_init_def plain_env_def storage_smc_ops_def)

lemma space_one: "store_space [nm \<mapsto> (d, a)] = obj_space nm (length d)"
  by (simp add: store_space_def)

lemma serving_write:
  "\<exists>s1. amlkey_write plain_env serving (Some [0x6D]) [1, 2] 2 0 = Some (s1, 2)"
proof -
  have a: "key_acceptable (nk_map (keys (nk serving))) [0x6D] [1, 2] 2 0"
    by (simp add: key_acceptable_def serving_keys)
  show ?thesis
    using emmc_keys.write_normal_iff_fits [OF serving_running plain_ok a refl] serving_keys
    by (auto simp: space_one obj_space_def amlkey_write_def)
qed
end
