(* ===== verification/Kernel_Text.thy ===== *)
theory Kernel_Text
  imports Aml_Prelude
begin

text \<open>
  Text as the drivers read and write it: numbers as \<open>printf\<close> writes them with their lengths, the string
  at a position of a buffer, and bounded appending to the page that \<open>sysfs\<close> gives to a \<open>show\<close> function.
\<close>

text \<open>Numbers as \<open>printf\<close> writes them.\<close>

function radix :: "nat \<Rightarrow> nat \<Rightarrow> string" where
  "radix b n =
     (if b < 2 \<or> n < b then [''0123456789abcdef'' ! (n mod 16)]
      else radix b (n div b) @ [''0123456789abcdef'' ! (n mod b mod 16)])"
  by auto
termination
  by (relation "measure snd") auto

declare radix.simps [simp del]

definition fmt_d :: "int \<Rightarrow> string" where
  "fmt_d i = (if i < 0 then ''-'' @ radix 10 (nat (- i)) else radix 10 (nat i))"

definition fmt_x :: "nat \<Rightarrow> nat \<Rightarrow> string" where
  "fmt_x w n = (let s = radix 16 n in replicate (w - length s) (CHR ''0'') @ s)"

lemma radix_length: "2 \<le> b \<Longrightarrow> 0 < k \<Longrightarrow> n < b ^ k \<Longrightarrow> length (radix b n) \<le> k"
proof (induction k arbitrary: n)
  case 0
  then show ?case by simp
next
  case (Suc k)
  show ?case
  proof (cases "n < b")
    case True
    then show ?thesis by (simp add: radix.simps [of b n])
  next
    case False
    have k: "0 < k" using False Suc.prems(3) by (cases k) auto
    have "n div b < b ^ k" using Suc.prems(3) by (simp add: less_mult_imp_div_less mult.commute)
    then have "length (radix b (n div b)) \<le> k" using Suc.IH [OF Suc.prems(1) k] by blast
    then show ?thesis using False by (simp add: radix.simps [of b n])
  qed
qed

lemma fmt_d_length: "0 < k \<Longrightarrow> \<bar>i\<bar> < 10 ^ k \<Longrightarrow> length (fmt_d i) \<le> Suc k"
  using radix_length [of 10 k "nat i"] radix_length [of 10 k "nat (- i)"]
  by (auto simp: fmt_d_def nat_less_iff)

lemma sint_bounds32: "\<bar>sint (w :: u32)\<bar> < 10 ^ 10"
  using sint_greater_eq [of w] sint_less [of w] by (simp add: abs_less_iff)

lemma sint_bounds64: "\<bar>sint (w :: u64)\<bar> < 10 ^ 19"
  using sint_greater_eq [of w] sint_less [of w] by (simp add: abs_less_iff)

lemma fmt_x_length: "0 < w \<Longrightarrow> n < 16 ^ w \<Longrightarrow> length (fmt_x w n) = w"
  using radix_length [of 16 w n] by (simp add: fmt_x_def Let_def)

lemma fmt_d_small: "i \<in> {0, 1} \<Longrightarrow> length (fmt_d i) = 1"
  by (auto simp: fmt_d_def radix.simps)

text \<open>The C string that starts at a position of a buffer: \<open>None\<close> if no terminator follows.\<close>

definition str_at :: "u8 list \<Rightarrow> nat \<Rightarrow> cstr option" where
  "str_at buf pos = (if 0 \<in> set (drop pos buf) then Some (takeWhile (\<lambda>b. b \<noteq> 0) (drop pos buf)) else None)"

definition byte_at :: "u8 list \<Rightarrow> nat \<Rightarrow> u8 option" where
  "byte_at buf i = (if i < length buf then Some (buf ! i) else None)"

definition cstr_str :: "cstr \<Rightarrow> string" where
  "cstr_str bs = map (\<lambda>b. char_of (unat b)) bs"

text \<open>\<open>sprintf(buf + len, ...)\<close> on the page: the text and its terminator have to fit.\<close>

definition sprintf_page :: "string \<Rightarrow> string \<Rightarrow> string option" where
  "sprintf_page s buf = (if length buf + length s < 4096 then Some (buf @ s) else None)"

lemma str_at_terminated:
  "0 \<notin> set xs \<Longrightarrow> str_at (xs @ 0 # ys) 0 = Some xs"
  by (induction xs) (auto simp: str_at_def)

lemma str_at_unterminated: "0 \<notin> set buf \<Longrightarrow> str_at buf pos = None"
  by (auto simp: str_at_def dest: in_set_dropD)

end
