(* ===== verification/Named_Store.thy ===== *)
theory Named_Store
  imports Aml_Prelude
begin

text \<open>
  The contract that the unified key device relies on, whichever storage a key is configured for: bytes
  are stored under a name and fetched again.  What a caller passes and what is then kept may differ (a
  storage may accept a textual form), so \<open>takes\<close> relates the two; \<open>holds\<close> says that the bytes are kept
  under the name.
\<close>

locale named_store =
  fixes store :: "'s \<Rightarrow> cstr \<Rightarrow> u8 list \<Rightarrow> ('s \<times> int) option"
    and fetch_key :: "'s \<Rightarrow> cstr \<Rightarrow> u8 list \<Rightarrow> ('s \<times> u8 list \<times> int) option"
    and takes :: "'s \<Rightarrow> cstr \<Rightarrow> u8 list \<Rightarrow> u8 list \<Rightarrow> bool"
    and holds :: "'s \<Rightarrow> cstr \<Rightarrow> u8 list \<Rightarrow> bool"
  assumes store_holds: "takes s nm data bs \<Longrightarrow> \<exists>s'. store s nm data = Some (s', int (length data)) \<and> holds s' nm bs"
    and fetch_holds: "holds s nm bs \<Longrightarrow> length bs \<le> length buf \<Longrightarrow>
      \<exists>s' buf'. fetch_key s nm buf = Some (s', buf', int (length bs)) \<and> length buf' = length buf \<and>
        take (length bs) buf' = bs \<and> holds s' nm bs"
begin

text \<open>What was stored is fetched, and fetching does not use it up.\<close>

lemma store_fetch:
  assumes "takes s nm data bs" and "length bs \<le> length buf" and "store s nm data = Some (s1, r)"
  obtains s2 buf' where "fetch_key s1 nm buf = Some (s2, buf', int (length bs))" and "take (length bs) buf' = bs"
    and "holds s2 nm bs" and "length buf' = length buf" and "r = int (length data)"
  using store_holds [OF assms(1)] fetch_holds [OF _ assms(2)] assms(3) by fastforce

lemma fetch_twice:
  assumes "holds s nm bs" and "length bs \<le> length buf" and "length bs \<le> length buf2"
  shows "\<exists>s1 b1 s2 b2. fetch_key s nm buf = Some (s1, b1, int (length bs)) \<and>
    fetch_key s1 nm buf2 = Some (s2, b2, int (length bs)) \<and> take (length bs) b1 = take (length bs) b2"
  using fetch_holds [OF assms(1,2)] fetch_holds [OF _ assms(3)] by (metis (no_types, lifting))

end
end
