(* ===== verification/Efuse.thy ===== *)
theory Efuse
  imports Normal_Key_Tlv Kernel_Text Named_Store
begin

unbundle bit_operations_syntax

text \<open>
  The efuse driver of \<open>soc/amlogic/unifykey\<close>: the firmware calls (\<open>efuse_api.c\<close>), the character device,
  the attributes, the device tree tables, probe and remove (\<open>efuse.c\<close>), and the burning device
  (\<open>efuse_burn.c\<close>).  The firmware is a parameter; its two shared buffers are part of the state.  An access
  outside a buffer, or through a table that was never allocated or is freed, has no result (\<open>None\<close>).
  Neither the mutex nor the move to the first processor is modelled: calls run one after the other.
\<close>

section \<open>State\<close>

record efusekey_info =
  ei_keyname :: cstr
  ei_offset :: u32
  ei_size :: u32

record lockable_info =
  li_itemname :: cstr
  li_subcmd :: u32

record aml_efuse_cmd =
  read_cmd :: u32
  write_cmd :: u32
  get_max_cmd :: u32
  mem_in_base_cmd :: u32
  mem_out_base_cmd :: u32

text \<open>What the probe has acquired from the kernel.\<close>

record efuse_held =
  held_dev :: bool
  held_clk :: bool
  held_chrdev :: bool
  held_class :: bool
  held_cdev :: bool
  held_node :: bool

text \<open>The keys and the lockable items, each with the count from the device tree and the array (no array
  before the first allocation, an array without entries after \<open>kfree\<close>), the firmware with its two
  shared buffers, and the number of allocator calls.\<close>

record 'f efuse_st =
  ek_num :: int
  ek_infos :: "efusekey_info list option"
  ec_main_cmd :: u32
  ec_num :: u32
  ec_infos :: "lockable_info list option"
  efuse_cmd :: aml_efuse_cmd
  efuse_pattern_size :: u32
  dev_name :: "u8 list"
  ef_fw :: 'f
  ef_in :: "u8 list"
  ef_out :: "u8 list"
  ef_ticks :: nat
  ef_reg_base :: bool
  secureboot_mask :: u32
  ef_held :: efuse_held

text \<open>A firmware call: function, arguments, firmware state and shared buffers to the first result register
  and the new state.\<close>

type_synonym 'f ef_smc =
  "u64 \<Rightarrow> u64 list \<Rightarrow> 'f \<times> u8 list \<times> u8 list \<Rightarrow> u64 \<times> 'f \<times> u8 list \<times> u8 list"

text \<open>What the driver takes from outside: firmware, \<open>kmalloc\<close> and \<open>kzalloc\<close> (which may give more bytes
  than asked for), the conversions \<open>sscanf(s, "%x:", ...)\<close> (the value if one was converted) and
  \<open>kstrtou8(s, 16, ...)\<close> (result and value), and the constants that no header of the sources defines:
  \<open>EFUSE_READ_CALI_ITEM\<close>, the first and last calibration and lockable items, and \<open>EFUSE_KEY_NAME_LEN\<close>
  (at most 32: \<open>linux/amlogic/efuse.h\<close> declares the names of \<open>struct efusekey_info\<close> as arrays of 32 bytes).\<close>

record 'f ef_env =
  ev_smc :: "'f ef_smc"
  ev_km :: kmalloc_t
  ev_kz :: kmalloc_t
  ev_scan :: "cstr \<Rightarrow> u32 option"
  ev_u8 :: "cstr \<Rightarrow> int \<times> u32"
  ev_cali_cmd :: u32
  ev_cali_items :: "u32 \<times> u32"
  ev_lock_items :: "u32 \<times> u32"
  ev_name_len :: nat

abbreviation (input) EFUSE_HAL_API_READ :: u32 where "EFUSE_HAL_API_READ \<equiv> 0"
abbreviation (input) EFUSE_HAL_API_WRITE :: u32 where "EFUSE_HAL_API_WRITE \<equiv> 1"
abbreviation (input) EFUSE_PATTERN_SIZE :: u32 where "EFUSE_PATTERN_SIZE \<equiv> 0x400"
abbreviation (input) AML_DATA_PROCESS :: u64 where "AML_DATA_PROCESS \<equiv> 0x820000FF"
abbreviation (input) AML_D_P_W_EFUSE_AMLOGIC :: u64 where "AML_D_P_W_EFUSE_AMLOGIC \<equiv> 0x20"
abbreviation (input) sizeof_efusekey :: nat where "sizeof_efusekey \<equiv> 40"
abbreviation (input) EFUSE_CHECK_NAME_LEN :: nat where "EFUSE_CHECK_NAME_LEN \<equiv> 32"
abbreviation (input) ENOTTY :: int where "ENOTTY \<equiv> 25"

section \<open>Firmware calls\<close>

definition ef_call :: "'f ef_env \<Rightarrow> u64 \<Rightarrow> u64 list \<Rightarrow> 'f efuse_st \<Rightarrow> u64 \<times> 'f efuse_st" where
  "ef_call env f args st =
     (case ev_smc env f args (ef_fw st, ef_in st, ef_out st) of
        (a0, fw, i, o') \<Rightarrow> (a0, st\<lparr>ef_fw := fw, ef_in := i, ef_out := o'\<rparr>))"

definition get_sharemem_info :: "'f ef_env \<Rightarrow> u32 \<Rightarrow> 'f efuse_st \<Rightarrow> u64 \<times> 'f efuse_st" where
  "get_sharemem_info env function_id st = ef_call env (ucast function_id) [] st"

text \<open>The results are the state, the buffer, \<open>*retcnt\<close> (when set) and the return value.  The store through
  \<open>retcnt\<close> is 64 bits wide although its callers pass a 32-bit variable.\<close>

definition meson_efuse_fn_smc ::
    "'f ef_env \<Rightarrow> u32 \<Rightarrow> u32 \<Rightarrow> u32 \<Rightarrow> u8 list \<Rightarrow> 'f efuse_st \<Rightarrow> ('f efuse_st \<times> u8 list \<times> u64 option \<times> int) option" where
  "meson_efuse_fn_smc env cmd offset sz buffer st =
     (if cmd = EFUSE_HAL_API_WRITE then do {
        let (_, st) = get_sharemem_info env (mem_in_base_cmd (efuse_cmd st)) st;
        bs \<leftarrow> get_bytes buffer 0 (unat sz);
        i \<leftarrow> put_bytes (ef_in st) 0 bs;
        let (a0, st) = ef_call env (ucast (write_cmd (efuse_cmd st))) [ucast offset, ucast sz] (st\<lparr>ef_in := i\<rparr>);
        Some (st, buffer, Some a0, if a0 = 0 then -1 else 0)
      }
      else if cmd = EFUSE_HAL_API_READ then do {
        let (a0, st) = ef_call env (ucast (read_cmd (efuse_cmd st))) [ucast offset, ucast sz] st;
        if a0 \<noteq> 0 then do {
          let (_, st) = get_sharemem_info env (mem_out_base_cmd (efuse_cmd st)) st;
          bs \<leftarrow> get_bytes (ef_out st) 0 (unat a0);
          buffer \<leftarrow> put_bytes buffer 0 bs;
          Some (st, buffer, Some a0, 0)
        }
        else Some (st, buffer, Some a0, -1)
      }
      else Some (st, buffer, None, -1))"

definition efuse_data_process :: "'f ef_env \<Rightarrow> u64 \<Rightarrow> u8 list \<Rightarrow> u64 \<Rightarrow> u64 \<Rightarrow> 'f efuse_st \<Rightarrow> ('f efuse_st \<times> u64) option" where
  "efuse_data_process env ty buffer len opt st =
     do {
       let (phy_in_base, st) = get_sharemem_info env (mem_in_base_cmd (efuse_cmd st)) st;
       bs \<leftarrow> get_bytes buffer 0 (unat len);
       i \<leftarrow> put_bytes (ef_in st) 0 bs;
       let (a0, st) = ef_call env AML_DATA_PROCESS [ty, phy_in_base, len, opt] (st\<lparr>ef_in := i\<rparr>);
       Some (st, a0)
     }"

definition efuse_amlogic_cali_item_read :: "'f ef_env \<Rightarrow> u32 \<Rightarrow> 'f efuse_st \<Rightarrow> 'f efuse_st \<times> int" where
  "efuse_amlogic_cali_item_read env item st =
     (if item < fst (ev_cali_items env) \<or> item > snd (ev_cali_items env) then (st, - EINVAL)
      else let (a0, st) = ef_call env (ucast (ev_cali_cmd env)) [ucast item] st in (st, sint (ucast a0 :: u32)))"

definition efuse_amlogic_check_lockable_item :: "'f ef_env \<Rightarrow> u32 \<Rightarrow> 'f efuse_st \<Rightarrow> 'f efuse_st \<times> int" where
  "efuse_amlogic_check_lockable_item env item st =
     (if item < fst (ev_lock_items env) \<or> item > snd (ev_lock_items env) then (st, - EINVAL)
      else let (a0, st) = ef_call env (ucast (ev_cali_cmd env)) [ucast item] st in (st, sint (ucast a0 :: u32)))"

definition efuse_amlogic_set :: "'f ef_env \<Rightarrow> u8 list \<Rightarrow> u64 \<Rightarrow> 'f efuse_st \<Rightarrow> ('f efuse_st \<times> u64) option" where
  "efuse_amlogic_set env buf count st = efuse_data_process env AML_D_P_W_EFUSE_AMLOGIC buf count 0 st"

definition efuse_get_max :: "'f ef_env \<Rightarrow> 'f efuse_st \<Rightarrow> 'f efuse_st \<times> int" where
  "efuse_get_max env st =
     (let (a0, st) = ef_call env (ucast (get_max_cmd (efuse_cmd st))) [] st
      in (st, if a0 = 0 then -1 else sint a0))"

section \<open>The user area\<close>

text \<open>\<open>retcnt\<close> is an \<open>unsigned int\<close>; the position is returned as well.\<close>

definition efuse_read_pos ::
    "'f ef_env \<Rightarrow> u8 list \<Rightarrow> nat \<Rightarrow> int \<Rightarrow> 'f efuse_st \<Rightarrow> ('f efuse_st \<times> u8 list \<times> int \<times> int) option" where
  "efuse_read_pos env buf count ppos st =
     do {
       (st, buf, cnt, ret) \<leftarrow> meson_efuse_fn_smc env EFUSE_HAL_API_READ (of_int ppos) (of_nat count) buf st;
       case cnt of
         Some c \<Rightarrow> (let n = int (unat (ucast c :: u32)) in
                    if ret = 0 then Some (st, buf, ppos + n, n) else Some (st, buf, ppos, ret))
       | None \<Rightarrow> Some (st, buf, ppos, ret)
     }"

definition efuse_write_pos ::
    "'f ef_env \<Rightarrow> u8 list \<Rightarrow> nat \<Rightarrow> int \<Rightarrow> 'f efuse_st \<Rightarrow> ('f efuse_st \<times> int \<times> int) option" where
  "efuse_write_pos env buf count ppos st =
     do {
       (st, _, cnt, ret) \<leftarrow> meson_efuse_fn_smc env EFUSE_HAL_API_WRITE (of_int ppos) (of_nat count) buf st;
       case cnt of
         Some c \<Rightarrow> (let n = int (unat (ucast c :: u32)) in
                    if ret = 0 then Some (st, n, n) else Some (st, ppos, ret))
       | None \<Rightarrow> Some (st, ppos, ret)
     }"

text \<open>The position of the caller is read but not written back.\<close>

definition efuse_read_usr ::
    "'f ef_env \<Rightarrow> u8 list \<Rightarrow> nat \<Rightarrow> int \<Rightarrow> 'f efuse_st \<Rightarrow> ('f efuse_st \<times> u8 list \<times> int) option" where
  "efuse_read_usr env buf count ppos st =
     (case ev_km env (ef_ticks st) count of
        None \<Rightarrow> Some (st\<lparr>ef_ticks := Suc (ef_ticks st)\<rparr>, buf, - ENOMEM)
      | Some pdata \<Rightarrow> do {
          (st, pdata, _, ret) \<leftarrow> efuse_read_pos env pdata count ppos (st\<lparr>ef_ticks := Suc (ef_ticks st)\<rparr>);
          bs \<leftarrow> get_bytes pdata 0 count;
          buf \<leftarrow> put_bytes buf 0 bs;
          Some (st, buf, ret)
        })"

definition efuse_write_usr ::
    "'f ef_env \<Rightarrow> u8 list \<Rightarrow> nat \<Rightarrow> int \<Rightarrow> 'f efuse_st \<Rightarrow> ('f efuse_st \<times> int) option" where
  "efuse_write_usr env buf count ppos st =
     (case ev_km env (ef_ticks st) count of
        None \<Rightarrow> Some (st\<lparr>ef_ticks := Suc (ef_ticks st)\<rparr>, - ENOMEM)
      | Some pdata \<Rightarrow> do {
          bs \<leftarrow> get_bytes buf 0 count;
          pdata \<leftarrow> put_bytes pdata 0 bs;
          (st, _, ret) \<leftarrow> efuse_write_pos env pdata count ppos (st\<lparr>ef_ticks := Suc (ef_ticks st)\<rparr>);
          Some (st, ret)
        })"

section \<open>Keys by name\<close>

fun find_info :: "efusekey_info list \<Rightarrow> nat \<Rightarrow> cstr \<Rightarrow> efusekey_info option option" where
  "find_info infos 0 item = Some None"
| "find_info [] (Suc n) item = None"
| "find_info (x # infos) (Suc n) item = (if ei_keyname x = item then Some (Some x) else find_info infos n item)"

definition efuse_getinfo :: "'f efuse_st \<Rightarrow> cstr \<Rightarrow> efusekey_info option option" where
  "efuse_getinfo st item =
     (if ek_num st \<le> 0 then Some None
      else case ek_infos st of None \<Rightarrow> None | Some infos \<Rightarrow> find_info infos (nat (ek_num st)) item)"

fun find_item :: "lockable_info list \<Rightarrow> nat \<Rightarrow> cstr \<Rightarrow> lockable_info option option" where
  "find_item infos 0 item = Some None"
| "find_item [] (Suc n) item = None"
| "find_item (x # infos) (Suc n) item = (if item = li_itemname x then Some (Some x) else find_item infos n item)"

definition efuse_find_lockable :: "'f efuse_st \<Rightarrow> cstr \<Rightarrow> lockable_info option option" where
  "efuse_find_lockable st item =
     (if ec_num st = 0 then Some None
      else case ec_infos st of None \<Rightarrow> None | Some infos \<Rightarrow> find_item infos (unat (ec_num st)) item)"

definition efuse_burn_lockable_is_cfg :: "'f efuse_st \<Rightarrow> cstr \<Rightarrow> int option" where
  "efuse_burn_lockable_is_cfg st itemname =
     do { i \<leftarrow> efuse_find_lockable st itemname; Some (if i = None then -1 else 0) }"

definition efuse_burn_check_burned ::
    "'f ef_env \<Rightarrow> cstr \<Rightarrow> 'f efuse_st \<Rightarrow> ('f efuse_st \<times> int) option" where
  "efuse_burn_check_burned env itemname st =
     do {
       i \<leftarrow> efuse_find_lockable st itemname;
       case i of
         None \<Rightarrow> Some (st, -1)
       | Some x \<Rightarrow> Some (efuse_amlogic_check_lockable_item env (li_subcmd x) st)
     }"

text \<open>The loop over the bytes \<open>xx:xx:...\<close>: number of bytes left, index, position, buffer.\<close>

fun colon_loop :: "'f ef_env \<Rightarrow> nat \<Rightarrow> nat \<Rightarrow> nat \<Rightarrow> u8 list \<Rightarrow> (u8 list \<times> int) option" where
  "colon_loop env 0 i s buf = Some (buf, 0)"
| "colon_loop env (Suc n) i s buf =
     do {
       t \<leftarrow> str_at buf s;
       let (ret, v) = (if n \<noteq> 0
          then (case ev_scan env t of Some v \<Rightarrow> (if v > 0xff then (- EINVAL, v) else (1, v)) | None \<Rightarrow> (- EINVAL, 0))
          else ev_u8 env t);
       if ret < 0 then Some (buf, ret)
       else do {
         buf \<leftarrow> put_bytes buf i [ucast v];
         c \<leftarrow> byte_at buf (s + 2);
         colon_loop env n (Suc i) (if c = 0x3a then s + 3 else s + 2) buf
       }
     }"

text \<open>What becomes of the buffer before it is written to the area: text with colons is converted, anything
  else must have the size of the key, up to a final newline.\<close>

definition convert_input :: "'f ef_env \<Rightarrow> nat \<Rightarrow> nat \<Rightarrow> u8 list \<Rightarrow> (u8 list \<times> int) option" where
  "convert_input env n count op' =
     do {
       t \<leftarrow> str_at op' 0;
       if 0x3a \<in> set t then colon_loop env n 0 0 op'
       else do {
         l \<leftarrow> (if count = 0 then None else byte_at op' (count - 1));
         Some (op', if (l \<noteq> 0x0A \<and> count \<noteq> n) \<or> count - 1 > n \<or> count < n then - EINVAL else 0)
       }
     }"

definition efuse_user_attr_store ::
    "'f ef_env \<Rightarrow> cstr \<Rightarrow> u8 list \<Rightarrow> nat \<Rightarrow> 'f efuse_st \<Rightarrow> ('f efuse_st \<times> int) option" where
  "efuse_user_attr_store env name buf count st =
     do {
       info \<leftarrow> efuse_getinfo st name;
       case info of
         None \<Rightarrow> Some (st, - EINVAL)
       | Some info \<Rightarrow>
           (case ev_kz env (ef_ticks st) count of
              None \<Rightarrow> Some (st\<lparr>ef_ticks := Suc (ef_ticks st)\<rparr>, - ENOMEM)
            | Some op' \<Rightarrow> do {
                let st = st\<lparr>ef_ticks := Suc (ef_ticks st)\<rparr>;
                bs \<leftarrow> get_bytes buf 0 count;
                op' \<leftarrow> put_bytes op' 0 bs;
                (op', ret) \<leftarrow> convert_input env (unat (ei_size info)) count op';
                if ret < 0 then Some (st, ret)
                else do {
                  (st, ret) \<leftarrow> efuse_write_usr env op' (unat (ei_size info)) (int (unat (ei_offset info))) st;
                  Some (st, if ret < 0 then ret else int count)
                }
              })
     }"

definition efuse_user_attr_read ::
    "'f ef_env \<Rightarrow> cstr \<Rightarrow> u8 list \<Rightarrow> 'f efuse_st \<Rightarrow> ('f efuse_st \<times> u8 list \<times> int) option" where
  "efuse_user_attr_read env name buf st =
     do {
       info \<leftarrow> efuse_getinfo st name;
       case info of
         None \<Rightarrow> Some (st, buf, - EINVAL)
       | Some info \<Rightarrow>
           (case ev_kz env (ef_ticks st) (unat (ei_size info)) of
              None \<Rightarrow> Some (st\<lparr>ef_ticks := Suc (ef_ticks st)\<rparr>, buf, - ENOMEM)
            | Some op' \<Rightarrow> do {
                (st, op', ret) \<leftarrow> efuse_read_usr env op' (unat (ei_size info)) (int (unat (ei_offset info)))
                                    (st\<lparr>ef_ticks := Suc (ef_ticks st)\<rparr>);
                if ret < 0 then Some (st, buf, ret)
                else do {
                  bs \<leftarrow> get_bytes op' 0 (unat (ei_size info));
                  buf \<leftarrow> put_bytes buf 0 bs;
                  Some (st, buf, int (unat (ei_size info)))
                }
              })
     }"

section \<open>The character device\<close>

definition efuse_llseek :: "'f ef_env \<Rightarrow> int \<Rightarrow> int \<Rightarrow> int \<Rightarrow> 'f efuse_st \<Rightarrow> 'f efuse_st \<times> int \<times> int" where
  "efuse_llseek env f_pos off whence st =
     (let (st, max_size) = efuse_get_max env st in
      if max_size \<le> 0 then (st, f_pos, - EINVAL)
      else if whence \<noteq> 0 \<and> whence \<noteq> 1 \<and> whence \<noteq> 2 then (st, f_pos, - EINVAL)
      else let newpos = (if whence = 0 then off else if whence = 1 then f_pos + off else max_size + off) in
        if newpos < 0 \<or> newpos \<ge> max_size then (st, f_pos, - EINVAL)
        else (st, newpos, newpos))"

abbreviation (input) EFUSE_INFO_GET :: u32 where "EFUSE_INFO_GET \<equiv> 0x6640"

text \<open>The structure of the user is given by the bytes of its name (\<open>None\<close>: it cannot be read); the
  result holds the offset and the size written back.\<close>

definition efuse_unlocked_ioctl ::
    "'f efuse_st \<Rightarrow> u32 \<Rightarrow> u8 list option \<Rightarrow> bool \<Rightarrow> ((u32 \<times> u32) option \<times> int) option" where
  "efuse_unlocked_ioctl st cmd user_name copy_out =
     (if cmd = EFUSE_INFO_GET then
        (case user_name of
           None \<Rightarrow> Some (None, - EFAULT)
         | Some keyname \<Rightarrow> do {
             info \<leftarrow> efuse_getinfo st (takeWhile (\<lambda>b. b \<noteq> 0) keyname);
             case info of
               None \<Rightarrow> Some (None, - EFAULT)
             | Some info \<Rightarrow> (if \<not> copy_out then Some (None, - EFAULT)
                             else Some (Some (ei_offset info, ei_size info), 0))
           })
      else Some (None, - ENOTTY))"

definition user_range_ok :: "u32 \<Rightarrow> nat \<Rightarrow> u32 \<Rightarrow> bool" where
  "user_range_ok pos count max_size \<longleftrightarrow>
     \<not> (pos \<ge> max_size \<or> count > unat max_size \<or> count > unat (max_size - pos))"

text \<open>The bytes copied to the user, and the result.\<close>

definition efuse_read ::
    "'f ef_env \<Rightarrow> nat \<Rightarrow> int \<Rightarrow> bool \<Rightarrow> 'f efuse_st \<Rightarrow> ('f efuse_st \<times> u8 list option \<times> int) option" where
  "efuse_read env count ppos copy_out st =
     (let (st, ret) = efuse_get_max env st in
      if ret < 0 then Some (st, None, ret)
      else if \<not> user_range_ok (of_int ppos) count (of_int ret) then Some (st, None, - EINVAL)
      else case ev_kz env (ef_ticks st) count of
        None \<Rightarrow> Some (st\<lparr>ef_ticks := Suc (ef_ticks st)\<rparr>, None, - ENOMEM)
      | Some op' \<Rightarrow> do {
          op' \<leftarrow> put_bytes op' 0 (replicate count 0);
          (st, op', ret) \<leftarrow> efuse_read_usr env op' count ppos (st\<lparr>ef_ticks := Suc (ef_ticks st)\<rparr>);
          if ret < 0 then Some (st, None, ret)
          else do {
            bs \<leftarrow> get_bytes op' 0 count;
            if \<not> copy_out then Some (st, None, - EFAULT)
            else Some (st, Some bs, int count)
          }
        })"

definition efuse_write ::
    "'f ef_env \<Rightarrow> u8 list option \<Rightarrow> nat \<Rightarrow> int \<Rightarrow> 'f efuse_st \<Rightarrow> ('f efuse_st \<times> int) option" where
  "efuse_write env user count ppos st =
     (let (st, ret) = efuse_get_max env st in
      if ret < 0 then Some (st, ret)
      else if \<not> user_range_ok (of_int ppos) count (of_int ret) then Some (st, - EINVAL)
      else case ev_kz env (ef_ticks st) count of
        None \<Rightarrow> Some (st\<lparr>ef_ticks := Suc (ef_ticks st)\<rparr>, - ENOMEM)
      | Some op' \<Rightarrow> do {
          let st = st\<lparr>ef_ticks := Suc (ef_ticks st)\<rparr>;
          op' \<leftarrow> put_bytes op' 0 (replicate count 0);
          case user of
            None \<Rightarrow> Some (st, - EFAULT)
          | Some buf \<Rightarrow> do {
              bs \<leftarrow> get_bytes buf 0 count;
              op' \<leftarrow> put_bytes op' 0 bs;
              (st, ret) \<leftarrow> efuse_write_usr env op' count ppos st;
              Some (st, if ret < 0 then ret else int count)
            }
        })"

section \<open>The attributes\<close>

text \<open>The table that both \<open>show\<close> functions write: index, position in the text.\<close>

fun hex_dump :: "u8 list \<Rightarrow> nat \<Rightarrow> string \<Rightarrow> string option" where
  "hex_dump [] i buf = sprintf_page [CHR 0x0A] buf"
| "hex_dump (b # op') i buf =
     do {
       buf \<leftarrow> (if i \<noteq> 0 \<and> i mod 16 = 0 then sprintf_page [CHR 0x0A] buf else Some buf);
       buf \<leftarrow> (if i mod 16 = 0 then sprintf_page (''0x'' @ fmt_x 2 i @ '': '') buf else Some buf);
       buf \<leftarrow> sprintf_page (fmt_x 2 (unat b) @ '' '') buf;
       hex_dump op' (Suc i) buf
     }"

definition efuse_user_attr_show ::
    "'f ef_env \<Rightarrow> cstr \<Rightarrow> 'f efuse_st \<Rightarrow> ('f efuse_st \<times> string \<times> int) option" where
  "efuse_user_attr_show env name st =
     do {
       info \<leftarrow> efuse_getinfo st name;
       case info of
         None \<Rightarrow> Some (st, [], - EINVAL)
       | Some info \<Rightarrow>
           (case ev_kz env (ef_ticks st) (unat (ei_size info)) of
              None \<Rightarrow> Some (st\<lparr>ef_ticks := Suc (ef_ticks st)\<rparr>, [], - ENOMEM)
            | Some op' \<Rightarrow> do {
                op' \<leftarrow> put_bytes op' 0 (replicate (unat (ei_size info)) 0);
                (st, op', ret) \<leftarrow> efuse_read_usr env op' (unat (ei_size info)) (int (unat (ei_offset info)))
                                    (st\<lparr>ef_ticks := Suc (ef_ticks st)\<rparr>);
                if ret < 0 then Some (st, [], ret)
                else do {
                  bs \<leftarrow> get_bytes op' 0 (unat (ei_size info));
                  buf \<leftarrow> hex_dump bs 0 [];
                  Some (st, buf, int (length buf))
                }
              })
     }"

definition userdata_show :: "'f ef_env \<Rightarrow> 'f efuse_st \<Rightarrow> ('f efuse_st \<times> string \<times> int) option" where
  "userdata_show env st =
     (let (st, ret) = efuse_get_max env st in
      if ret < 0 then Some (st, [], ret)
      else let max_size = unat (of_int ret :: u32) in
        case ev_kz env (ef_ticks st) max_size of
          None \<Rightarrow> Some (st\<lparr>ef_ticks := Suc (ef_ticks st)\<rparr>, [], - ENOMEM)
        | Some op' \<Rightarrow> do {
            op' \<leftarrow> put_bytes op' 0 (replicate max_size 0);
            (st, op', ret) \<leftarrow> efuse_read_usr env op' max_size 0 (st\<lparr>ef_ticks := Suc (ef_ticks st)\<rparr>);
            if ret < 0 then Some (st, [], ret)
            else do {
              bs \<leftarrow> get_bytes op' 0 (nat ret);
              buf \<leftarrow> hex_dump bs 0 [];
              Some (st, buf, int (length buf))
            }
          })"

definition userdata_store ::
    "'f ef_env \<Rightarrow> u8 list \<Rightarrow> nat \<Rightarrow> 'f efuse_st \<Rightarrow> ('f efuse_st \<times> int) option" where
  "userdata_store env buf count st =
     (let (st, ret) = efuse_get_max env st in
      if ret < 0 then Some (st, ret)
      else if count > unat (of_int ret :: u32) then Some (st, - EINVAL)
      else case ev_kz env (ef_ticks st) count of
        None \<Rightarrow> Some (st\<lparr>ef_ticks := Suc (ef_ticks st)\<rparr>, - ENOMEM)
      | Some op' \<Rightarrow> do {
          bs \<leftarrow> get_bytes buf 0 count;
          op' \<leftarrow> put_bytes op' 0 bs;
          (st, ret) \<leftarrow> efuse_write_usr env op' count 0 (st\<lparr>ef_ticks := Suc (ef_ticks st)\<rparr>);
          Some (st, if ret < 0 then ret else int count)
        })"

definition amlogic_set_store ::
    "'f ef_env \<Rightarrow> u8 list \<Rightarrow> nat \<Rightarrow> 'f efuse_st \<Rightarrow> ('f efuse_st \<times> int) option" where
  "amlogic_set_store env buf count st =
     (if count \<noteq> unat (efuse_pattern_size st) then Some (st, - EINVAL)
      else case ev_kz env (ef_ticks st) count of
        None \<Rightarrow> Some (st\<lparr>ef_ticks := Suc (ef_ticks st)\<rparr>, - ENOMEM)
      | Some op' \<Rightarrow> do {
          bs \<leftarrow> get_bytes buf 0 count;
          op' \<leftarrow> put_bytes op' 0 bs;
          (st, ret) \<leftarrow> efuse_amlogic_set env op' (of_nat count) (st\<lparr>ef_ticks := Suc (ef_ticks st)\<rparr>);
          Some (st, if ret \<noteq> 0 then - EINVAL else int count)
        })"

text \<open>The register holds \<open>v\<close>.\<close>

definition secureboot_check_show :: "'f efuse_st \<Rightarrow> u32 \<Rightarrow> string" where
  "secureboot_check_show st v =
     (let ret = (if \<not> ef_reg_base st then - EINVAL else sint (v AND secureboot_mask st))
      in if ret < 0 then ''fail'' else if ret = 0 then ''raw'' else ''encrypt'')"

definition checkburn_show :: "'f ef_env \<Rightarrow> 'f efuse_st \<Rightarrow> ('f efuse_st \<times> string) option" where
  "checkburn_show env st =
     do {
       name \<leftarrow> str_at (dev_name st) 0;
       if name \<noteq> [] then do {
         c \<leftarrow> efuse_burn_lockable_is_cfg st name;
         if c = 0 then do {
           (st, n) \<leftarrow> efuse_burn_check_burned env name st;
           Some (st, if n = 1 then ''wrote'' else if n = 0 then ''notwrite'' else ''error'')
         }
         else Some (st, ''nocfg'')
       }
       else Some (st, ''unknown'')
     }"

definition checkburn_store :: "u8 list \<Rightarrow> nat \<Rightarrow> 'f efuse_st \<Rightarrow> ('f efuse_st \<times> int) option" where
  "checkburn_store buf count st =
     do {
       s \<leftarrow> str_at buf 0;
       let n = int (length s) - 1;
       let n = (if n \<ge> int EFUSE_CHECK_NAME_LEN then int EFUSE_CHECK_NAME_LEN - 1 else n);
       bs \<leftarrow> (if n < 0 then None else get_bytes buf 0 (nat n));
       name \<leftarrow> put_bytes (replicate EFUSE_CHECK_NAME_LEN 0) 0 bs;
       Some (st\<lparr>dev_name := name\<rparr>, int count)
     }"

fun checklist_loop :: "lockable_info list \<Rightarrow> nat \<Rightarrow> string \<Rightarrow> string option" where
  "checklist_loop infos 0 buf = Some buf"
| "checklist_loop [] (Suc n) buf = None"
| "checklist_loop (x # infos) (Suc n) buf =
     do {
       buf \<leftarrow> sprintf_page (cstr_str (li_itemname x)) buf;
       buf \<leftarrow> sprintf_page [CHR 0x0A] buf;
       checklist_loop infos n buf
     }"

text \<open>The item name is the format of its \<open>sprintf\<close>: a name with a percent sign has no defined result.\<close>

definition checklist_show :: "'f efuse_st \<Rightarrow> (string \<times> int) option" where
  "checklist_show st =
     (if ec_num st = 0 then Some ([], 0)
      else case ec_infos st of
        None \<Rightarrow> None
      | Some infos \<Rightarrow>
          if \<exists>x \<in> set (take (unat (ec_num st)) infos). 0x25 \<in> set (li_itemname x) then None
          else do { buf \<leftarrow> checklist_loop infos (unat (ec_num st)) []; Some (buf, int (length buf)) })"

section \<open>Device tree\<close>

text \<open>What the device tree holds: an item is absent (\<open>None\<close>) if the property or the node it points to
  is missing; a property is its value or the error of the function that reads it.\<close>

record dt_key =
  dk_keyname :: "int + cstr"
  dk_offset :: "int + u32"
  dk_size :: "int + u32"

record dt_check =
  dc_checkname :: "int + cstr"
  dc_subcmd :: "int + u32"

record efuse_dt =
  dt_key :: "((int + u32) \<times> (nat \<Rightarrow> dt_key option)) option"
  dt_check :: "((int + u32) \<times> (int + u32) \<times> (nat \<Rightarrow> dt_check option)) option"
  dt_read_cmd :: "int + u32"
  dt_write_cmd :: "int + u32"
  dt_get_max_cmd :: "int + u32"
  dt_mem_in :: "int + u32"
  dt_mem_out :: "int + u32"
  dt_pattern :: "int + u32"
  dt_mask :: "int + u32"

text \<open>An absent item also stands for a failed \<open>kasprintf\<close>, whose NULL name matches no property.\<close>

definition key_item_parse_dt :: "nat \<Rightarrow> dt_key option \<Rightarrow> int + efusekey_info" where
  "key_item_parse_dt name_len item =
     (case item of
        None \<Rightarrow> Inl (- EINVAL)
      | Some np_key \<Rightarrow>
          (case dk_keyname np_key of
             Inl e \<Rightarrow> Inl e
           | Inr keyname \<Rightarrow>
               (case dk_offset np_key of
                  Inl e \<Rightarrow> Inl e
                | Inr off \<Rightarrow>
                    (case dk_size np_key of
                       Inl e \<Rightarrow> Inl e
                     | Inr sz \<Rightarrow>
                         Inr \<lparr>ei_keyname = take (name_len - 1) keyname, ei_offset = off, ei_size = sz\<rparr>))))"

fun parse_items :: "('a \<Rightarrow> int + 'b) \<Rightarrow> (nat \<Rightarrow> 'a) \<Rightarrow> nat \<Rightarrow> nat \<Rightarrow> int + 'b list" where
  "parse_items p items 0 index = Inr []"
| "parse_items p items (Suc n) index =
     (case p (items index) of
        Inl e \<Rightarrow> Inl e
      | Inr x \<Rightarrow> (case parse_items p items n (Suc index) of Inl e \<Rightarrow> Inl e | Inr xs \<Rightarrow> Inr (x # xs)))"

abbreviation (input) sizeof_lockable :: nat where "sizeof_lockable \<equiv> EFUSE_CHECK_NAME_LEN + 4"

definition get_efusekey_info :: "'f ef_env \<Rightarrow> efuse_dt \<Rightarrow> 'f efuse_st \<Rightarrow> 'f efuse_st \<times> int" where
  "get_efusekey_info env dt st =
     (case dt_key dt of
        None \<Rightarrow> (st, - EINVAL)
      | Some (Inl e, items) \<Rightarrow> (st, e)
      | Some (Inr num, items) \<Rightarrow>
          (let st = st\<lparr>ek_num := sint num\<rparr> in
           if sint num \<le> 0 then (st, - EINVAL)
           else case ev_kz env (ef_ticks st) (sizeof_efusekey * unat num) of
             None \<Rightarrow> (st\<lparr>ek_infos := None, ef_ticks := Suc (ef_ticks st)\<rparr>, - ENOMEM)
           | Some _ \<Rightarrow>
               (let st = st\<lparr>ef_ticks := Suc (ef_ticks st)\<rparr> in
                case parse_items (key_item_parse_dt (ev_name_len env)) items (unat num) 0 of
                  Inl e \<Rightarrow> (st\<lparr>ek_infos := Some []\<rparr>, e)
                | Inr infos \<Rightarrow> (st\<lparr>ek_infos := Some infos\<rparr>, 0))))"

definition check_item_parse_dt :: "dt_check option \<Rightarrow> int + lockable_info" where
  "check_item_parse_dt item =
     (case item of
        None \<Rightarrow> Inl (- EINVAL)
      | Some np_check \<Rightarrow>
          (case dc_checkname np_check of
             Inl e \<Rightarrow> Inl e
           | Inr checkname \<Rightarrow>
               (case dc_subcmd np_check of
                  Inl e \<Rightarrow> Inl e
                | Inr c \<Rightarrow> Inr \<lparr>li_itemname = take (EFUSE_CHECK_NAME_LEN - 1) checkname, li_subcmd = c\<rparr>)))"

definition get_efusecheck_info :: "'f ef_env \<Rightarrow> efuse_dt \<Rightarrow> 'f efuse_st \<Rightarrow> 'f efuse_st \<times> int" where
  "get_efusecheck_info env dt st =
     (case dt_check dt of
        None \<Rightarrow> (st, - EINVAL)
      | Some (maincmd, checknum, items) \<Rightarrow>
          (let st = st\<lparr>ec_main_cmd := (case maincmd of Inl _ \<Rightarrow> ev_cali_cmd env | Inr c \<Rightarrow> c)\<rparr> in
           case checknum of
             Inl e \<Rightarrow> (st, e)
           | Inr num \<Rightarrow>
               (let st = st\<lparr>ec_num := num\<rparr> in
                if num = 0 then (st, - EINVAL)
                else case ev_kz env (ef_ticks st) (sizeof_lockable * unat num) of
                  None \<Rightarrow> (st\<lparr>ec_infos := None, ef_ticks := Suc (ef_ticks st)\<rparr>, - ENOMEM)
                | Some _ \<Rightarrow>
                    (let st = st\<lparr>ef_ticks := Suc (ef_ticks st)\<rparr> in
                     case parse_items check_item_parse_dt items (unat num) 0 of
                       Inl e \<Rightarrow> (st\<lparr>ec_infos := Some []\<rparr>, e)
                     | Inr infos \<Rightarrow> (st\<lparr>ec_infos := Some infos\<rparr>, 0)))))"

section \<open>Probe and remove\<close>

text \<open>What the kernel answers during the probe: whether \<open>devm_kzalloc\<close> succeeds, the clock (\<open>None\<close> if
  there is none, otherwise the result of enabling it), the registers (\<open>None\<close> without a resource,
  otherwise the error of the mapping or success), the registrations, and what is in the uninitialised
  variable \<open>secureboot_mask\<close>.\<close>

record probe_env =
  pe_dev :: bool
  pe_clk :: "int option"
  pe_reg :: "(int + unit) option"
  pe_mask0 :: u32
  pe_chrdev :: int
  pe_class :: int
  pe_cdev :: int
  pe_node :: int

definition hold :: "(efuse_held \<Rightarrow> efuse_held) \<Rightarrow> 'f efuse_st \<Rightarrow> 'f efuse_st" where
  "hold f st = st\<lparr>ef_held := f (ef_held st)\<rparr>"

definition cmd_upd :: "(aml_efuse_cmd \<Rightarrow> aml_efuse_cmd) \<Rightarrow> 'f efuse_st \<Rightarrow> 'f efuse_st" where
  "cmd_upd f st = st\<lparr>efuse_cmd := f (efuse_cmd st)\<rparr>"

text \<open>Reading properties until one fails.\<close>

fun read_props :: "((int + u32) \<times> (u32 \<Rightarrow> 's \<Rightarrow> 's)) list \<Rightarrow> 's \<Rightarrow> 's \<times> int" where
  "read_props [] s = (s, 0)"
| "read_props ((Inl e, f) # ps) s = (s, e)"
| "read_props ((Inr v, f) # ps) s = read_props ps (f v s)"

definition probe_cmds :: "efuse_dt \<Rightarrow> 'f efuse_st \<Rightarrow> 'f efuse_st \<times> int" where
  "probe_cmds dt st = read_props
     [(dt_read_cmd dt, \<lambda>v. cmd_upd (read_cmd_update (\<lambda>_. v))),
      (dt_write_cmd dt, \<lambda>v. cmd_upd (write_cmd_update (\<lambda>_. v))),
      (dt_get_max_cmd dt, \<lambda>v. cmd_upd (get_max_cmd_update (\<lambda>_. v))),
      (dt_mem_in dt, \<lambda>v. cmd_upd (mem_in_base_cmd_update (\<lambda>_. v))),
      (dt_mem_out dt, \<lambda>v. cmd_upd (mem_out_base_cmd_update (\<lambda>_. v)))] st"

text \<open>The registrations, with the labels \<open>error4\<close> to \<open>error1\<close>.\<close>

definition probe_register :: "probe_env \<Rightarrow> bool \<Rightarrow> u32 \<Rightarrow> 'f efuse_st \<Rightarrow> 'f efuse_st \<times> int" where
  "probe_register pe rb sm st =
     (if pe_chrdev pe < 0 then (hold (held_dev_update (\<lambda>_. False)) st, pe_chrdev pe)
      else let st = hold (held_chrdev_update (\<lambda>_. True)) (st\<lparr>ef_reg_base := rb, secureboot_mask := sm\<rparr>) in
      if pe_class pe \<noteq> 0 then
        (hold (held_chrdev_update (\<lambda>_. False) \<circ> held_dev_update (\<lambda>_. False)) st, pe_class pe)
      else let st = hold (held_class_update (\<lambda>_. True)) st in
      if pe_cdev pe \<noteq> 0 then
        (hold (held_class_update (\<lambda>_. False) \<circ> held_chrdev_update (\<lambda>_. False) \<circ> held_dev_update (\<lambda>_. False)) st, pe_cdev pe)
      else let st = hold (held_cdev_update (\<lambda>_. True)) st in
      if pe_node pe < 0 then
        (hold (held_cdev_update (\<lambda>_. False) \<circ> held_class_update (\<lambda>_. False) \<circ> held_chrdev_update (\<lambda>_. False) \<circ>
               held_dev_update (\<lambda>_. False)) st, pe_node pe)
      else (hold (held_node_update (\<lambda>_. True)) st, 0))"

text \<open>Clock, commands, pattern size and registers: the error that leads to \<open>error1\<close>, or whether the
  registers are mapped and the mask.\<close>

definition probe_config :: "probe_env \<Rightarrow> efuse_dt \<Rightarrow> 'f efuse_st \<Rightarrow> 'f efuse_st \<times> (int + bool \<times> u32)" where
  "probe_config pe dt st =
     (if pe_clk pe \<noteq> None \<and> pe_clk pe \<noteq> Some 0 then (st, Inl (the (pe_clk pe)))
      else let (st, ret) = probe_cmds dt (hold (held_clk_update (\<lambda>_. pe_clk pe = Some 0)) st) in
      if ret \<noteq> 0 then (st, Inl ret)
      else let st = st\<lparr>efuse_pattern_size := (case dt_pattern dt of Inl _ \<Rightarrow> EFUSE_PATTERN_SIZE | Inr v \<Rightarrow> v)\<rparr> in
      (st, case pe_reg pe of
             None \<Rightarrow> Inr (False, pe_mask0 pe)
           | Some (Inl e) \<Rightarrow> Inl e
           | Some (Inr _) \<Rightarrow> (case dt_mask dt of Inl e \<Rightarrow> Inl e | Inr sm \<Rightarrow> Inr (True, sm))))"

definition efuse_probe :: "'f ef_env \<Rightarrow> probe_env \<Rightarrow> efuse_dt \<Rightarrow> 'f efuse_st \<Rightarrow> 'f efuse_st \<times> int" where
  "efuse_probe env pe dt st =
     (if \<not> pe_dev pe then (st, - ENOMEM)
      else case probe_config pe dt (hold (held_dev_update (\<lambda>_. True))
             (st\<lparr>dev_name := replicate EFUSE_CHECK_NAME_LEN 0, ef_reg_base := False, secureboot_mask := 0\<rparr>)) of
        (st, Inl e) \<Rightarrow> (hold (held_dev_update (\<lambda>_. False)) st, e)
      | (st, Inr (rb, sm)) \<Rightarrow>
          probe_register pe rb sm (fst (get_efusecheck_info env dt (fst (get_efusekey_info env dt st)))))"

definition efuse_remove :: "'f efuse_st \<Rightarrow> 'f efuse_st \<times> int" where
  "efuse_remove st =
     (hold (held_class_update (\<lambda>_. False) \<circ> held_cdev_update (\<lambda>_. False) \<circ> held_node_update (\<lambda>_. False) \<circ>
            held_chrdev_update (\<lambda>_. False)) st, 0)"

section \<open>The burning device\<close>

record efuse_burn_dev =
  burn_pattern_size :: u32
  burn_held :: efuse_held

abbreviation (input) EFUSE_BURN_CHECK_KEY :: u32 where "EFUSE_BURN_CHECK_KEY \<equiv> 0x6662"

text \<open>The structure of the user by the bytes of its name; the result holds the status copied back.\<close>

definition efuse_burn_unlocked_ioctl ::
    "'f ef_env \<Rightarrow> u32 \<Rightarrow> u8 list option \<Rightarrow> bool \<Rightarrow> 'f efuse_st \<Rightarrow> ('f efuse_st \<times> int option \<times> int) option" where
  "efuse_burn_unlocked_ioctl env cmd user_name copy_out st =
     (if cmd = EFUSE_BURN_CHECK_KEY then
        (case user_name of
           None \<Rightarrow> Some (st, None, - EFAULT)
         | Some itemname \<Rightarrow> do {
             let name = takeWhile (\<lambda>b. b \<noteq> 0) itemname;
             c \<leftarrow> efuse_burn_lockable_is_cfg st name;
             if c = 0 then do {
               (st, status) \<leftarrow> efuse_burn_check_burned env name st;
               if \<not> copy_out then Some (st, None, - EFAULT)
               else Some (st, Some status, - ENOTTY)
             }
             else Some (st, None, - EFAULT)
           })
      else Some (st, None, - ENOTTY))"

definition efuse_burn_llseek :: "int \<Rightarrow> int \<Rightarrow> int" where
  "efuse_burn_llseek off whence = 0"

definition efuse_burn_read :: "nat \<Rightarrow> int \<Rightarrow> int" where
  "efuse_burn_read count ppos = 0"

definition efuse_burn_write ::
    "'f ef_env \<Rightarrow> efuse_burn_dev \<Rightarrow> u8 list option \<Rightarrow> nat \<Rightarrow> 'f efuse_st \<Rightarrow> ('f efuse_st \<times> int) option" where
  "efuse_burn_write env devp user count st =
     (if count \<noteq> unat (scast (burn_pattern_size devp) :: u64) then Some (st, - EINVAL)
      else case ev_kz env (ef_ticks st) count of
        None \<Rightarrow> Some (st\<lparr>ef_ticks := Suc (ef_ticks st)\<rparr>, - ENOMEM)
      | Some op' \<Rightarrow> do {
          let st = st\<lparr>ef_ticks := Suc (ef_ticks st)\<rparr>;
          op' \<leftarrow> put_bytes op' 0 (replicate count 0);
          case user of
            None \<Rightarrow> Some (st, - EFAULT)
          | Some buf \<Rightarrow> do {
              bs \<leftarrow> get_bytes buf 0 count;
              op' \<leftarrow> put_bytes op' 0 bs;
              (st, ret) \<leftarrow> efuse_amlogic_set env op' (of_nat count) st;
              Some (st, if ret \<noteq> 0 then - EINVAL else int count)
            }
        })"

definition burn_hold :: "(efuse_held \<Rightarrow> efuse_held) \<Rightarrow> efuse_burn_dev \<Rightarrow> efuse_burn_dev" where
  "burn_hold f d = d\<lparr>burn_held := f (burn_held d)\<rparr>"

definition efuse_burn_probe :: "probe_env \<Rightarrow> int + u32 \<Rightarrow> efuse_burn_dev \<Rightarrow> efuse_burn_dev \<times> int" where
  "efuse_burn_probe pe pattern d =
     (if \<not> pe_dev pe then (d, - ENOMEM)
      else let d = burn_hold (held_dev_update (\<lambda>_. True)) d in
      case pattern of
        Inl e \<Rightarrow> (burn_hold (held_dev_update (\<lambda>_. False)) d, e)
      | Inr v \<Rightarrow>
          (let d = d\<lparr>burn_pattern_size := v\<rparr> in
           if pe_chrdev pe < 0 then (burn_hold (held_dev_update (\<lambda>_. False)) d, pe_chrdev pe)
           else let d = burn_hold (held_chrdev_update (\<lambda>_. True)) d in
           if pe_class pe \<noteq> 0 then
             (burn_hold (held_chrdev_update (\<lambda>_. False) \<circ> held_dev_update (\<lambda>_. False)) d, pe_class pe)
           else let d = burn_hold (held_class_update (\<lambda>_. True)) d in
           if pe_cdev pe \<noteq> 0 then
             (burn_hold (held_class_update (\<lambda>_. False) \<circ> held_chrdev_update (\<lambda>_. False) \<circ> held_dev_update (\<lambda>_. False)) d,
              pe_cdev pe)
           else let d = burn_hold (held_cdev_update (\<lambda>_. True)) d in
           if pe_node pe < 0 then
             (burn_hold (held_cdev_update (\<lambda>_. False) \<circ> held_class_update (\<lambda>_. False) \<circ> held_chrdev_update (\<lambda>_. False) \<circ>
                         held_dev_update (\<lambda>_. False)) d, pe_node pe)
           else (burn_hold (held_node_update (\<lambda>_. True)) d, 0)))"

definition efuse_burn_remove :: "efuse_burn_dev \<Rightarrow> efuse_burn_dev \<times> int" where
  "efuse_burn_remove d =
     (burn_hold (held_dev_update (\<lambda>_. False) \<circ> held_class_update (\<lambda>_. False) \<circ> held_cdev_update (\<lambda>_. False) \<circ>
                 held_node_update (\<lambda>_. False) \<circ> held_chrdev_update (\<lambda>_. False)) d, 0)"

section \<open>What the driver relies on\<close>

text \<open>A range of the area that was never programmed: fuses read as zero until they are blown.\<close>

definition blank_at :: "u8 list \<Rightarrow> nat \<Rightarrow> nat \<Rightarrow> bool" where
  "blank_at a off n \<longleftrightarrow> get_bytes a off n = Some (replicate n 0)"

text \<open>The bytes of the user area, as a function of the firmware state.  Asking for the shared buffers
  changes nothing; the size is reported; a write of at least one byte that fits the input buffer, to a
  blank range of the area, programs the bytes found there and reports their number (nothing is said of a
  range that was programmed before: fuses cannot be reset); a read of at least one byte that fits the
  output buffer leaves the area alone, delivers its bytes there and reports their number.\<close>

definition efuse_fw_ok :: "'f ef_smc \<Rightarrow> aml_efuse_cmd \<Rightarrow> ('f \<Rightarrow> u8 list) \<Rightarrow> nat \<Rightarrow> bool" where
  "efuse_fw_ok smc c area cap \<longleftrightarrow>
     cap < 2 ^ 31 \<and> 0 < cap \<and>
     (\<forall>s. snd (smc (ucast (mem_in_base_cmd c)) [] s) = s) \<and>
     (\<forall>s. snd (smc (ucast (mem_out_base_cmd c)) [] s) = s) \<and>
     (\<forall>s. smc (ucast (get_max_cmd c)) [] s = (of_nat cap, s)) \<and>
     (\<forall>off n fw i o'. off + n \<le> cap \<and> 0 < n \<and> n \<le> length i \<and> length (area fw) = cap \<and> blank_at (area fw) off n \<longrightarrow>
        (\<exists>fw'. smc (ucast (write_cmd c)) [of_nat off, of_nat n] (fw, i, o') = (of_nat n, fw', i, o') \<and>
               put_bytes (area fw) off (take n i) = Some (area fw'))) \<and>
     (\<forall>off n fw i o'. off + n \<le> cap \<and> 0 < n \<and> n \<le> length o' \<and> length (area fw) = cap \<longrightarrow>
        (\<exists>fw' out. smc (ucast (read_cmd c)) [of_nat off, of_nat n] (fw, i, o') = (of_nat n, fw', i, out) \<and>
               area fw' = area fw \<and> length out = length o' \<and> get_bytes (area fw) off n = Some (take n out)))"

text \<open>A running driver: allocations succeed with at least the requested bytes; the shared buffers hold the
  whole area.  \<open>kzalloc\<close> serves a request from the blocks of a size class, \<open>cls sz\<close> bytes that are all
  zero; a request may have exactly the size of its class.\<close>

definition alloc_ok :: "kmalloc_t \<Rightarrow> bool" where
  "alloc_ok km \<longleftrightarrow> (\<forall>n sz. \<exists>bs. km n sz = Some bs \<and> sz \<le> length bs)"

definition kzalloc_ok :: "kmalloc_t \<Rightarrow> (nat \<Rightarrow> nat) \<Rightarrow> bool" where
  "kzalloc_ok kz cls \<longleftrightarrow> (\<forall>sz. sz \<le> cls sz) \<and> (\<forall>n sz. kz n sz = Some (replicate (cls sz) 0))"

definition efuse_ok :: "'f ef_env \<Rightarrow> ('f \<Rightarrow> u8 list) \<Rightarrow> nat \<Rightarrow> 'f efuse_st \<Rightarrow> bool" where
  "efuse_ok env area cap st \<longleftrightarrow>
     efuse_fw_ok (ev_smc env) (efuse_cmd st) area cap \<and> alloc_ok (ev_km env) \<and>
     length (area (ef_fw st)) = cap \<and> cap \<le> length (ef_in st) \<and> cap \<le> length (ef_out st)"

text \<open>What an operation keeps: everything but firmware, shared buffers and the allocator count.\<close>

definition same_tables :: "'f efuse_st \<Rightarrow> 'f efuse_st \<Rightarrow> bool" where
  "same_tables st st' \<longleftrightarrow>
     st' = st\<lparr>ef_fw := ef_fw st', ef_in := ef_in st', ef_out := ef_out st', ef_ticks := ef_ticks st'\<rparr>"

lemma same_tables_refl [simp]: "same_tables st st"
  by (simp add: same_tables_def)

lemma same_tables_simps:
  assumes "same_tables st st'"
  shows "ek_num st' = ek_num st" and "ek_infos st' = ek_infos st" and "ec_num st' = ec_num st"
    and "ec_infos st' = ec_infos st" and "efuse_cmd st' = efuse_cmd st"
  using assms by (cases st; cases st'; simp add: same_tables_def)+

lemma same_tables_trans: "same_tables a b \<Longrightarrow> same_tables b c \<Longrightarrow> same_tables a c"
  by (cases a; cases b; cases c) (simp add: same_tables_def)

lemma same_tables_ticks [simp]: "same_tables st (st\<lparr>ef_ticks := k\<rparr>)"
  by (simp add: same_tables_def)

lemma efuse_ok_ticks [simp]: "efuse_ok env area cap (st\<lparr>ef_ticks := k\<rparr>) = efuse_ok env area cap st"
  by (simp add: efuse_ok_def)

lemma efuse_fw_okD:
  assumes "efuse_fw_ok smc c area cap"
  shows "cap < 2 ^ 31" and "0 < cap"
    and "snd (smc (ucast (mem_in_base_cmd c)) [] s) = s"
    and "snd (smc (ucast (mem_out_base_cmd c)) [] s) = s"
    and "smc (ucast (get_max_cmd c)) [] s = (of_nat cap, s)"
    and "off + n \<le> cap \<Longrightarrow> 0 < n \<Longrightarrow> n \<le> length i \<Longrightarrow> length (area fw) = cap \<Longrightarrow> blank_at (area fw) off n \<Longrightarrow>
        (\<exists>fw'. smc (ucast (write_cmd c)) [of_nat off, of_nat n] (fw, i, o') = (of_nat n, fw', i, o') \<and>
               put_bytes (area fw) off (take n i) = Some (area fw'))"
    and "off + n \<le> cap \<Longrightarrow> 0 < n \<Longrightarrow> n \<le> length o' \<Longrightarrow> length (area fw) = cap \<Longrightarrow>
        (\<exists>fw' out. smc (ucast (read_cmd c)) [of_nat off, of_nat n] (fw, i, o') = (of_nat n, fw', i, out) \<and>
               area fw' = area fw \<and> length out = length o' \<and> get_bytes (area fw) off n = Some (take n out))"
  using assms unfolding efuse_fw_ok_def by blast+

lemma sharemem_idle:
  assumes "snd (ev_smc env (ucast f) [] (ef_fw st, ef_in st, ef_out st)) = (ef_fw st, ef_in st, ef_out st)"
  shows "get_sharemem_info env f st = (fst (ev_smc env (ucast f) [] (ef_fw st, ef_in st, ef_out st)), st)"
  using assms by (auto simp: get_sharemem_info_def ef_call_def split: prod.split)

lemma efuse_get_max_eq:
  assumes "efuse_ok env area cap st"
  shows "efuse_get_max env st = (st, int cap)"
proof -
  have f: "efuse_fw_ok (ev_smc env) (efuse_cmd st) area cap" using assms by (simp add: efuse_ok_def)
  note c = efuse_fw_okD(1,2,5) [OF f]
  have "sint (of_nat cap :: u64) = int cap"
    using c(1) by (simp add: sint_uint signed_take_bit_int_eq_self unsigned_of_nat take_bit_nat_eq_self)
  moreover have "(of_nat cap :: u64) \<noteq> 0" 
    using c(1,2) dvd_imp_le [of "2 ^ 64" cap] by (auto simp: word_of_nat_eq_0_iff)
  ultimately show ?thesis by (simp add: efuse_get_max_def ef_call_def c(3))
qed

lemma small_nat_words:
  assumes "n < 2 ^ 31"
  shows "unat (of_nat n :: u32) = n" and "unat (of_nat n :: u64) = n"
    and "ucast (of_nat n :: u32) = (of_nat n :: u64)" and "ucast (of_nat n :: u64) = (of_nat n :: u32)"
proof -
  have s: "take_bit 32 n = n" "take_bit 64 n = n" using assms by (auto intro!: take_bit_nat_eq_self)
  show "unat (of_nat n :: u32) = n" and "unat (of_nat n :: u64) = n" using assms by (simp_all add: unat_of_nat)
  show "ucast (of_nat n :: u32) = (of_nat n :: u64)" and "ucast (of_nat n :: u64) = (of_nat n :: u32)"
    using s by (simp_all add: unsigned_of_nat)
qed

lemma fn_smc_write:
  assumes ok: "efuse_ok env area cap st" and n: "off + n \<le> cap" "0 < n" "n \<le> length buf"
    and blank: "blank_at (area (ef_fw st)) off n"
  shows "\<exists>st'. meson_efuse_fn_smc env EFUSE_HAL_API_WRITE (of_nat off) (of_nat n) buf st = Some (st', buf, Some (of_nat n), 0) \<and>
           efuse_ok env area cap st' \<and> same_tables st st' \<and>
           put_bytes (area (ef_fw st)) off (take n buf) = Some (area (ef_fw st'))"
proof -
  have f: "efuse_fw_ok (ev_smc env) (efuse_cmd st) area cap" using ok by (simp add: efuse_ok_def)
  note c = efuse_fw_okD [OF f]
  have small: "off < 2 ^ 31" "n < 2 ^ 31" using c(1) n(1) by auto
  note w = small_nat_words [OF small(1)] small_nat_words [OF small(2)]
  have lens: "length (area (ef_fw st)) = cap" "cap \<le> length (ef_in st)" "cap \<le> length (ef_out st)"
    using ok by (auto simp: efuse_ok_def)
  obtain i where i: "put_bytes (ef_in st) 0 (take n buf) = Some i"
    using put_bytes_Some_iff [of "ef_in st" 0 "take n buf"] n lens by auto
  have li: "length i = length (ef_in st)" "take n i = take n buf"
    using length_put_bytes [OF i] get_bytes_put_bytes_same [OF i] n(3) by (auto simp: get_bytes_def split: if_splits)
  obtain fw' where fw': "ev_smc env (ucast (write_cmd (efuse_cmd st))) [of_nat off, of_nat n] (ef_fw st, i, ef_out st) =
      (of_nat n, fw', i, ef_out st)" "put_bytes (area (ef_fw st)) off (take n i) = Some (area fw')"
    using c(6) [of off n i "ef_fw st" "ef_out st"] n lens li blank by auto
  have nz: "(of_nat n :: u64) \<noteq> 0" using w(6) n(2) by (metis unat_0 less_irrefl)
  have gb: "get_bytes buf 0 n = Some (take n buf)" using n(3) by (simp add: get_bytes_def)
  have len': "length (area fw') = cap" using length_put_bytes [OF fw'(2)] lens by simp
  have "meson_efuse_fn_smc env EFUSE_HAL_API_WRITE (of_nat off) (of_nat n) buf st =
      Some (st\<lparr>ef_in := i, ef_fw := fw'\<rparr>, buf, Some (of_nat n), 0)"
    using nz by (simp add: meson_efuse_fn_smc_def sharemem_idle [OF c(3)] w gb i ef_call_def fw')
  then show ?thesis
    using ok fw'(2) li len' by (intro exI [of _ "st\<lparr>ef_in := i, ef_fw := fw'\<rparr>"]) (simp add: efuse_ok_def same_tables_def)
qed

lemma fn_smc_read:
  assumes ok: "efuse_ok env area cap st" and n: "off + n \<le> cap" "0 < n" "n \<le> length buf"
  shows "\<exists>st' buf'. meson_efuse_fn_smc env EFUSE_HAL_API_READ (of_nat off) (of_nat n) buf st = Some (st', buf', Some (of_nat n), 0) \<and>
           efuse_ok env area cap st' \<and> same_tables st st' \<and> area (ef_fw st') = area (ef_fw st) \<and>
           length buf' = length buf \<and> get_bytes (area (ef_fw st)) off n = Some (take n buf')"
proof -
  have f: "efuse_fw_ok (ev_smc env) (efuse_cmd st) area cap" using ok by (simp add: efuse_ok_def)
  note c = efuse_fw_okD [OF f]
  have small: "off < 2 ^ 31" "n < 2 ^ 31" using c(1) n(1) by auto
  note w = small_nat_words [OF small(1)] small_nat_words [OF small(2)]
  have lens: "length (area (ef_fw st)) = cap" "cap \<le> length (ef_in st)" "cap \<le> length (ef_out st)"
    using ok by (auto simp: efuse_ok_def)
  obtain fw' out where fw': "ev_smc env (ucast (read_cmd (efuse_cmd st))) [of_nat off, of_nat n] (ef_fw st, ef_in st, ef_out st) =
      (of_nat n, fw', ef_in st, out)" "area fw' = area (ef_fw st)" "length out = length (ef_out st)"
      "get_bytes (area (ef_fw st)) off n = Some (take n out)"
    using c(7) [of off n "ef_out st" "ef_fw st" "ef_in st"] n lens by auto
  let ?st = "st\<lparr>ef_fw := fw', ef_in := ef_in st, ef_out := out\<rparr>"
  have nz: "(of_nat n :: u64) \<noteq> 0" using w(6) n(2) by (metis unat_0 less_irrefl)
  have gb: "get_bytes out 0 n = Some (take n out)" using n(1) lens fw'(3) by (simp add: get_bytes_def)
  obtain buf' where b: "put_bytes buf 0 (take n out) = Some buf'"
    using put_bytes_Some_iff [of buf 0 "take n out"] n(3) by auto
  have lb: "length buf' = length buf" "take n buf' = take n out"
    using length_put_bytes [OF b] get_bytes_put_bytes_same [OF b] n lens fw'(3) by (auto simp: get_bytes_def split: if_splits)
  have sm: "get_sharemem_info env (mem_out_base_cmd (efuse_cmd st)) ?st =
      (fst (ev_smc env (ucast (mem_out_base_cmd (efuse_cmd st))) [] (fw', ef_in st, out)), ?st)"
    using sharemem_idle [of env "mem_out_base_cmd (efuse_cmd st)" ?st] c(4) [of "(fw', ef_in st, out)"] by simp
  have "meson_efuse_fn_smc env EFUSE_HAL_API_READ (of_nat off) (of_nat n) buf st =
      Some (?st, buf', Some (of_nat n), 0)"
    using nz sm by (simp add: meson_efuse_fn_smc_def ef_call_def fw'(1) w gb b)
  then show ?thesis
    using ok fw' lb lens by (intro exI [of _ ?st] exI [of _ buf']) (simp add: efuse_ok_def same_tables_def)
qed

lemma ef_small:
  assumes "efuse_ok env area cap st" and "off + n \<le> cap"
  shows "off < 2 ^ 31" and "n < 2 ^ 31"
  using assms efuse_fw_okD(1) [of "ev_smc env" "efuse_cmd st" area cap] by (auto simp: efuse_ok_def)

lemma alloc_okE:
  assumes "alloc_ok km"
  obtains bs where "km n sz = Some bs" and "sz \<le> length bs"
  using assms unfolding alloc_ok_def by blast

lemma efuse_write_usr_ok:
  assumes ok: "efuse_ok env area cap st" and n: "off + n \<le> cap" "0 < n" "n \<le> length buf"
    and blank: "blank_at (area (ef_fw st)) off n"
  shows "\<exists>st'. efuse_write_usr env buf n (int off) st = Some (st', int n) \<and>
           efuse_ok env area cap st' \<and> same_tables st st' \<and>
           put_bytes (area (ef_fw st)) off (take n buf) = Some (area (ef_fw st'))"
proof -
  obtain p where p: "ev_km env (ef_ticks st) n = Some p" "n \<le> length p"
    using ok alloc_okE [of "ev_km env" "ef_ticks st" n] by (auto simp: efuse_ok_def)
  obtain p' where p': "put_bytes p 0 (take n buf) = Some p'"
    using put_bytes_Some_iff [of p 0 "take n buf"] p(2) by auto
  have l: "n \<le> length p'" "take n p' = take n buf"
    using length_put_bytes [OF p'] get_bytes_put_bytes_same [OF p'] n(3) p(2) by (auto simp: get_bytes_def split: if_splits)
  obtain st' where st': "meson_efuse_fn_smc env EFUSE_HAL_API_WRITE (of_nat off) (of_nat n) p' (st\<lparr>ef_ticks := Suc (ef_ticks st)\<rparr>) =
      Some (st', p', Some (of_nat n), 0)" "efuse_ok env area cap st'" "same_tables (st\<lparr>ef_ticks := Suc (ef_ticks st)\<rparr>) st'"
      "put_bytes (area (ef_fw st)) off (take n p') = Some (area (ef_fw st'))"
    using fn_smc_write [of env area cap "st\<lparr>ef_ticks := Suc (ef_ticks st)\<rparr>" off n p'] ok n l(1) blank by auto
  have "efuse_write_usr env buf n (int off) st = Some (st', int n)"
    using st'(1) n(3) small_nat_words [OF ef_small(2) [OF ok n(1)]]
    by (simp add: efuse_write_usr_def p p' efuse_write_pos_def Let_def)
  then show ?thesis using st' l(2) same_tables_trans [OF same_tables_ticks st'(3)] by auto
qed

lemma efuse_read_usr_ok:
  assumes ok: "efuse_ok env area cap st" and n: "off + n \<le> cap" "0 < n" "n \<le> length buf"
  shows "\<exists>st' buf'. efuse_read_usr env buf n (int off) st = Some (st', buf', int n) \<and>
           efuse_ok env area cap st' \<and> same_tables st st' \<and> area (ef_fw st') = area (ef_fw st) \<and>
           length buf' = length buf \<and> get_bytes (area (ef_fw st)) off n = Some (take n buf')"
proof -
  obtain p where p: "ev_km env (ef_ticks st) n = Some p" "n \<le> length p"
    using ok alloc_okE [of "ev_km env" "ef_ticks st" n] by (auto simp: efuse_ok_def)
  obtain st' p' where st': "meson_efuse_fn_smc env EFUSE_HAL_API_READ (of_nat off) (of_nat n) p (st\<lparr>ef_ticks := Suc (ef_ticks st)\<rparr>) =
      Some (st', p', Some (of_nat n), 0)" "efuse_ok env area cap st'" "same_tables (st\<lparr>ef_ticks := Suc (ef_ticks st)\<rparr>) st'"
      "area (ef_fw st') = area (ef_fw st)" "length p' = length p" "get_bytes (area (ef_fw st)) off n = Some (take n p')"
    using fn_smc_read [of env area cap "st\<lparr>ef_ticks := Suc (ef_ticks st)\<rparr>" off n p] ok n p(2) by auto
  obtain b where b: "put_bytes buf 0 (take n p') = Some b"
    using put_bytes_Some_iff [of buf 0 "take n p'"] n(3) by auto
  have l: "length b = length buf" "take n b = take n p'"
    using length_put_bytes [OF b] get_bytes_put_bytes_same [OF b] n(3) p(2) st'(5) by (auto simp: get_bytes_def split: if_splits)
  have "efuse_read_usr env buf n (int off) st = Some (st', b, int n)"
    using st'(1,5) p(2) small_nat_words [OF ef_small(2) [OF ok n(1)]] b
    by (simp add: efuse_read_usr_def p(1) efuse_read_pos_def Let_def)
  then show ?thesis using st' l same_tables_trans [OF same_tables_ticks st'(3)] by auto
qed

text \<open>The key \<open>name\<close> is configured with a range within the area.\<close>

definition key_within :: "'f efuse_st \<Rightarrow> nat \<Rightarrow> cstr \<Rightarrow> nat \<Rightarrow> nat \<Rightarrow> bool" where
  "key_within st cap name off n \<longleftrightarrow>
     (\<exists>k. efuse_getinfo st name = Some (Some k) \<and> unat (ei_offset k) = off \<and> unat (ei_size k) = n) \<and> off + n \<le> cap \<and> 0 < n"

lemma efuse_getinfo_same: "same_tables st st' \<Longrightarrow> efuse_getinfo st' name = efuse_getinfo st name"
  by (simp add: efuse_getinfo_def same_tables_simps split: option.split)

lemma key_within_same: "same_tables st st' \<Longrightarrow> key_within st' cap name off n = key_within st cap name off n"
  by (simp add: key_within_def efuse_getinfo_same)

lemma kzalloc_okE:
  assumes "kzalloc_ok kz cls"
  obtains k where "kz n sz = Some (replicate (sz + k) 0)" and "cls sz = sz + k"
  using assms unfolding kzalloc_ok_def by (metis le_Suc_ex)

lemma efuse_user_attr_read_ok:
  assumes ok: "efuse_ok env area cap st" and kz: "kzalloc_ok (ev_kz env) cls"
    and key: "key_within st cap name off n" and buf: "n \<le> length buf"
  shows "\<exists>st' buf'. efuse_user_attr_read env name buf st = Some (st', buf', int n) \<and> length buf' = length buf \<and>
           efuse_ok env area cap st' \<and> same_tables st st' \<and> area (ef_fw st') = area (ef_fw st) \<and>
           get_bytes (area (ef_fw st)) off n = Some (take n buf')"
proof -
  obtain k where k: "efuse_getinfo st name = Some (Some k)" "unat (ei_offset k) = off" "unat (ei_size k) = n"
    and n: "off + n \<le> cap" "0 < n" using key by (auto simp: key_within_def)
  obtain j where j: "ev_kz env (ef_ticks st) n = Some (replicate (n + j) 0)" using kzalloc_okE [OF kz] .
  obtain st' p where p: "efuse_read_usr env (replicate (n + j) 0) n (int off) (st\<lparr>ef_ticks := Suc (ef_ticks st)\<rparr>) = Some (st', p, int n)"
      "efuse_ok env area cap st'" "same_tables (st\<lparr>ef_ticks := Suc (ef_ticks st)\<rparr>) st'" "area (ef_fw st') = area (ef_fw st)"
      "length p = n + j" "get_bytes (area (ef_fw st)) off n = Some (take n p)"
    using efuse_read_usr_ok [of env area cap "st\<lparr>ef_ticks := Suc (ef_ticks st)\<rparr>" off n "replicate (n + j) 0"] ok n by auto
  obtain b where b: "put_bytes buf 0 (take n p) = Some b"
    using put_bytes_Some_iff [of buf 0 "take n p"] buf by auto
  have "take n b = take n p"
    using get_bytes_put_bytes_same [OF b] p(5) buf length_put_bytes [OF b] by (auto simp: get_bytes_def split: if_splits)
  moreover have "efuse_user_attr_read env name buf st = Some (st', b, int n)"
    using p(1,5) b by (simp add: efuse_user_attr_read_def k j)
  ultimately show ?thesis using p same_tables_trans [OF same_tables_ticks p(3)] length_put_bytes [OF b] by auto
qed

section \<open>Storing a key\<close>

text \<open>The text \<open>xx:xx:...\<close> of some bytes, as a user writes it.\<close>

definition hex_digit :: "nat \<Rightarrow> u8" where
  "hex_digit d = (if d < 10 then 0x30 + of_nat d else 0x57 + of_nat d)"

definition hex2 :: "u8 \<Rightarrow> u8 list" where
  "hex2 b = [hex_digit (unat b div 16), hex_digit (unat b mod 16)]"

fun colon_text :: "u8 list \<Rightarrow> u8 list" where
  "colon_text [] = []"
| "colon_text [b] = hex2 b"
| "colon_text (b # bs) = hex2 b @ 0x3a # colon_text bs"

text \<open>The conversions deliver the number that two digits stand for: \<open>sscanf\<close> if a colon follows,
  \<open>kstrtou8\<close> if the string ends there or after one more newline.\<close>

definition conversions_ok :: "'f ef_env \<Rightarrow> bool" where
  "conversions_ok env \<longleftrightarrow>
     (\<forall>b t. ev_scan env (hex2 b @ 0x3a # t) = Some (ucast b)) \<and>
     (\<forall>b. ev_u8 env (hex2 b) = (0, ucast b)) \<and> (\<forall>b. ev_u8 env (hex2 b @ [0x0A]) = (0, ucast b))"

lemma hex_digit_ne: "d < 16 \<Longrightarrow> hex_digit d \<noteq> 0 \<and> hex_digit d \<noteq> 0x3a"
proof -
  assume "d < 16"
  then have "d = 0 \<or> d = 1 \<or> d = 2 \<or> d = 3 \<or> d = 4 \<or> d = 5 \<or> d = 6 \<or> d = 7 \<or> d = 8 \<or> d = 9 \<or> d = 10 \<or>
      d = 11 \<or> d = 12 \<or> d = 13 \<or> d = 14 \<or> d = 15" by presburger
  then show ?thesis by (auto simp: hex_digit_def)
qed

lemma hex2_ne: "b \<in> set (hex2 x) \<Longrightarrow> b \<noteq> 0"
  using hex_digit_ne [of "unat x div 16"] hex_digit_ne [of "unat x mod 16"] unsigned_less [of x, where 'a = nat]
  by (auto simp: hex2_def less_mult_imp_div_less)

lemma length_hex2 [simp]: "length (hex2 b) = 2"
  by (simp add: hex2_def)

lemma length_colon_text: "bs \<noteq> [] \<Longrightarrow> length (colon_text bs) = 3 * length bs - 1"
  by (induction bs rule: colon_text.induct) auto

lemma colon_text_ne: "b \<in> set (colon_text bs) \<Longrightarrow> b \<noteq> 0"
  by (induction bs rule: colon_text.induct) (auto dest: hex2_ne)

lemma colon_in_text: "2 \<le> length bs \<Longrightarrow> 0x3a \<in> set (colon_text bs)"
  by (cases bs rule: colon_text.cases) auto

lemma str_at_rest:
  assumes "drop s buf = t @ 0 # rest" and "0 \<notin> set t"
  shows "str_at buf s = Some t"
  using str_at_terminated [OF assms(2), of rest] assms(1) by (simp add: str_at_def)

lemma put_byte: "i < length buf \<Longrightarrow> put_bytes buf i [b] = Some (buf[i := b])"
  by (simp add: put_bytes_def upd_conv_take_nth_drop)

lemma ucast_u8_u32 [simp]: "ucast (ucast (b :: u8) :: u32) = b"
  by (rule bit_word_eqI) (simp add: bit_simps)

lemma colon_loop_step:
  assumes "str_at buf s = Some t" and "ev_scan env t = Some (ucast (b :: u8))" and "i \<le> s" and "s + 2 < length buf"
  shows "colon_loop env (Suc (Suc n)) i s buf =
           colon_loop env (Suc n) (Suc i) (if buf[i := b] ! (s + 2) = 0x3a then s + 3 else s + 2) (buf[i := b])"
proof -
  have "\<not> (ucast b :: u32) > 0xff"
    using unsigned_less [of b, where 'a = nat]
    by (simp add: word_less_nat_alt not_less unsigned_ucast_eq take_bit_nat_eq_self)
  then show ?thesis using assms(3,4)
    by (subst colon_loop.simps) (simp add: assms(1,2) put_byte byte_at_def del: colon_loop.simps)
qed

text \<open>The loop reads ahead of what it writes: the byte \<open>i\<close> replaces text it has already parsed.\<close>

lemma colon_loop_ok:
  assumes "conversions_ok env" and "nl \<in> {[], [0x0A]}" and "bs \<noteq> []"
    and "drop s buf = colon_text bs @ nl @ 0 # rest" and "i \<le> s"
  shows "\<exists>buf'. colon_loop env (length bs) i s buf = Some (buf', 0) \<and> length buf' = length buf \<and>
           take (i + length bs) buf' = take i buf @ bs"
  using assms(3-5)
proof (induction bs arbitrary: i s buf rule: colon_text.induct)
  case 1
  then show ?case by simp
next
  case (2 b)
  have slen: "s + 2 < length buf" using arg_cong [OF 2(2), of length] by simp
  have t: "str_at buf s = Some (hex2 b @ nl)"
    using 2(2) hex2_ne [of 0 b] assms(2) by (intro str_at_rest [where rest = rest]) auto
  have u: "ev_u8 env (hex2 b @ nl) = (0, ucast b)" using assms(1,2) by (auto simp: conversions_ok_def)
  have "colon_loop env (length [b]) i s buf = Some (buf[i := b], 0)"
    using slen 2(3) by (simp add: t u put_byte byte_at_def)
  moreover have "take (Suc i) (buf[i := b]) = take i buf @ [b]"
    using slen 2(3) by (simp add: take_Suc_conv_app_nth)
  ultimately show ?case by simp
next
  case (3 b c bs)
  let ?buf = "buf[i := b]"
  have d: "drop s buf = hex2 b @ 0x3a # colon_text (c # bs) @ nl @ 0 # rest" using 3(3) by simp
  have slen: "s + 3 < length buf" using arg_cong [OF d, of length] length_colon_text [of "c # bs"] by simp
  have t: "str_at buf s = Some (hex2 b @ 0x3a # colon_text (c # bs) @ nl)"
    using d hex2_ne [of 0 b] colon_text_ne [of 0 "c # bs"] assms(2) by (intro str_at_rest [where rest = rest]) auto
  have u: "ev_scan env (hex2 b @ 0x3a # colon_text (c # bs) @ nl) = Some (ucast b)" using assms(1) by (simp add: conversions_ok_def)
  have col: "?buf ! (s + 2) = 0x3a"
    using arg_cong [OF d, of "\<lambda>l. l ! 2"] slen 3(4) by (simp add: hex2_def)
  have dr: "drop (s + 3) ?buf = colon_text (c # bs) @ nl @ 0 # rest"
    using arg_cong [OF d, of "drop 3"] 3(4) by (simp add: hex2_def add.commute)
  obtain buf' where buf': "colon_loop env (length (c # bs)) (Suc i) (s + 3) ?buf = Some (buf', 0)" "length buf' = length ?buf"
      "take (Suc i + length (c # bs)) buf' = take (Suc i) ?buf @ c # bs"
    using 3(1) [of "s + 3" ?buf "Suc i"] dr 3(4) by auto
  have "colon_loop env (length (b # c # bs)) i s buf = Some (buf', 0)"
    using colon_loop_step [OF t u 3(4), of "length bs"] slen buf'(1) col by (simp del: colon_loop.simps)
  moreover have "take (Suc i) ?buf = take i buf @ [b]" using slen 3(4) by (simp add: take_Suc_conv_app_nth)
  ultimately show ?case using buf'(2,3) by simp
qed

text \<open>What a user may write to store the bytes \<open>bs\<close>: the text with colons, or the bytes themselves if
  they are not taken for such a text, each with or without a final newline.\<close>

definition stores_as :: "u8 list \<Rightarrow> u8 list \<Rightarrow> bool" where
  "stores_as data bs \<longleftrightarrow>
     (2 \<le> length bs \<and> (data = colon_text bs \<or> data = colon_text bs @ [0x0A])) \<or>
     (bs \<noteq> [] \<and> (data = bs \<or> data = bs @ [0x0A]) \<and> 0x3a \<notin> set (takeWhile (\<lambda>b. b \<noteq> 0) data))"

lemma str_at_padded:
  assumes "0 \<in> set data \<or> 0 < k"
  shows "str_at (data @ replicate k 0) 0 = Some (takeWhile (\<lambda>b. b \<noteq> 0) data)"
proof (cases "0 \<in> set data")
  case True
  have "takeWhile (\<lambda>b. b \<noteq> 0) (data @ replicate k 0) = takeWhile (\<lambda>b. b \<noteq> 0) data"
    by (rule takeWhile_append1 [OF True]) simp
  then show ?thesis using True unfolding str_at_def drop_0 by simp
next
  case False
  have all: "takeWhile (\<lambda>b. b \<noteq> 0) data = data"
    by (rule takeWhile_eq_all_conv [THEN iffD2]) (use False in blast)
  obtain j where "k = Suc j" using assms False gr0_implies_Suc by blast
  then show ?thesis unfolding all using str_at_terminated [OF False, of "replicate j 0"] by simp
qed

lemma takeWhile_colon_text:
  "nl \<in> {[], [0x0A]} \<Longrightarrow> takeWhile (\<lambda>b. b \<noteq> 0) (colon_text bs @ nl) = colon_text bs @ nl"
  by (rule takeWhile_eq_all_conv [THEN iffD2]) (auto dest: colon_text_ne)

lemma convert_input_ok:
  assumes "conversions_ok env" and "stores_as data bs" and tm: "0 \<in> set data \<or> 0 < k"
  shows "\<exists>op'. convert_input env (length bs) (length data) (data @ replicate k 0) = Some (op', 0) \<and>
           length bs \<le> length op' \<and> take (length bs) op' = bs"
proof (cases "0x3a \<in> set (takeWhile (\<lambda>b. b \<noteq> 0) data)")
  case True
  then obtain nl where nl: "nl \<in> {[], [0x0A]}" "data = colon_text bs @ nl" and l: "2 \<le> length bs"
    using assms(2) by (auto simp: stores_as_def)
  have "0 \<notin> set data" using nl colon_text_ne [of 0 bs] by auto
  then obtain j where "k = Suc j" using tm gr0_implies_Suc by blast
  then have "drop 0 (data @ replicate k 0) = colon_text bs @ nl @ 0 # replicate j 0" using nl(2) by simp
  moreover have "bs \<noteq> []" using l by auto
  ultimately obtain b where b: "colon_loop env (length bs) 0 0 (data @ replicate k 0) = Some (b, 0)"
      "length b = length (data @ replicate k 0)" "take (0 + length bs) b = take 0 (data @ replicate k 0) @ bs"
    using colon_loop_ok [OF assms(1) nl(1) _ _ le0] by blast
  have "length bs \<le> length b" using arg_cong [OF b(3), of length] by simp
  then show ?thesis using b True by (simp add: convert_input_def str_at_padded [OF tm])
next
  case False
  have n: "\<not> (2 \<le> length bs \<and> data = colon_text bs @ nl)" if "nl \<in> {[], [0x0A]}" for nl
    using False takeWhile_colon_text [OF that, of bs] colon_in_text [of bs] by auto
  have raw: "bs \<noteq> []" "data = bs \<or> data = bs @ [0x0A]"
    using assms(2) n [of "[]"] n [of "[0x0A]"] unfolding stores_as_def by auto
  have d: "data \<noteq> []" using raw by auto
  then have l: "length data - 1 < length data + k" by (cases data) simp_all
  have "byte_at (data @ replicate k 0) (length data - 1) = Some (last data)"
    using d l by (simp add: byte_at_def nth_append last_conv_nth)
  then have "convert_input env (length bs) (length data) (data @ replicate k 0) =
      Some (data @ replicate k 0,
        if (last data \<noteq> 0x0A \<and> length data \<noteq> length bs) \<or> length data - 1 > length bs \<or> length data < length bs
        then - EINVAL else 0)"
    unfolding convert_input_def str_at_padded [OF tm] using False d by simp
  moreover have "\<not> ((last data \<noteq> 0x0A \<and> length data \<noteq> length bs) \<or> length data - 1 > length bs \<or> length data < length bs)"
    using raw by auto
  moreover have "length bs \<le> length (data @ replicate k 0)" "take (length bs) (data @ replicate k 0) = bs"
    using raw by auto
  ultimately show ?thesis by (intro exI [of _ "data @ replicate k 0"]) (simp only: if_False simp_thms)
qed

text \<open>The copy of the data is a terminated string: a zero byte among the data, or a block with more bytes.\<close>

definition copy_terminated :: "(nat \<Rightarrow> nat) \<Rightarrow> u8 list \<Rightarrow> bool" where
  "copy_terminated cls data \<longleftrightarrow> 0 \<in> set data \<or> length data < cls (length data)"

lemma efuse_user_attr_store_ok:
  assumes ok: "efuse_ok env area cap st" and kz: "kzalloc_ok (ev_kz env) cls" and conv: "conversions_ok env"
    and key: "key_within st cap name off (length bs)" and data: "stores_as data bs"
    and blank: "blank_at (area (ef_fw st)) off (length bs)" and tm: "copy_terminated cls data"
  shows "\<exists>st'. efuse_user_attr_store env name data (length data) st = Some (st', int (length data)) \<and>
           efuse_ok env area cap st' \<and> same_tables st st' \<and>
           put_bytes (area (ef_fw st)) off bs = Some (area (ef_fw st'))"
proof -
  obtain k where k: "efuse_getinfo st name = Some (Some k)" "unat (ei_offset k) = off" "unat (ei_size k) = length bs"
    and n: "off + length bs \<le> cap" "0 < length bs" using key by (auto simp: key_within_def)
  obtain j where j: "ev_kz env (ef_ticks st) (length data) = Some (replicate (length data + j) 0)"
      "cls (length data) = length data + j"
    using kzalloc_okE [OF kz] .
  have t: "0 \<in> set data \<or> 0 < j" using tm j(2) by (auto simp: copy_terminated_def)
  obtain p where p: "convert_input env (length bs) (length data) (data @ replicate j 0) = Some (p, 0)"
      "length bs \<le> length p" "take (length bs) p = bs"
    using convert_input_ok [OF conv data t] by blast
  have put: "put_bytes (replicate (length data + j) 0) 0 data = Some (data @ replicate j 0)"
    by (simp add: put_bytes_def)
  obtain st' where st': "efuse_write_usr env p (length bs) (int off) (st\<lparr>ef_ticks := Suc (ef_ticks st)\<rparr>) = Some (st', int (length bs))"
      "efuse_ok env area cap st'" "same_tables (st\<lparr>ef_ticks := Suc (ef_ticks st)\<rparr>) st'"
      "put_bytes (area (ef_fw st)) off bs = Some (area (ef_fw st'))"
    using efuse_write_usr_ok [of env area cap "st\<lparr>ef_ticks := Suc (ef_ticks st)\<rparr>" off "length bs" p] ok n p(2,3) blank by auto
  have "efuse_user_attr_store env name data (length data) st = Some (st', int (length data))"
    using p(1) st'(1) by (simp add: efuse_user_attr_store_def k j(1) put Let_def)
  then show ?thesis using st' same_tables_trans [OF same_tables_ticks st'(3)] by auto
qed

text \<open>Storing relies on a terminator that nobody writes: in a block of exactly the requested size, data without
  a zero byte makes \<open>efuse_user_attr_store\<close> read past the end of its copy.\<close>

lemma efuse_store_unterminated:
  assumes "efuse_getinfo st name = Some (Some k)" and "kzalloc_ok (ev_kz env) cls" and "\<not> copy_terminated cls data"
  shows "efuse_user_attr_store env name data (length data) st = None"
proof -
  obtain j where j: "ev_kz env (ef_ticks st) (length data) = Some (replicate (length data + j) 0)"
      "cls (length data) = length data + j"
    using kzalloc_okE [OF assms(2)] .
  have z: "0 \<notin> set data" "j = 0" using assms(3) j(2) by (auto simp: copy_terminated_def)
  have "put_bytes (replicate (length data) 0) 0 data = Some data" by (simp add: put_bytes_def)
  then show ?thesis
    using assms(1) j(1) z str_at_unterminated [OF z(1), of 0]
    by (simp add: efuse_user_attr_store_def convert_input_def Let_def)
qed

section \<open>Properties\<close>

text \<open>C28: Storing and reading an efuse key.  Let the driver run on a firmware with a user area of fuses, let
  allocations succeed, and let the key have a range within the area that was never programmed.
  Whether the user writes the bytes themselves or the text \<open>xx:xx:...\<close>, with or without a final
  newline: if the copy that the driver makes is a terminated string (the data has a zero byte, or its
  size is not exactly that of an allocator class), the store returns the number of characters, exactly
  the range of the key in the area changes, to the bytes, and reading the key returns them and changes
  nothing.  Otherwise the driver reads past the end of its copy.\<close>

theorem efuse_store_read:
  assumes ok: "efuse_ok env area cap st" and kz: "kzalloc_ok (ev_kz env) cls" and conv: "conversions_ok env"
    and key: "key_within st cap name off (length bs)" and data: "stores_as data bs" and buf: "length bs \<le> length buf"
    and blank: "blank_at (area (ef_fw st)) off (length bs)"
  shows "if copy_terminated cls data
         then \<exists>st1 st2 buf'.
           efuse_user_attr_store env name data (length data) st = Some (st1, int (length data)) \<and>
           put_bytes (area (ef_fw st)) off bs = Some (area (ef_fw st1)) \<and>
           efuse_user_attr_read env name buf st1 = Some (st2, buf', int (length bs)) \<and>
           take (length bs) buf' = bs \<and> area (ef_fw st2) = area (ef_fw st1)
         else efuse_user_attr_store env name data (length data) st = None"
proof (cases "copy_terminated cls data")
  case True
  obtain st1 where st1: "efuse_user_attr_store env name data (length data) st = Some (st1, int (length data))"
      "efuse_ok env area cap st1" "same_tables st st1" "put_bytes (area (ef_fw st)) off bs = Some (area (ef_fw st1))"
    using efuse_user_attr_store_ok [OF ok kz conv key data blank True] by blast
  obtain st2 buf' where st2: "efuse_user_attr_read env name buf st1 = Some (st2, buf', int (length bs))"
      "area (ef_fw st2) = area (ef_fw st1)" "get_bytes (area (ef_fw st1)) off (length bs) = Some (take (length bs) buf')"
    using efuse_user_attr_read_ok [OF st1(2) kz _ buf] key key_within_same [OF st1(3)] by blast
  then show ?thesis using True st1 get_bytes_put_bytes_same [OF st1(4)] by auto
next
  case False
  then show ?thesis using key efuse_store_unterminated [OF _ kz False] by (auto simp: key_within_def)
qed

text \<open>The position of the file, a 64-bit number, becomes an \<open>unsigned int\<close> in every check and call.\<close>

lemma position_truncated: "(of_int (ppos mod 2 ^ 32) :: u32) = of_int ppos"
  by (rule word_of_int_eq_iff [THEN iffD2]) (simp add: take_bit_eq_mod)

lemma usr_position:
  "efuse_write_usr env buf count ppos st = efuse_write_usr env buf count (ppos mod 2 ^ 32) st"
  "efuse_read_usr env buf count ppos st = efuse_read_usr env buf count (ppos mod 2 ^ 32) st"
  by (auto simp: efuse_write_usr_def efuse_read_usr_def efuse_write_pos_def efuse_read_pos_def position_truncated [simplified] Let_def
      split: option.splits Option.bind_splits)

lemma user_range_ok_iff:
  assumes "cap < 2 ^ 31" and "0 < count"
  shows "user_range_ok (of_int ppos) count (of_int (int cap)) \<longleftrightarrow> nat (ppos mod 2 ^ 32) + count \<le> cap"
proof -
  obtain p where p: "ppos mod 2 ^ 32 = int p" using nonneg_int_cases [of "ppos mod 2 ^ 32"] by auto
  have "ppos mod 2 ^ 32 < 2 ^ 32" by simp
  then have "p < 2 ^ 32" unfolding p by simp
  then have u: "unat (of_nat p :: u32) = p" "unat (of_nat cap :: u32) = cap"
    using assms(1) by (simp_all add: unat_of_nat)
  have w: "(of_int ppos :: u32) = of_nat p" using position_truncated [of ppos] unfolding p by simp
  have le: "(of_nat cap :: u32) \<le> of_nat p \<longleftrightarrow> cap \<le> p" by (simp add: word_le_nat_alt u)
  have "unat (of_nat cap - of_nat p :: u32) = cap - p" if "p < cap"
    using that by (simp add: unat_sub [of "of_nat p :: u32" "of_nat cap"] word_le_nat_alt u)
  then show ?thesis unfolding w p using assms(2) u by (auto simp: user_range_ok_def le not_le)
qed

lemma kz_buffer:
  assumes "kzalloc_ok kz cls"
  obtains z where "kz n sz = Some z" and "put_bytes z 0 (replicate sz 0) = Some z" and "sz \<le> length z"
proof -
  obtain j where j: "kz n sz = Some (replicate (sz + j) 0)" using kzalloc_okE [OF assms] .
  show ?thesis by (rule that [OF j]) (simp_all add: put_bytes_def replicate_add [symmetric])
qed

lemma efuse_device_read:
  assumes ok: "efuse_ok env area cap st" and kz: "kzalloc_ok (ev_kz env) cls"
    and range: "nat (ppos mod 2 ^ 32) + count \<le> cap" "0 < count"
  shows "\<exists>st' bs. efuse_read env count ppos True st = Some (st', Some bs, int count) \<and> area (ef_fw st') = area (ef_fw st) \<and>
           get_bytes (area (ef_fw st)) (nat (ppos mod 2 ^ 32)) count = Some bs"
proof -
  have f: "cap < 2 ^ 31" using ok efuse_fw_okD(1) by (auto simp: efuse_ok_def)
  have p: "int (nat (ppos mod 2 ^ 32)) = ppos mod 2 ^ 32" by simp
  obtain y where y: "ev_kz env (ef_ticks st) count = Some y" "put_bytes y 0 (replicate count 0) = Some y" "count \<le> length y"
    using kz_buffer [OF kz] .
  obtain st2 b where st2: "efuse_read_usr env y count ppos (st\<lparr>ef_ticks := Suc (ef_ticks st)\<rparr>) = Some (st2, b, int count)"
      "area (ef_fw st2) = area (ef_fw st)" "length b = length y"
      "get_bytes (area (ef_fw st)) (nat (ppos mod 2 ^ 32)) count = Some (take count b)"
    unfolding usr_position(2) [of env y count ppos]
    using efuse_read_usr_ok [of env area cap "st\<lparr>ef_ticks := Suc (ef_ticks st)\<rparr>" "nat (ppos mod 2 ^ 32)" count y] ok range y(3)
    unfolding p by auto
  have "efuse_read env count ppos True st = Some (st2, Some (take count b), int count)"
    using user_range_ok_iff [OF f range(2)] range(1) y st2(1,3) by (simp add: efuse_read_def efuse_get_max_eq [OF ok] Let_def)
  then show ?thesis using st2(2,4) by blast
qed

lemma efuse_device_write:
  assumes ok: "efuse_ok env area cap st" and kz: "kzalloc_ok (ev_kz env) cls"
    and range: "nat (ppos mod 2 ^ 32) + count \<le> cap" "0 < count" and count: "count \<le> length buf"
    and blank: "blank_at (area (ef_fw st)) (nat (ppos mod 2 ^ 32)) count"
  shows "\<exists>st1. efuse_write env (Some buf) count ppos st = Some (st1, int count) \<and> efuse_ok env area cap st1 \<and>
           put_bytes (area (ef_fw st)) (nat (ppos mod 2 ^ 32)) (take count buf) = Some (area (ef_fw st1))"
proof -
  have f: "cap < 2 ^ 31" using ok efuse_fw_okD(1) by (auto simp: efuse_ok_def)
  have p: "int (nat (ppos mod 2 ^ 32)) = ppos mod 2 ^ 32" by simp
  obtain z where z: "ev_kz env (ef_ticks st) count = Some z" "put_bytes z 0 (replicate count 0) = Some z" "count \<le> length z"
    using kz_buffer [OF kz] .
  obtain z' where z': "put_bytes z 0 (take count buf) = Some z'"
    using put_bytes_Some_iff [of z 0 "take count buf"] z(3) by auto
  have lz: "count \<le> length z'" "take count z' = take count buf"
    using length_put_bytes [OF z'] z(3) get_bytes_put_bytes_same [OF z'] count by (auto simp: get_bytes_def)
  obtain st1 where st1: "efuse_write_usr env z' count ppos (st\<lparr>ef_ticks := Suc (ef_ticks st)\<rparr>) = Some (st1, int count)"
      "efuse_ok env area cap st1" "put_bytes (area (ef_fw st)) (nat (ppos mod 2 ^ 32)) (take count buf) = Some (area (ef_fw st1))"
    unfolding usr_position(1) [of env z' count ppos]
    using efuse_write_usr_ok [of env area cap "st\<lparr>ef_ticks := Suc (ef_ticks st)\<rparr>" "nat (ppos mod 2 ^ 32)" count z'] ok range lz blank
    unfolding p by auto
  have "efuse_write env (Some buf) count ppos st = Some (st1, int count)"
    using user_range_ok_iff [OF f range(2)] range(1) z(1,2) z' st1(1) count
    by (simp add: efuse_write_def efuse_get_max_eq [OF ok] Let_def)
  then show ?thesis using st1(2,3) by blast
qed

text \<open>C29: The character device transfers exactly what it was asked to.  For at least one byte, at the position
  truncated to 32 bits: within the user area, a read returns the bytes found there and leaves the area
  alone, and a write to a range that was never programmed programs the bytes, leaves the rest of the area
  alone and returns the count, so that a read then returns them; beyond the area both fail with \<open>EINVAL\<close>
  and change nothing.\<close>

theorem efuse_device_transfers:
  assumes ok: "efuse_ok env area cap st" and kz: "kzalloc_ok (ev_kz env) cls"
    and count: "0 < count" "count \<le> length buf" and p: "p = nat (ppos mod 2 ^ 32)"
  shows "if p + count \<le> cap
         then (\<exists>st1 bs. efuse_read env count ppos True st = Some (st1, Some bs, int count) \<and>
                get_bytes (area (ef_fw st)) p count = Some bs \<and> area (ef_fw st1) = area (ef_fw st)) \<and>
              (blank_at (area (ef_fw st)) p count \<longrightarrow>
                (\<exists>st1 st2. efuse_write env (Some buf) count ppos st = Some (st1, int count) \<and>
                  put_bytes (area (ef_fw st)) p (take count buf) = Some (area (ef_fw st1)) \<and>
                  efuse_read env count ppos True st1 = Some (st2, Some (take count buf), int count) \<and>
                  area (ef_fw st2) = area (ef_fw st1)))
         else efuse_write env (Some buf) count ppos st = Some (st, - EINVAL) \<and>
              efuse_read env count ppos True st = Some (st, None, - EINVAL)"
proof (cases "p + count \<le> cap")
  case False
  have f: "cap < 2 ^ 31" using ok efuse_fw_okD(1) by (auto simp: efuse_ok_def)
  show ?thesis using user_range_ok_iff [OF f count(1), of ppos] False
    by (simp add: efuse_write_def efuse_read_def efuse_get_max_eq [OF ok] p)
next
  case True
  note range = True [unfolded p] count(1)
  have "\<exists>st1 st2. efuse_write env (Some buf) count ppos st = Some (st1, int count) \<and>
      put_bytes (area (ef_fw st)) p (take count buf) = Some (area (ef_fw st1)) \<and>
      efuse_read env count ppos True st1 = Some (st2, Some (take count buf), int count) \<and>
      area (ef_fw st2) = area (ef_fw st1)" if blank: "blank_at (area (ef_fw st)) p count"
  proof -
    obtain st1 where st1: "efuse_write env (Some buf) count ppos st = Some (st1, int count)" "efuse_ok env area cap st1"
        "put_bytes (area (ef_fw st)) p (take count buf) = Some (area (ef_fw st1))"
      using efuse_device_write [OF ok kz range count(2)] blank unfolding p by blast
    then have "get_bytes (area (ef_fw st1)) p count = Some (take count buf)"
      using get_bytes_put_bytes_same [OF st1(3)] count(2) by simp
    then show ?thesis using st1 efuse_device_read [OF st1(2) kz range] unfolding p by auto
  qed
  then show ?thesis using True efuse_device_read [OF ok kz range] unfolding p by auto
qed

section \<open>The tables of the device tree\<close>

text \<open>A well-formed table: as many entries as counted, with names that fit.\<close>

definition keys_wf :: "nat \<Rightarrow> 'f efuse_st \<Rightarrow> bool" where
  "keys_wf name_len st \<longleftrightarrow>
     ek_num st \<le> 0 \<or>
     (\<exists>infos. ek_infos st = Some infos \<and> int (length infos) = ek_num st \<and>
        (\<forall>x \<in> set infos. length (ei_keyname x) < name_len))"

lemma parse_items_length: "parse_items p items n index = Inr xs \<Longrightarrow> length xs = n"
  by (induction n arbitrary: index xs) (auto split: sum.splits)

lemma parse_items_all:
  assumes "\<And>y x. p y = Inr x \<Longrightarrow> P x"
  shows "parse_items p items n index = Inr xs \<Longrightarrow> \<forall>x \<in> set xs. P x"
proof (induction n arbitrary: index xs)
  case 0
  then show ?case by simp
next
  case (Suc n)
  then obtain x ys where x: "p (items index) = Inr x" "parse_items p items n (Suc index) = Inr ys" "xs = x # ys"
    by (auto split: sum.splits)
  then show ?case using Suc.IH [OF x(2)] assms [OF x(1)] by simp
qed

lemma key_item_parse_short: "0 < len \<Longrightarrow> key_item_parse_dt len y = Inr x \<Longrightarrow> length (ei_keyname x) < len"
  by (auto simp: key_item_parse_dt_def split: option.splits sum.splits)

lemma find_info_total:
  "n \<le> length infos \<Longrightarrow> find_info infos n item = Some (List.find (\<lambda>x. ei_keyname x = item) (take n infos))"
  by (induction infos n item rule: find_info.induct) auto

lemma efuse_getinfo_wf:
  assumes "keys_wf len st"
  shows "\<exists>r. efuse_getinfo st item = Some r"
  using assms find_info_total by (fastforce simp: keys_wf_def efuse_getinfo_def)

lemma sint_pos_unat:
  assumes "0 < sint (w :: u32)"
  shows "int (unat w) = sint w"
proof -
  have u: "uint w < 2 ^ 32" using uint_bounded [of w] by simp
  have "sint w = take_bit 32 (uint w) - 2 ^ 32 * of_bool (bit (uint w) 31)"
    by (simp add: sint_uint signed_take_bit_eq_take_bit_minus)
  then have "sint w = uint w - 2 ^ 32 * of_bool (bit (uint w) 31)" using u by (simp add: take_bit_int_eq_self)
  then have "sint w = uint w" using assms u by (cases "bit (uint w) 31") auto
  then show ?thesis by simp
qed

text \<open>C31: The table of efuse keys.  If every key of the device tree can be parsed, the table is well-formed (as
  many entries as counted, names that fit) and each lookup finds the first entry of that name or
  none.  If some key cannot be parsed, the error is returned but the table is left freed with its
  count set: every later lookup accesses freed memory.\<close>

theorem efuse_key_table:
  assumes len: "0 < ev_name_len env" and dt: "dt_key dt = Some (Inr num, items)" and num: "0 < sint num"
    and kz: "ev_kz env (ef_ticks st) (sizeof_efusekey * unat num) = Some z"
  shows "case parse_items (key_item_parse_dt (ev_name_len env)) items (unat num) 0 of
           Inr infos \<Rightarrow> \<exists>st'. get_efusekey_info env dt st = (st', 0) \<and> keys_wf (ev_name_len env) st' \<and>
             (\<forall>item. efuse_getinfo st' item = Some (List.find (\<lambda>x. ei_keyname x = item) infos))
         | Inl e \<Rightarrow> \<exists>st'. get_efusekey_info env dt st = (st', e) \<and> (\<forall>item. efuse_getinfo st' item = None)"
proof -
  have n: "unat num \<noteq> 0" using num sint_pos_unat [OF num] by linarith
  have nn: "nat (sint num) = unat num" using sint_pos_unat [OF num] by linarith
  show ?thesis
  proof (cases "parse_items (key_item_parse_dt (ev_name_len env)) items (unat num) 0")
    case (Inl e)
    have "find_info [] (nat (sint num)) item = None" for item using num n by (cases "nat (sint num)") auto
    then show ?thesis using num Inl by (simp add: get_efusekey_info_def dt kz efuse_getinfo_def Let_def)
  next
    case (Inr infos)
    have l: "length infos = unat num" using parse_items_length [OF Inr] .
    moreover have "\<forall>x \<in> set infos. length (ei_keyname x) < ev_name_len env"
      by (rule parse_items_all [OF _ Inr]) (rule key_item_parse_short [OF len])
    ultimately show ?thesis
      using num Inr find_info_total [of "unat num" infos] sint_pos_unat [OF num]
      by (simp add: get_efusekey_info_def dt kz efuse_getinfo_def keys_wf_def Let_def nn)
  qed
qed

section \<open>The user area as a store of named keys\<close>

definition efuse_running :: "'f ef_env \<Rightarrow> (nat \<Rightarrow> nat) \<Rightarrow> ('f \<Rightarrow> u8 list) \<Rightarrow> nat \<Rightarrow> 'f efuse_st \<Rightarrow> bool" where
  "efuse_running env cls area cap st \<longleftrightarrow>
     efuse_ok env area cap st \<and> kzalloc_ok (ev_kz env) cls \<and> conversions_ok env"

definition efuse_takes :: "'f ef_env \<Rightarrow> (nat \<Rightarrow> nat) \<Rightarrow> ('f \<Rightarrow> u8 list) \<Rightarrow> nat \<Rightarrow> 'f efuse_st \<Rightarrow> cstr \<Rightarrow> u8 list \<Rightarrow> u8 list \<Rightarrow> bool" where
  "efuse_takes env cls area cap st nm data bs \<longleftrightarrow>
     efuse_running env cls area cap st \<and> stores_as data bs \<and> copy_terminated cls data \<and>
     (\<exists>off. key_within st cap nm off (length bs) \<and> blank_at (area (ef_fw st)) off (length bs))"

definition efuse_holds :: "'f ef_env \<Rightarrow> (nat \<Rightarrow> nat) \<Rightarrow> ('f \<Rightarrow> u8 list) \<Rightarrow> nat \<Rightarrow> 'f efuse_st \<Rightarrow> cstr \<Rightarrow> u8 list \<Rightarrow> bool" where
  "efuse_holds env cls area cap st nm bs \<longleftrightarrow>
     efuse_running env cls area cap st \<and>
     (\<exists>off. key_within st cap nm off (length bs) \<and> get_bytes (area (ef_fw st)) off (length bs) = Some bs)"

lemma efuse_store_holds:
  assumes "efuse_takes env cls area cap st nm data bs"
  shows "\<exists>st'. efuse_user_attr_store env nm data (length data) st = Some (st', int (length data)) \<and>
     efuse_holds env cls area cap st' nm bs"
proof -
  obtain off where off: "key_within st cap nm off (length bs)" and run: "efuse_ok env area cap st" "kzalloc_ok (ev_kz env) cls"
      "conversions_ok env" and d: "stores_as data bs" and b: "blank_at (area (ef_fw st)) off (length bs)" "copy_terminated cls data"
    using assms by (auto simp: efuse_takes_def efuse_running_def)
  obtain st' where "efuse_user_attr_store env nm data (length data) st = Some (st', int (length data))"
      "efuse_ok env area cap st'" "same_tables st st'" "put_bytes (area (ef_fw st)) off bs = Some (area (ef_fw st'))"
    using efuse_user_attr_store_ok [OF run off d b] by blast
  then show ?thesis
    using run off key_within_same get_bytes_put_bytes_same by (fastforce simp: efuse_holds_def efuse_running_def)
qed

lemma efuse_fetch_holds:
  assumes "efuse_holds env cls area cap st nm bs" and "length bs \<le> length buf"
  shows "\<exists>st' buf'. efuse_user_attr_read env nm buf st = Some (st', buf', int (length bs)) \<and> length buf' = length buf \<and>
     take (length bs) buf' = bs \<and> efuse_holds env cls area cap st' nm bs"
proof -
  obtain off where off: "key_within st cap nm off (length bs)" "get_bytes (area (ef_fw st)) off (length bs) = Some bs"
    and run: "efuse_ok env area cap st" "kzalloc_ok (ev_kz env) cls" "conversions_ok env"
    using assms(1) by (auto simp: efuse_holds_def efuse_running_def)
  obtain st' buf' where r: "efuse_user_attr_read env nm buf st = Some (st', buf', int (length bs))" "length buf' = length buf"
      "efuse_ok env area cap st'" "same_tables st st'" "area (ef_fw st') = area (ef_fw st)"
      "get_bytes (area (ef_fw st)) off (length bs) = Some (take (length bs) buf')"
    using efuse_user_attr_read_ok [OF run(1,2) off(1) assms(2)] by blast
  then show ?thesis using run off key_within_same [OF r(4)] by (auto simp: efuse_holds_def efuse_running_def)
qed

interpretation efuse_keys: named_store
  "\<lambda>st nm data. efuse_user_attr_store env nm data (length data) st"
  "\<lambda>st nm buf. efuse_user_attr_read env nm buf st"
  "efuse_takes env cls area cap" "efuse_holds env cls area cap"
  for env :: "'f ef_env" and cls area cap
  by unfold_locales (use efuse_store_holds efuse_fetch_holds in blast)+

section \<open>Failed probes\<close>

definition nothing_held :: efuse_held where
  "nothing_held = \<lparr>held_dev = False, held_clk = False, held_chrdev = False, held_class = False, held_cdev = False, held_node = False\<rparr>"

lemma held_get_info [simp]:
  "ef_held (fst (get_efusekey_info env dt st)) = ef_held st" "ef_held (fst (get_efusecheck_info env dt st)) = ef_held st"
  by (auto simp: get_efusekey_info_def get_efusecheck_info_def Let_def split: option.splits sum.splits prod.splits)

lemma held_read_props:
  assumes "\<And>v f w s. (v, f) \<in> set ps \<Longrightarrow> ef_held (f w s) = ef_held s"
  shows "ef_held (fst (read_props ps st)) = ef_held st"
  using assms
proof (induction ps st rule: read_props.induct)
  case (3 v f ps s)
  then show ?case using 3(2) [of "Inr v" f v s] by auto
qed simp_all

lemma held_probe_cmds: "ef_held (fst (probe_cmds dt st)) = ef_held st"
  unfolding probe_cmds_def by (rule held_read_props) (auto simp: cmd_upd_def)

lemma held_probe_config: "\<exists>b. ef_held (fst (probe_config pe dt st)) = (ef_held st)\<lparr>held_clk := b\<rparr>"
proof (cases "pe_clk pe \<noteq> None \<and> pe_clk pe \<noteq> Some 0")
  case True
  then have "fst (probe_config pe dt st) = st" by (simp add: probe_config_def)
  then show ?thesis by (metis efuse_held.surjective efuse_held.update_convs(2))
next
  case False
  then show ?thesis
    using held_probe_cmds [of dt "hold (held_clk_update (\<lambda>_. pe_clk pe = Some 0)) st"]
    by (auto simp: probe_config_def hold_def Let_def split: prod.splits)
qed

text \<open>A probe that fails gives back what it has registered, except the clock it has enabled.\<close>

lemma probe_register_unwinds:
  assumes "snd (probe_register pe rb sm st) < 0" and "ef_held st = nothing_held\<lparr>held_dev := True, held_clk := b\<rparr>"
  shows "ef_held (fst (probe_register pe rb sm st)) = nothing_held\<lparr>held_clk := b\<rparr>"
  using assms by (auto simp: probe_register_def hold_def nothing_held_def Let_def split: if_splits)

lemma efuse_probe_unwinds:
  assumes "snd (efuse_probe env pe dt st) < 0" and "ef_held st = nothing_held"
  shows "\<exists>b. ef_held (fst (efuse_probe env pe dt st)) = nothing_held\<lparr>held_clk := b\<rparr>"
proof (cases "pe_dev pe")
  case False
  then show ?thesis using assms(2) by (simp add: efuse_probe_def nothing_held_def) (metis efuse_held.update_convs(2))
next
  case True
  let ?st = "hold (held_dev_update (\<lambda>_. True)) (st\<lparr>dev_name := replicate 32 0, ef_reg_base := False, secureboot_mask := 0\<rparr>)"
  obtain b where b: "ef_held (fst (probe_config pe dt ?st)) = (ef_held ?st)\<lparr>held_clk := b\<rparr>"
    using held_probe_config by blast
  obtain st1 r where c: "probe_config pe dt ?st = (st1, r)" by fastforce
  have h: "ef_held st1 = nothing_held\<lparr>held_dev := True, held_clk := b\<rparr>" using b c assms(2) by (simp add: hold_def)
  show ?thesis
  proof (cases r)
    case (Inl e)
    then show ?thesis using True c h by (intro exI [of _ b]) (simp add: efuse_probe_def hold_def nothing_held_def)
  next
    case (Inr rs)
    then show ?thesis
      using True c assms(1) probe_register_unwinds [of pe "fst rs" "snd rs" "fst (get_efusecheck_info env dt (fst (get_efusekey_info env dt st1)))" b] h
      by (intro exI [of _ b]) (simp add: efuse_probe_def split: prod.splits)
  qed
qed

section \<open>Witnesses\<close>

text \<open>A firmware with an area of 16 bytes of fuses, whose commands are 1 (read), 2 (write) and 3 (size).  A write
  can only set bits.  The allocator has blocks of multiples of eight bytes.\<close>

definition otp_smc :: "u8 list ef_smc" where
  "otp_smc f args s =
     (case s of (fw, i, o') \<Rightarrow>
        if f = 1 then (args ! 1, fw, i, take (unat (args ! 1)) (drop (unat (args ! 0)) fw) @ drop (unat (args ! 1)) o')
        else if f = 2 then
          (args ! 1,
           take (unat (args ! 0)) fw @ map2 (OR) (take (unat (args ! 1)) (drop (unat (args ! 0)) fw)) (take (unat (args ! 1)) i) @
             drop (unat (args ! 0) + unat (args ! 1)) fw,
           i, o')
        else if f = 3 then (16, s)
        else (0, s))"

definition otp_cmd :: aml_efuse_cmd where
  "otp_cmd = \<lparr>read_cmd = 1, write_cmd = 2, get_max_cmd = 3, mem_in_base_cmd = 4, mem_out_base_cmd = 5\<rparr>"

lemma map2_or_blank: "length xs = n \<Longrightarrow> map2 (OR) (replicate n 0) xs = (xs :: u8 list)"
proof (induction n arbitrary: xs)
  case (Suc n)
  then show ?case by (cases xs) simp_all
qed simp

lemma otp_fw_ok: "efuse_fw_ok otp_smc otp_cmd (\<lambda>fw. fw) 16"
proof -
  have u: "unat (of_nat n :: u64) = n" if "n \<le> 16" for n using that by (simp add: unat_of_nat)
  have w: "\<exists>fw'. otp_smc 2 [of_nat off, of_nat n] (fw, i, o') = (of_nat n, fw', i, o') \<and>
             put_bytes fw off (take n i) = Some fw'"
    if "off + n \<le> 16" "n \<le> length i" "length fw = 16" "blank_at fw off n" for off n fw i o'
    using that by (simp add: otp_smc_def u put_bytes_def min_def blank_at_def get_bytes_def map2_or_blank)
  have r: "\<exists>fw' out. otp_smc 1 [of_nat off, of_nat n] (fw, i, o') = (of_nat n, fw', i, out) \<and>
             fw' = fw \<and> length out = length o' \<and> get_bytes fw off n = Some (take n out)"
    if "off + n \<le> 16" "n \<le> length o'" "length fw = 16" for off n fw i o'
    using that by (simp add: otp_smc_def u get_bytes_def)
  show ?thesis
    unfolding efuse_fw_ok_def using w r by (auto simp: otp_cmd_def otp_smc_def [of 3] otp_smc_def [of 4] otp_smc_def [of 5])
qed

definition unhex :: "u8 \<Rightarrow> u32" where
  "unhex c = (if c < 0x3a then ucast c - 0x30 else ucast c - 0x57)"

definition otp_cls :: "nat \<Rightarrow> nat" where
  "otp_cls sz = 8 * ((sz + 7) div 8)"

definition otp_env :: "u8 list ef_env" where
  "otp_env =
     \<lparr>ev_smc = otp_smc, ev_km = (\<lambda>n sz. Some (replicate sz 0)), ev_kz = (\<lambda>n sz. Some (replicate (otp_cls sz) 0)),
      ev_scan = (\<lambda>t. Some (16 * unhex (t ! 0) + unhex (t ! 1))), ev_u8 = (\<lambda>t. (0, 16 * unhex (t ! 0) + unhex (t ! 1))),
      ev_cali_cmd = 9, ev_cali_items = (1, 4), ev_lock_items = (1, 4), ev_name_len = 32\<rparr>"

definition otp_st :: "u8 list efuse_st" where
  "otp_st =
     \<lparr>ek_num = 2, ek_infos = Some [\<lparr>ei_keyname = [0x6D], ei_offset = 2, ei_size = 3\<rparr>, \<lparr>ei_keyname = [0x75], ei_offset = 8, ei_size = 4\<rparr>],
      ec_main_cmd = 0, ec_num = 0, ec_infos = None, efuse_cmd = otp_cmd, efuse_pattern_size = 0, dev_name = [],
      ef_fw = replicate 16 0, ef_in = replicate 16 0, ef_out = replicate 16 0, ef_ticks = 0, ef_reg_base = False,
      secureboot_mask = 0,
      ef_held = \<lparr>held_dev = True, held_clk = False, held_chrdev = True, held_class = True, held_cdev = True, held_node = True\<rparr>\<rparr>"

lemma unhex_hex_digit: "d < 16 \<Longrightarrow> unhex (hex_digit d) = of_nat d"
proof -
  assume "d < 16"
  then have "d = 0 \<or> d = 1 \<or> d = 2 \<or> d = 3 \<or> d = 4 \<or> d = 5 \<or> d = 6 \<or> d = 7 \<or> d = 8 \<or> d = 9 \<or> d = 10 \<or>
      d = 11 \<or> d = 12 \<or> d = 13 \<or> d = 14 \<or> d = 15" by presburger
  then show ?thesis by (auto simp: hex_digit_def unhex_def)
qed

lemma unhex_hex2: "16 * unhex (hex2 b ! 0) + unhex (hex2 b ! 1) = ucast b"
proof -
  have "unat b div 16 < 16" using unsigned_less [of b, where 'a = nat] by (simp add: less_mult_imp_div_less)
  then have "16 * unhex (hex2 b ! 0) + unhex (hex2 b ! 1) = 16 * of_nat (unat b div 16) + of_nat (unat b mod 16)"
    by (simp add: hex2_def unhex_hex_digit)
  also have "\<dots> = of_nat (16 * (unat b div 16) + unat b mod 16)" by (simp only: of_nat_add of_nat_mult of_nat_numeral)
  also have "\<dots> = ucast b" by (simp del: of_nat_add of_nat_mult)
  finally show ?thesis .
qed

lemma otp_ok: "efuse_ok otp_env (\<lambda>fw. fw) 16 otp_st"
  using otp_fw_ok by (simp add: efuse_ok_def otp_env_def otp_st_def alloc_ok_def)

lemma otp_kzalloc: "kzalloc_ok (ev_kz otp_env) otp_cls"
proof -
  have "sz \<le> 8 * ((sz + 7) div 8)" for sz :: nat by presburger
  then show ?thesis by (simp add: kzalloc_ok_def otp_env_def otp_cls_def)
qed

lemma otp_conversions: "conversions_ok otp_env"
  using unhex_hex2 by (simp add: conversions_ok_def otp_env_def nth_append)

lemma otp_getinfo: "efuse_getinfo otp_st [0x6D] = Some (Some \<lparr>ei_keyname = [0x6D], ei_offset = 2, ei_size = 3\<rparr>)"
  by code_simp

lemma otp_key: "key_within otp_st 16 [0x6D] 2 (length [x, y, z :: u8])"
  by (simp add: key_within_def otp_getinfo)

lemma otp_blank: "off + n \<le> 16 \<Longrightarrow> blank_at (ef_fw otp_st) off n"
  by (simp add: blank_at_def get_bytes_def otp_st_def)

theorem efuse_store_read_witness:
  "(\<exists>st1 st2 buf'.
      efuse_user_attr_store otp_env [0x6D] (colon_text [0xAB, 0, 0xCD] @ [0x0A]) 9 otp_st = Some (st1, 9) \<and>
      efuse_user_attr_read otp_env [0x6D] [0, 0, 0, 0] st1 = Some (st2, buf', 3) \<and>
      take 3 buf' = [0xAB, 0, 0xCD] \<and> ef_fw st2 = [0, 0, 0xAB, 0, 0xCD, 0, 0, 0, 0, 0, 0, 0, 0, 0, 0, 0]) \<and>
   efuse_user_attr_store otp_env [0x6D] (colon_text [0xAB, 0, 0xCD]) 8 otp_st = None"
proof -
  let ?bs = "[0xAB, 0, 0xCD] :: u8 list"
  have d: "stores_as (colon_text ?bs @ [0x0A]) ?bs" "stores_as (colon_text ?bs) ?bs" by (simp_all add: stores_as_def)
  have l: "length (colon_text ?bs @ [0x0A]) = 9" "length (colon_text ?bs) = 8" by (simp_all add: hex2_def)
  have b: "blank_at (ef_fw otp_st) 2 (length ?bs)" by (rule otp_blank) simp
  have t: "copy_terminated otp_cls (colon_text ?bs @ [0x0A])" "\<not> copy_terminated otp_cls (colon_text ?bs)"
    using colon_text_ne [of 0 ?bs] unfolding copy_terminated_def l by (auto simp: otp_cls_def simp del: colon_text.simps)
  show ?thesis
    using efuse_store_read [OF otp_ok otp_kzalloc otp_conversions otp_key d(1) _ b, of "[0, 0, 0, 0]"]
      efuse_store_read [OF otp_ok otp_kzalloc otp_conversions otp_key d(2) _ b, of "[0, 0, 0, 0]"] t
    unfolding l by (auto simp: put_bytes_def otp_st_def numeral_eq_Suc simp del: colon_text.simps)
qed

theorem efuse_device_transfers_witness:
  "(\<exists>st1 st2. efuse_write otp_env (Some [7, 8]) 2 14 otp_st = Some (st1, 2) \<and>
      efuse_read otp_env 2 14 True st1 = Some (st2, Some [7, 8], 2) \<and>
      ef_fw st2 = [0, 0, 0, 0, 0, 0, 0, 0, 0, 0, 0, 0, 0, 0, 7, 8]) \<and>
   efuse_write otp_env (Some [7, 8]) 2 15 otp_st = Some (otp_st, - EINVAL) \<and>
   (\<exists>st1. efuse_write otp_env (Some [7, 8]) 2 (2 ^ 32 + 14) otp_st = Some (st1, 2))"
proof -
  have b: "blank_at (ef_fw otp_st) 14 2" by (rule otp_blank) simp
  note T = efuse_device_transfers [OF otp_ok otp_kzalloc, of 2 "[7, 8]"]
  show ?thesis
    using T [of 14 14] T [of 15 15] T [of 14 "2 ^ 32 + 14"] b by (auto simp: put_bytes_def otp_st_def numeral_eq_Suc)
qed

definition otp_dt :: efuse_dt where
  "otp_dt =
     \<lparr>dt_key = Some (Inr 2, \<lambda>i. if i = 0 then Some \<lparr>dk_keyname = Inr [0x6D], dk_offset = Inr 2, dk_size = Inr 3\<rparr>
                             else if i = 1 then Some \<lparr>dk_keyname = Inr [0x75], dk_offset = Inr 8, dk_size = Inr 4\<rparr> else None),
      dt_check = None, dt_read_cmd = Inr 1, dt_write_cmd = Inr 2, dt_get_max_cmd = Inr 3, dt_mem_in = Inr 4,
      dt_mem_out = Inr 5, dt_pattern = Inr 6, dt_mask = Inr 1\<rparr>"

theorem efuse_key_table_witness:
  "\<exists>st'. get_efusekey_info otp_env otp_dt otp_st = (st', 0) \<and> keys_wf 32 st' \<and>
     efuse_getinfo st' [0x75] = Some (Some \<lparr>ei_keyname = [0x75], ei_offset = 8, ei_size = 4\<rparr>)"
proof -
  have p: "parse_items (key_item_parse_dt (ev_name_len otp_env)) (snd (the (dt_key otp_dt))) (unat (2 :: u32)) 0 =
      Inr [\<lparr>ei_keyname = [0x6D], ei_offset = 2, ei_size = 3\<rparr>, \<lparr>ei_keyname = [0x75], ei_offset = 8, ei_size = 4\<rparr>]" by code_simp
  have d: "dt_key otp_dt = Some (Inr 2, snd (the (dt_key otp_dt)))" by (simp add: otp_dt_def)
  show ?thesis
    using efuse_key_table [OF _ d, of otp_env otp_st "replicate 80 0"] unfolding p by (auto simp: otp_env_def otp_cls_def)
qed

end
