(* ===== verification/Unifykey.thy ===== *)
theory Unifykey
  imports Key_Stack Efuse
begin

unbundle bit_operations_syntax

text \<open>
  The unified key device, \<open>soc/amlogic/unifykey/unifykey.c\<close> and \<open>unifykey_dts.c\<close>: the keys of the device
  tree with their storage and permissions, the operations on them, the character device and the
  attributes in \<open>sysfs\<close>, probe and remove, and the module that registers the drivers
  (\<open>efuse_unifykey.c\<close>).  The storages below are those of \<open>Storage_Key\<close> and \<open>Efuse\<close>.

  The list of the keys is a list of records; no operation of the device changes an entry, so the
  pointer to the current key is a copy of the entry.  Reading a variable before it is set and
  following a NULL pointer have no result (\<open>None\<close>).  Calls run one after the other.
\<close>

section \<open>State\<close>

datatype key_manager_dev_e = KEY_UNKNOWN_DEV | KEY_EFUSE | KEY_NORMAL | KEY_SECURE

record key_item_t =
  it_name :: cstr
  it_id :: int
  it_dev :: key_manager_dev_e
  it_perm :: u32
  it_attr :: u32

text \<open>The device, with the key storage and the efuse driver below it.  \<open>uk_hdr\<close> is the list of the
  keys in list order; \<open>ukdev_global\<close> is NULL, valid or dangling (\<open>Some False\<close>).\<close>

record ('f, 'd, 'e) aml_uk_dev =
  init_flag :: int
  lock_flag :: int
  curkey :: "key_item_t option"
  uk_hdr :: "key_item_t list"
  key_num :: int
  key_flag :: int
  encrypt_type :: int
  ukdev_global :: "bool option"
  uk_held :: efuse_held
  store_of :: "('f, 'd) uk_store"
  efuse_of :: "'e efuse_st"

record ('f, 'e) unify_env =
  x_key :: "'f uk_env"
  x_ef :: "'e ef_env"

abbreviation (input) KEY_UNIFY_NAME_LEN :: nat where "KEY_UNIFY_NAME_LEN \<equiv> 48"
abbreviation (input) KEY_PERM_READ :: u32 where "KEY_PERM_READ \<equiv> 1"
abbreviation (input) KEY_PERM_WRITE :: u32 where "KEY_PERM_WRITE \<equiv> 2"
abbreviation (input) KEY_ATTR_ENCRYPT :: u32 where "KEY_ATTR_ENCRYPT \<equiv> 0x100"
abbreviation (input) KEY_ATTR_SECURE :: u32 where "KEY_ATTR_SECURE \<equiv> 1"
abbreviation (input) KEY_EMPTY :: u32 where "KEY_EMPTY \<equiv> 0"
abbreviation (input) KEY_BURNED :: u32 where "KEY_BURNED \<equiv> 1"
abbreviation (input) SHA256_SUM_LEN :: nat where "SHA256_SUM_LEN \<equiv> 32"
abbreviation (input) EPERM :: int where "EPERM \<equiv> 1"
abbreviation (input) ENODEV :: int where "ENODEV \<equiv> 19"

text \<open>\<open>kmalloc\<close> and \<open>kzalloc\<close>, counted with the calls of the efuse driver.\<close>

definition uk_kmalloc ::
    "('f, 'e) unify_env \<Rightarrow> nat \<Rightarrow> ('f, 'd, 'e) aml_uk_dev \<Rightarrow> ('f, 'd, 'e) aml_uk_dev \<times> u8 list option" where
  "uk_kmalloc env n ukdev =
     (ukdev\<lparr>efuse_of := (efuse_of ukdev)\<lparr>ef_ticks := Suc (ef_ticks (efuse_of ukdev))\<rparr>\<rparr>,
      ev_km (x_ef env) (ef_ticks (efuse_of ukdev)) n)"

definition uk_zalloc ::
    "('f, 'e) unify_env \<Rightarrow> nat \<Rightarrow> ('f, 'd, 'e) aml_uk_dev \<Rightarrow> ('f, 'd, 'e) aml_uk_dev \<times> u8 list option" where
  "uk_zalloc env n ukdev =
     (ukdev\<lparr>efuse_of := (efuse_of ukdev)\<lparr>ef_ticks := Suc (ef_ticks (efuse_of ukdev))\<rparr>\<rparr>,
      ev_kz (x_ef env) (ef_ticks (efuse_of ukdev)) n)"

section \<open>The list of keys\<close>

text \<open>\<open>strncmp(a, b, n) == 0\<close> on strings.\<close>

definition strncmp_eq :: "cstr \<Rightarrow> cstr \<Rightarrow> nat \<Rightarrow> bool" where
  "strncmp_eq a b n \<longleftrightarrow> take n (a @ [0]) = take n (b @ [0])"

fun uk_find_item_by_name :: "key_item_t list \<Rightarrow> cstr \<Rightarrow> key_item_t option" where
  "uk_find_item_by_name [] name = None"
| "uk_find_item_by_name (item # items) name =
     (if strncmp_eq (it_name item) name
           (if length (it_name item) > length name then length (it_name item) else length name)
      then Some item else uk_find_item_by_name items name)"

fun uk_find_item_by_id :: "key_item_t list \<Rightarrow> int \<Rightarrow> key_item_t option" where
  "uk_find_item_by_id [] i = None"
| "uk_find_item_by_id (item # items) i = (if it_id item = i then Some item else uk_find_item_by_id items i)"

fun uk_count_key :: "key_item_t list \<Rightarrow> int" where
  "uk_count_key [] = 0"
| "uk_count_key (item # items) = uk_count_key items + 1"

section \<open>Access to the storages\<close>

text \<open>The results are the device, the data buffer, \<open>*real\<close> when it was set, and the return value.\<close>

definition key_storage_read ::
    "('f, 'e) unify_env \<Rightarrow> ('f, 'd, 'e) aml_uk_dev \<Rightarrow> cstr \<Rightarrow> u8 list \<Rightarrow> u32 \<Rightarrow> u32 \<Rightarrow>
     (('f, 'd, 'e) aml_uk_dev \<times> u8 list \<times> u32 option \<times> int) option" where
  "key_storage_read env ukdev name dat len flag =
     do {
       (s, a) \<leftarrow> amlkey_get_attr (x_key env) (store_of ukdev) (Some name);
       if a AND KEY_ATTR_SECURE \<noteq> 0 then Some (ukdev\<lparr>store_of := s\<rparr>, dat, None, - EINVAL)
       else do {
         (s, a) \<leftarrow> amlkey_get_attr (x_key env) s (Some name);
         let encrypt = a AND KEY_ATTR_ENCRYPT;
         let encrypt_dts = (if flag AND KEY_ATTR_ENCRYPT \<noteq> 0 then 1 else 0);
         if encrypt \<noteq> encrypt_dts then Some (ukdev\<lparr>store_of := s\<rparr>, dat, None, - EINVAL)
         else do {
           (s, dat, read_len) \<leftarrow> amlkey_read (x_key env) s (Some name) dat len;
           if read_len \<noteq> len then Some (ukdev\<lparr>store_of := s\<rparr>, dat, None, - EINVAL)
           else Some (ukdev\<lparr>store_of := s\<rparr>, dat, Some read_len, 0)
         }
       }
     }"

definition key_efuse_write ::
    "('f, 'e) unify_env \<Rightarrow> ('f, 'd, 'e) aml_uk_dev \<Rightarrow> cstr \<Rightarrow> u8 list \<Rightarrow> u32 \<Rightarrow> (('f, 'd, 'e) aml_uk_dev \<times> int) option" where
  "key_efuse_write env ukdev name dat len =
     do {
       info \<leftarrow> efuse_getinfo (efuse_of ukdev) name;
       case info of
         None \<Rightarrow> Some (ukdev, - EINVAL)
       | Some _ \<Rightarrow> do {
           (e, r) \<leftarrow> efuse_user_attr_store (x_ef env) name dat (unat len) (efuse_of ukdev);
           Some (ukdev\<lparr>efuse_of := e\<rparr>, if r < 0 then -1 else 0)
         }
     }"

definition key_efuse_read ::
    "('f, 'e) unify_env \<Rightarrow> ('f, 'd, 'e) aml_uk_dev \<Rightarrow> cstr \<Rightarrow> u8 list \<Rightarrow> u32 \<Rightarrow>
     (('f, 'd, 'e) aml_uk_dev \<times> u8 list \<times> u32 option \<times> int) option" where
  "key_efuse_read env ukdev name dat len =
     do {
       info \<leftarrow> efuse_getinfo (efuse_of ukdev) name;
       case info of
         None \<Rightarrow> Some (ukdev, dat, None, - EINVAL)
       | Some info \<Rightarrow>
           (case uk_zalloc env (unat (ei_size info)) ukdev of
              (ukdev, None) \<Rightarrow> Some (ukdev, dat, None, - ENOMEM)
            | (ukdev, Some buf) \<Rightarrow> do {
                (e, buf, err) \<leftarrow> efuse_user_attr_read (x_ef env) name buf (efuse_of ukdev);
                let ukdev = ukdev\<lparr>efuse_of := e\<rparr>;
                if err \<ge> 0 then do {
                  bs \<leftarrow> get_bytes buf 0 (unat (if len > ei_size info then ei_size info else len));
                  dat \<leftarrow> put_bytes dat 0 bs;
                  Some (ukdev, dat, Some (ei_size info), err)
                }
                else Some (ukdev, dat, None, err)
              })
     }"

definition key_efuse_query ::
    "('f, 'e) unify_env \<Rightarrow> ('f, 'd, 'e) aml_uk_dev \<Rightarrow> cstr \<Rightarrow> (('f, 'd, 'e) aml_uk_dev \<times> u32 option \<times> int) option" where
  "key_efuse_query env ukdev name =
     do {
       info \<leftarrow> efuse_getinfo (efuse_of ukdev) name;
       case info of
         None \<Rightarrow> Some (ukdev, None, - EINVAL)
       | Some info \<Rightarrow>
           (case uk_zalloc env (unat (ei_size info)) ukdev of
              (ukdev, None) \<Rightarrow> Some (ukdev, None, - ENOMEM)
            | (ukdev, Some buf) \<Rightarrow> do {
                (e, buf, err) \<leftarrow> efuse_user_attr_read (x_ef env) name buf (efuse_of ukdev);
                let ukdev = ukdev\<lparr>efuse_of := e\<rparr>;
                if err > 0 then do {
                  bs \<leftarrow> get_bytes buf 0 (unat (ei_size info));
                  Some (ukdev, Some (if \<exists>b \<in> set bs. b \<noteq> 0 then KEY_BURNED else KEY_EMPTY), err)
                }
                else Some (ukdev, Some KEY_EMPTY, err)
              })
     }"

section \<open>The operations on keys\<close>

definition key_unify_init :: "('f, 'e) unify_env \<Rightarrow> ('f, 'd, 'e) aml_uk_dev \<Rightarrow> (('f, 'd, 'e) aml_uk_dev \<times> int) option" where
  "key_unify_init env ukdev =
     (if init_flag ukdev = 1 then Some (ukdev, 0)
      else do {
        (s, ret) \<leftarrow> amlkey_init (x_key env) (store_of ukdev);
        let ukdev = ukdev\<lparr>store_of := s\<rparr>;
        if ret < 0 then Some (ukdev, ret) else Some (ukdev\<lparr>init_flag := 1\<rparr>, 0)
      })"

text \<open>The attributes a key is written with.\<close>

definition key_write_attr :: "key_item_t \<Rightarrow> u32" where
  "key_write_attr key =
     (if it_dev key = KEY_SECURE then KEY_ATTR_SECURE else 0) OR
     (if it_attr key AND KEY_ATTR_ENCRYPT \<noteq> 0 then KEY_ATTR_ENCRYPT else 0)"

definition key_unify_write ::
    "('f, 'e) unify_env \<Rightarrow> ('f, 'd, 'e) aml_uk_dev \<Rightarrow> cstr \<Rightarrow> u8 list \<Rightarrow> u32 \<Rightarrow> (('f, 'd, 'e) aml_uk_dev \<times> int) option" where
  "key_unify_write env ukdev name dat len =
     (case uk_find_item_by_name (uk_hdr ukdev) name of
        None \<Rightarrow> Some (ukdev, - EINVAL)
      | Some key \<Rightarrow>
          if it_perm key AND KEY_PERM_WRITE \<noteq> KEY_PERM_WRITE then Some (ukdev, - EPERM)
          else if it_dev key = KEY_EFUSE then key_efuse_write env ukdev name dat len
          else if it_dev key = KEY_SECURE \<or> it_dev key = KEY_NORMAL then do {
            (s, write_len) \<leftarrow> amlkey_write (x_key env) (store_of ukdev) (Some name) dat len (key_write_attr key);
            Some (ukdev\<lparr>store_of := s\<rparr>, if write_len \<noteq> int (unat len) then - EINVAL else 0)
          }
          else Some (ukdev, 0))"

definition key_unify_read ::
    "('f, 'e) unify_env \<Rightarrow> ('f, 'd, 'e) aml_uk_dev \<Rightarrow> cstr \<Rightarrow> u8 list option \<Rightarrow> u32 \<Rightarrow>
     (('f, 'd, 'e) aml_uk_dev \<times> u8 list option \<times> u32 option \<times> int) option" where
  "key_unify_read env ukdev name dat len =
     (case dat of
        None \<Rightarrow> Some (ukdev, None, None, - EINVAL)
      | Some dat \<Rightarrow>
          (case uk_find_item_by_name (uk_hdr ukdev) name of
             None \<Rightarrow> Some (ukdev, Some dat, None, - EINVAL)
           | Some key \<Rightarrow>
               if it_perm key AND KEY_PERM_READ \<noteq> KEY_PERM_READ then Some (ukdev, Some dat, None, - EPERM)
               else (case it_dev key of
                  KEY_EFUSE \<Rightarrow>
                    map_option (\<lambda>(ukdev, dat, real, ret). (ukdev, Some dat, real, ret)) (key_efuse_read env ukdev name dat len)
                | KEY_SECURE \<Rightarrow> do {
                    (s, dat, ret) \<leftarrow> amlkey_hash (x_key env) (store_of ukdev) name dat;
                    Some (ukdev\<lparr>store_of := s\<rparr>, Some dat, Some (of_nat SHA256_SUM_LEN), ret)
                  }
                | KEY_NORMAL \<Rightarrow>
                    map_option (\<lambda>(ukdev, dat, real, ret). (ukdev, Some dat, real, ret))
                      (key_storage_read env ukdev name dat len (it_attr key))
                | KEY_UNKNOWN_DEV \<Rightarrow> Some (ukdev, Some dat, None, 0))))"

definition key_unify_size ::
    "('f, 'e) unify_env \<Rightarrow> ('f, 'd, 'e) aml_uk_dev \<Rightarrow> cstr \<Rightarrow> (('f, 'd, 'e) aml_uk_dev \<times> u32 option \<times> int) option" where
  "key_unify_size env ukdev name =
     (case uk_find_item_by_name (uk_hdr ukdev) name of
        None \<Rightarrow> Some (ukdev, None, - EINVAL)
      | Some key \<Rightarrow>
          if it_perm key AND KEY_PERM_READ \<noteq> KEY_PERM_READ then Some (ukdev, None, - EPERM)
          else if it_dev key = KEY_EFUSE then do {
            info \<leftarrow> efuse_getinfo (efuse_of ukdev) name;
            Some (case info of None \<Rightarrow> (ukdev, None, - EINVAL) | Some info \<Rightarrow> (ukdev, Some (ei_size info), 0))
          }
          else if it_dev key = KEY_SECURE \<or> it_dev key = KEY_NORMAL then do {
            (s, n) \<leftarrow> amlkey_size (x_key env) (store_of ukdev) (Some name);
            Some (ukdev\<lparr>store_of := s\<rparr>, Some n, 0)
          }
          else Some (ukdev, None, 0))"

text \<open>\<open>has_perm\<close> says whether the pointer \<open>perm\<close> is not NULL; the pointer \<open>state\<close> never is.  The results
  are the device, \<open>*state\<close> and \<open>*perm\<close> when set, and the return value.\<close>

definition key_unify_query ::
    "('f, 'e) unify_env \<Rightarrow> ('f, 'd, 'e) aml_uk_dev \<Rightarrow> cstr \<Rightarrow> bool \<Rightarrow>
     (('f, 'd, 'e) aml_uk_dev \<times> u32 option \<times> u32 option \<times> int) option" where
  "key_unify_query env ukdev name has_perm =
     (case uk_find_item_by_name (uk_hdr ukdev) name of
        None \<Rightarrow> Some (ukdev, None, None, - EINVAL)
      | Some key \<Rightarrow>
          if it_perm key AND KEY_PERM_READ \<noteq> KEY_PERM_READ then Some (ukdev, None, None, - EINVAL)
          else if it_dev key = KEY_EFUSE then do {
            (ukdev, st, ret) \<leftarrow> key_efuse_query env ukdev name;
            if \<not> has_perm then None else Some (ukdev, st, Some (it_perm key), ret)
          }
          else if it_dev key = KEY_SECURE \<or> it_dev key = KEY_NORMAL then do {
            (s, x) \<leftarrow> amlkey_exsit (x_key env) (store_of ukdev) (Some name);
            Some (ukdev\<lparr>store_of := s\<rparr>, Some (if x \<noteq> 0 then KEY_BURNED else KEY_EMPTY),
                  if has_perm then Some (it_perm key) else None, 0)
          }
          else Some (ukdev, None, None, 0))"

text \<open>Reading \<open>state\<close> before it is set has no defined result.\<close>

definition key_unify_secure ::
    "('f, 'e) unify_env \<Rightarrow> ('f, 'd, 'e) aml_uk_dev \<Rightarrow> cstr \<Rightarrow> (('f, 'd, 'e) aml_uk_dev \<times> u32 option \<times> int) option" where
  "key_unify_secure env ukdev name =
     (case uk_find_item_by_name (uk_hdr ukdev) name of
        None \<Rightarrow> Some (ukdev, None, - EINVAL)
      | Some key \<Rightarrow> do {
          (ukdev, st, _, ret) \<leftarrow> key_unify_query env ukdev (it_name key) False;
          if ret \<noteq> 0 then Some (ukdev, None, ret)
          else do {
            st \<leftarrow> st;
            if st = KEY_BURNED then do {
              (s, a) \<leftarrow> amlkey_get_attr (x_key env) (store_of ukdev) (Some (it_name key));
              Some (ukdev\<lparr>store_of := s\<rparr>, Some (a AND KEY_ATTR_SECURE), ret)
            }
            else Some (ukdev, Some (if it_dev key = KEY_SECURE then 1 else 0), ret)
          }
        })"

definition key_unify_encrypt ::
    "('f, 'e) unify_env \<Rightarrow> ('f, 'd, 'e) aml_uk_dev \<Rightarrow> cstr \<Rightarrow> (('f, 'd, 'e) aml_uk_dev \<times> u32 option \<times> int) option" where
  "key_unify_encrypt env ukdev name =
     (case uk_find_item_by_name (uk_hdr ukdev) name of
        None \<Rightarrow> Some (ukdev, None, - EINVAL)
      | Some key \<Rightarrow> do {
          (ukdev, st, _, ret) \<leftarrow> key_unify_query env ukdev (it_name key) False;
          if ret \<noteq> 0 then Some (ukdev, None, ret)
          else do {
            st \<leftarrow> st;
            if st = KEY_BURNED then do {
              (s, a) \<leftarrow> amlkey_get_attr (x_key env) (store_of ukdev) (Some (it_name key));
              Some (ukdev\<lparr>store_of := s\<rparr>, Some (a AND KEY_ATTR_ENCRYPT), ret)
            }
            else Some (ukdev, Some (if it_attr key AND KEY_ATTR_ENCRYPT \<noteq> 0 then 1 else 0), ret)
          }
        })"

definition key_unify_get_init_flag :: "('f, 'd, 'e) aml_uk_dev \<Rightarrow> int option" where
  "key_unify_get_init_flag ukdev =
     (case ukdev_global ukdev of None \<Rightarrow> Some 0 | Some live \<Rightarrow> if live then Some (init_flag ukdev) else None)"

section \<open>The character device\<close>

definition unifykey_llseek :: "('f, 'd, 'e) aml_uk_dev \<Rightarrow> int \<Rightarrow> int \<Rightarrow> int \<Rightarrow> int \<times> int" where
  "unifykey_llseek ukdev f_pos off whence =
     (if whence \<noteq> 0 \<and> whence \<noteq> 1 \<and> whence \<noteq> 2 then (f_pos, - EINVAL)
      else let newpos = (if whence = 0 then off else if whence = 1 then f_pos + off
                         else uk_count_key (uk_hdr ukdev) - 1 - off) in
        if newpos < 0 then (f_pos, - EINVAL)
        else if newpos \<ge> uk_count_key (uk_hdr ukdev) then (f_pos, - EINVAL)
        else (newpos, newpos))"

abbreviation (input) KEYUNIFY_ATTACH :: u32 where "KEYUNIFY_ATTACH \<equiv> 0x6660"
abbreviation (input) KEYUNIFY_GET_INFO :: u32 where "KEYUNIFY_GET_INFO \<equiv> 0x6662"

text \<open>The structure \<open>key_item_info_t\<close> of the user; \<open>reserve\<close> is left out, it is only copied.\<close>

record key_item_info_t =
  ii_id :: u32
  ii_name :: "u8 list"
  ii_size :: u32
  ii_perm :: u32
  ii_flag :: u32

definition ioctl_attach ::
    "('f, 'e) unify_env \<Rightarrow> ('f, 'd, 'e) aml_uk_dev \<Rightarrow> int \<Rightarrow> (('f, 'd, 'e) aml_uk_dev \<times> int) option" where
  "ioctl_attach env ukdev not_copied =
     (case uk_kmalloc env 88 ukdev of
        (ukdev, None) \<Rightarrow> Some (ukdev, - ENOMEM)
      | (ukdev, Some _) \<Rightarrow> if not_copied \<noteq> 0 then Some (ukdev, not_copied) else key_unify_init env ukdev)"

text \<open>\<open>strncpy(item->name, key->name, 47)\<close> pads with zeros.\<close>

definition ioctl_get_info ::
    "('f, 'e) unify_env \<Rightarrow> ('f, 'd, 'e) aml_uk_dev \<Rightarrow> key_item_info_t \<Rightarrow> int \<Rightarrow> int \<Rightarrow>
     (('f, 'd, 'e) aml_uk_dev \<times> key_item_info_t option \<times> int) option" where
  "ioctl_get_info env ukdev item not_copied not_copied_back =
     (case uk_kmalloc env 68 ukdev of
        (ukdev, None) \<Rightarrow> Some (ukdev, None, - ENOMEM)
      | (ukdev, Some _) \<Rightarrow>
          if not_copied \<noteq> 0 then Some (ukdev, None, not_copied)
          else let name = takeWhile (\<lambda>b. b \<noteq> 0) (take (KEY_UNIFY_NAME_LEN - 1) (ii_name item));
                   key = (if name \<noteq> [] then uk_find_item_by_name (uk_hdr ukdev) name
                          else uk_find_item_by_id (uk_hdr ukdev) (sint (ii_id item))) in
            case key of
              None \<Rightarrow> Some (ukdev, None, - EINVAL)
            | Some key \<Rightarrow> do {
                (ukdev, st, perm, ret) \<leftarrow> key_unify_query env ukdev (it_name key) True;
                if ret \<noteq> 0 then Some (ukdev, None, ret)
                else do {
                  perm \<leftarrow> perm;
                  st \<leftarrow> st;
                  (ukdev, sz, ret) \<leftarrow> key_unify_size env ukdev (it_name key);
                  if ret \<noteq> 0 then Some (ukdev, None, - EFAULT)
                  else let item = \<lparr>ii_id = of_int (it_id key),
                           ii_name = (let n = take (KEY_UNIFY_NAME_LEN - 1) (it_name key)
                                      in n @ replicate (KEY_UNIFY_NAME_LEN - length n) 0),
                           ii_size = (case sz of Some n \<Rightarrow> n | None \<Rightarrow> ii_size item), ii_perm = perm, ii_flag = st\<rparr> in
                    if not_copied_back \<noteq> 0 then Some (ukdev, None, not_copied_back)
                    else Some (ukdev, Some item, 0)
                }
              })"

definition unifykey_unlocked_ioctl ::
    "('f, 'e) unify_env \<Rightarrow> ('f, 'd, 'e) aml_uk_dev \<Rightarrow> u32 \<Rightarrow> key_item_info_t \<Rightarrow> int \<Rightarrow> int \<Rightarrow>
     (('f, 'd, 'e) aml_uk_dev \<times> key_item_info_t option \<times> int) option" where
  "unifykey_unlocked_ioctl env ukdev ioc item not_copied not_copied_back =
     (if ioc = KEYUNIFY_ATTACH then
        map_option (\<lambda>(ukdev, ret). (ukdev, None, ret)) (ioctl_attach env ukdev not_copied)
      else if ioc = KEYUNIFY_GET_INFO then ioctl_get_info env ukdev item not_copied not_copied_back
      else Some (ukdev, None, - EINVAL))"

text \<open>The bytes copied to the user and the result; using \<open>reallen\<close> before it is set has no defined result.\<close>

definition unifykey_read ::
    "('f, 'e) unify_env \<Rightarrow> ('f, 'd, 'e) aml_uk_dev \<Rightarrow> nat \<Rightarrow> int \<Rightarrow> bool \<Rightarrow>
     (('f, 'd, 'e) aml_uk_dev \<times> u8 list option \<times> int) option" where
  "unifykey_read env ukdev count ppos copy_out =
     (case uk_find_item_by_id (uk_hdr ukdev) (sint (of_int ppos :: u32)) of
        None \<Rightarrow> Some (ukdev, None, - EINVAL)
      | Some item \<Rightarrow>
          let count = (if it_dev item = KEY_SECURE then SHA256_SUM_LEN else count) in
          case uk_zalloc env count ukdev of
            (ukdev, None) \<Rightarrow> Some (ukdev, None, - ENOMEM)
          | (ukdev, Some local_buf) \<Rightarrow> do {
              (ukdev, dat, reallen, ret) \<leftarrow> key_unify_read env ukdev (it_name item) (Some local_buf) (of_nat count);
              if ret < 0 then Some (ukdev, None, ret)
              else do {
                reallen \<leftarrow> reallen;
                local_buf \<leftarrow> dat;
                let count = (if count > unat reallen then unat reallen else count);
                bs \<leftarrow> get_bytes local_buf 0 count;
                if \<not> copy_out then Some (ukdev, None, - EFAULT)
                else Some (ukdev, Some bs, int count)
              }
            })"

definition unifykey_write ::
    "('f, 'e) unify_env \<Rightarrow> ('f, 'd, 'e) aml_uk_dev \<Rightarrow> u8 list option \<Rightarrow> nat \<Rightarrow> int \<Rightarrow>
     (('f, 'd, 'e) aml_uk_dev \<times> int) option" where
  "unifykey_write env ukdev user count ppos =
     (case uk_zalloc env count ukdev of
        (ukdev, None) \<Rightarrow> Some (ukdev, - ENOMEM)
      | (ukdev, Some local_buf) \<Rightarrow>
          (case uk_find_item_by_id (uk_hdr ukdev) (sint (of_int ppos :: u32)) of
             None \<Rightarrow> Some (ukdev, - EINVAL)
           | Some item \<Rightarrow>
               (case user of
                  None \<Rightarrow> Some (ukdev, - EFAULT)
                | Some buf \<Rightarrow> do {
                    bs \<leftarrow> get_bytes buf 0 count;
                    local_buf \<leftarrow> put_bytes local_buf 0 bs;
                    (ukdev, ret) \<leftarrow> key_unify_write env ukdev (it_name item) local_buf (of_nat count);
                    Some (ukdev, if ret < 0 then ret else sint (of_nat count :: u32))
                  })))"

section \<open>The attributes\<close>

definition version_show :: "string \<times> int" where
  "version_show = (''version:1.0'' @ [CHR 0x0A], 12)"

definition fmt_02d :: "nat \<Rightarrow> string" where
  "fmt_02d n = (let s = radix 10 n in replicate (2 - length s) (CHR ''0'') @ s)"

definition dev_string :: "key_manager_dev_e \<Rightarrow> string" where
  "dev_string d =
     (case d of KEY_UNKNOWN_DEV \<Rightarrow> ''unknown'' | KEY_EFUSE \<Rightarrow> ''efuse'' | KEY_NORMAL \<Rightarrow> ''normal'' | KEY_SECURE \<Rightarrow> ''secure'')"

text \<open>The loop of \<open>list_show\<close>: keys left, index, text so far.\<close>

fun list_loop :: "key_item_t list \<Rightarrow> nat \<Rightarrow> nat \<Rightarrow> string \<Rightarrow> string option" where
  "list_loop items 0 index buf = Some buf"
| "list_loop items (Suc n) index buf =
     (case uk_find_item_by_id items (int index) of
        None \<Rightarrow> list_loop items n (Suc index) buf
      | Some key \<Rightarrow> do {
          buf \<leftarrow> sprintf_page (fmt_02d index @ '': '' @ cstr_str (it_name key) @ '', '' @ dev_string (it_dev key) @ '', '' @
                   radix 16 (unat (it_perm key)) @ [CHR 0x0A]) buf;
          list_loop items n (Suc index) buf
        })"

definition list_show :: "('f, 'd, 'e) aml_uk_dev \<Rightarrow> (string \<times> int) option" where
  "list_show ukdev =
     do {
       buf \<leftarrow> sprintf_page (fmt_d (uk_count_key (uk_hdr ukdev)) @ '' keys installed'' @ [CHR 0x0A]) [];
       buf \<leftarrow> list_loop (uk_hdr ukdev) (nat (uk_count_key (uk_hdr ukdev))) 0 buf;
       Some (buf, int (length buf))
     }"

definition exist_show ::
    "('f, 'e) unify_env \<Rightarrow> ('f, 'd, 'e) aml_uk_dev \<Rightarrow> (('f, 'd, 'e) aml_uk_dev \<times> string \<times> int) option" where
  "exist_show env ukdev =
     (case curkey ukdev of
        None \<Rightarrow> Some (ukdev, [], - EINVAL)
      | Some key \<Rightarrow> do {
          (ukdev, keystate, _, ret) \<leftarrow> key_unify_query env ukdev (it_name key) True;
          if ret < 0 then Some (ukdev, [], 0)
          else do {
            keystate \<leftarrow> keystate;
            let s = (if keystate = 0 then ''none'' else if keystate = 1 then ''exist'' else ''unknown'') @ [CHR 0x0A];
            Some (ukdev, s, int (length s))
          }
        })"

text \<open>The word that \<open>secure_show\<close> and \<open>encrypt_show\<close> write.\<close>

definition flag_string :: "u32 \<Rightarrow> int \<Rightarrow> string" where
  "flag_string v ret = (if ret < 0 then ''error'' else if v = 0 then ''false'' else ''true'') @ [CHR 0x0A]"

definition secure_show ::
    "('f, 'e) unify_env \<Rightarrow> ('f, 'd, 'e) aml_uk_dev \<Rightarrow> (('f, 'd, 'e) aml_uk_dev \<times> string \<times> int) option" where
  "secure_show env ukdev =
     (case curkey ukdev of
        None \<Rightarrow> Some (ukdev, [], - EINVAL)
      | Some key \<Rightarrow> do {
          (ukdev, secure, ret) \<leftarrow> key_unify_secure env ukdev (it_name key);
          let s = flag_string (case secure of Some v \<Rightarrow> v | None \<Rightarrow> 0) ret;
          Some (ukdev, s, int (length s))
        })"

definition encrypt_show ::
    "('f, 'e) unify_env \<Rightarrow> ('f, 'd, 'e) aml_uk_dev \<Rightarrow> (('f, 'd, 'e) aml_uk_dev \<times> string \<times> int) option" where
  "encrypt_show env ukdev =
     (case curkey ukdev of
        None \<Rightarrow> Some (ukdev, [], - EINVAL)
      | Some key \<Rightarrow> do {
          (ukdev, encrypt, ret) \<leftarrow> key_unify_encrypt env ukdev (it_name key);
          v \<leftarrow> (if ret < 0 then Some 0 else encrypt);
          let s = flag_string v ret;
          Some (ukdev, s, int (length s))
        })"

definition size_show ::
    "('f, 'e) unify_env \<Rightarrow> ('f, 'd, 'e) aml_uk_dev \<Rightarrow> (('f, 'd, 'e) aml_uk_dev \<times> string \<times> int) option" where
  "size_show env ukdev =
     (case curkey ukdev of
        None \<Rightarrow> Some (ukdev, [], - EINVAL)
      | Some key \<Rightarrow> do {
          (ukdev, reallen, ret) \<leftarrow> key_unify_size env ukdev (it_name key);
          if ret < 0 then Some (ukdev, [], 0)
          else do {
            reallen \<leftarrow> reallen;
            let s = fmt_d (sint reallen) @ [CHR 0x0A];
            Some (ukdev, s, int (length s))
          }
        })"

definition name_show :: "('f, 'd, 'e) aml_uk_dev \<Rightarrow> string \<times> int" where
  "name_show ukdev =
     (case curkey ukdev of
        None \<Rightarrow> ([], 0)
      | Some key \<Rightarrow> let s = cstr_str (it_name key) @ [CHR 0x0A] in (s, int (length s)))"

text \<open>The loop of \<open>name_store\<close>: keys left, index.\<close>

fun name_loop :: "key_item_t list \<Rightarrow> nat \<Rightarrow> int \<Rightarrow> cstr \<Rightarrow> key_item_t option" where
  "name_loop items 0 index name = None"
| "name_loop items (Suc n) index name =
     (case uk_find_item_by_id items index of
        None \<Rightarrow> name_loop items n (index + 1) name
      | Some key \<Rightarrow>
          if strncmp_eq name (it_name key) (if length (it_name key) > length name then length (it_name key) else length name)
          then Some key else name_loop items n (index + 1) name)"

definition name_store ::
    "('f, 'e) unify_env \<Rightarrow> ('f, 'd, 'e) aml_uk_dev \<Rightarrow> u8 list \<Rightarrow> nat \<Rightarrow> (('f, 'd, 'e) aml_uk_dev \<times> int) option" where
  "name_store env ukdev buf count =
     (let count = (if count \<ge> KEY_UNIFY_NAME_LEN then KEY_UNIFY_NAME_LEN - 1 else count) in
      if count = 0 then Some (ukdev, - EINVAL)
      else case uk_zalloc env (count + 1) ukdev of
        (ukdev, None) \<Rightarrow> Some (ukdev, - EINVAL)
      | (ukdev, Some name) \<Rightarrow> do {
          l \<leftarrow> byte_at buf (count - 1);
          bs \<leftarrow> get_bytes buf 0 (if l = 0x0A then count - 1 else count);
          name \<leftarrow> put_bytes name 0 bs;
          name \<leftarrow> str_at name 0;
          case name_loop (uk_hdr ukdev) (nat (uk_count_key (uk_hdr ukdev))) 0 name of
            None \<Rightarrow> Some (ukdev, - EINVAL)
          | Some key \<Rightarrow> Some (ukdev\<lparr>curkey := Some key\<rparr>, int count)
        })"

text \<open>The page takes the key and a terminator.\<close>

definition read_show ::
    "('f, 'e) unify_env \<Rightarrow> ('f, 'd, 'e) aml_uk_dev \<Rightarrow> (('f, 'd, 'e) aml_uk_dev \<times> u8 list \<times> int) option" where
  "read_show env ukdev =
     (case curkey ukdev of
        None \<Rightarrow> Some (ukdev, [], 0)
      | Some key \<Rightarrow> do {
          (ukdev, keysize, ret) \<leftarrow> key_unify_size env ukdev (it_name key);
          if ret < 0 then Some (ukdev, [], 0)
          else do {
            keysize \<leftarrow> keysize;
            if keysize = 0 then Some (ukdev, [], 0)
            else do {
              let keysize = (if it_dev key = KEY_SECURE then of_nat SHA256_SUM_LEN else keysize);
              case uk_zalloc env (unat keysize) ukdev of
                (ukdev, None) \<Rightarrow> Some (ukdev, [], 0)
              | (ukdev, Some keydata) \<Rightarrow> do {
                  (ukdev, keydata, _, ret) \<leftarrow> key_unify_read env ukdev (it_name key) (Some keydata) keysize;
                  if ret < 0 then Some (ukdev, [], 0)
                  else do {
                    keydata \<leftarrow> keydata;
                    bs \<leftarrow> get_bytes keydata 0 (unat keysize);
                    _ \<leftarrow> put_bytes (replicate 4096 0) 0 (bs @ [0]);
                    Some (ukdev, bs, int (unat keysize))
                  }
                }
            }
          }
        })"

text \<open>What \<open>write_store\<close> takes for the key: a text loses its final newline.\<close>

definition write_len :: "u8 list \<Rightarrow> nat \<Rightarrow> nat" where
  "write_len buf count =
     (if list_all (\<lambda>b. b < 0x80) (take count buf) \<and> buf ! (count - 1) = 0x0A then count - 1 else count)"

definition write_store ::
    "('f, 'e) unify_env \<Rightarrow> ('f, 'd, 'e) aml_uk_dev \<Rightarrow> u8 list \<Rightarrow> nat \<Rightarrow> (('f, 'd, 'e) aml_uk_dev \<times> int) option" where
  "write_store env ukdev buf count =
     (if count = 0 then Some (ukdev, - EINVAL)
      else case curkey ukdev of
        None \<Rightarrow> Some (ukdev, int count)
      | Some key \<Rightarrow>
          (case uk_zalloc env count ukdev of
             (ukdev, None) \<Rightarrow> Some (ukdev, int count)
           | (ukdev, Some keydata) \<Rightarrow> do {
               _ \<leftarrow> get_bytes buf 0 count;
               let key_len = write_len buf count;
               bs \<leftarrow> get_bytes buf 0 key_len;
               keydata \<leftarrow> put_bytes keydata 0 bs;
               (ukdev, _) \<leftarrow> key_unify_write env ukdev (it_name key) keydata (of_nat key_len);
               Some (ukdev, int count)
             }))"

definition attach_show :: "('f, 'd, 'e) aml_uk_dev \<Rightarrow> string \<times> int" where
  "attach_show ukdev =
     (let s = (if init_flag ukdev = 0 then ''no'' else ''yes'') @ [CHR 0x0A] in (s, int (length s)))"

definition attach_store ::
    "('f, 'e) unify_env \<Rightarrow> ('f, 'd, 'e) aml_uk_dev \<Rightarrow> nat \<Rightarrow> (('f, 'd, 'e) aml_uk_dev \<times> int) option" where
  "attach_store env ukdev count = do { (ukdev, _) \<leftarrow> key_unify_init env ukdev; Some (ukdev, int count) }"

definition lock_show :: "('f, 'd, 'e) aml_uk_dev \<Rightarrow> string \<times> int" where
  "lock_show ukdev = (let s = fmt_d (lock_flag ukdev) @ [CHR 0x0A] in (s, int (length s)))"

definition lock_store :: "('f, 'd, 'e) aml_uk_dev \<Rightarrow> u8 list \<Rightarrow> nat \<Rightarrow> (('f, 'd, 'e) aml_uk_dev \<times> int) option" where
  "lock_store ukdev buf count =
     (if count = 0 then Some (ukdev, - EINVAL)
      else do {
        l \<leftarrow> byte_at buf (count - 1);
        let len = (if l = 0x0A then count - 1 else count);
        s \<leftarrow> str_at buf 0;
        if strncmp_eq s [0x31] len then Some (ukdev\<lparr>lock_flag := 1\<rparr>, int count)
        else if strncmp_eq s [0x30] len then Some (ukdev\<lparr>lock_flag := 0\<rparr>, int count)
        else Some (ukdev, - EINVAL)
      })"

section \<open>Keys of the device tree\<close>

text \<open>A child node: the strings \<open>key-name\<close> and \<open>key-device\<close> (\<open>None\<close> if they cannot be read), whether
  \<open>key-permit\<close> lists read and write, and whether there is a property \<open>key-encrypt\<close>.\<close>

record uk_node =
  un_name :: "cstr option"
  un_device :: "string option"
  un_read :: bool
  un_write :: bool
  un_encrypt :: bool

definition key_device :: "string \<Rightarrow> key_manager_dev_e" where
  "key_device s =
     (if s = ''efuse'' then KEY_EFUSE else if s = ''normal'' then KEY_NORMAL
      else if s = ''secure'' then KEY_SECURE else KEY_UNKNOWN_DEV)"

definition uk_item_parse_dt ::
    "('f, 'e) unify_env \<Rightarrow> uk_node \<Rightarrow> int \<Rightarrow> ('f, 'd, 'e) aml_uk_dev \<Rightarrow> ('f, 'd, 'e) aml_uk_dev \<times> int" where
  "uk_item_parse_dt env node i ukdev =
     (case uk_zalloc env 88 ukdev of
        (ukdev, None) \<Rightarrow> (ukdev, - ENOMEM)
      | (ukdev, Some _) \<Rightarrow>
          (case un_name node of
             None \<Rightarrow> (ukdev, - EINVAL)
           | Some propname \<Rightarrow>
               (case un_device node of
                  None \<Rightarrow> (ukdev, - EINVAL)
                | Some device \<Rightarrow>
                    (ukdev\<lparr>uk_hdr :=
                       \<lparr>it_name = take (KEY_UNIFY_NAME_LEN - 1) propname, it_id = i, it_dev = key_device device,
                        it_perm = (if un_read node then KEY_PERM_READ else 0) OR (if un_write node then KEY_PERM_WRITE else 0),
                        it_attr = (if un_encrypt node then KEY_ATTR_ENCRYPT else 0)\<rparr> # uk_hdr ukdev\<rparr>, 0))))"

fun uk_item_create ::
    "('f, 'e) unify_env \<Rightarrow> uk_node list \<Rightarrow> int \<Rightarrow> ('f, 'd, 'e) aml_uk_dev \<Rightarrow> ('f, 'd, 'e) aml_uk_dev \<times> int" where
  "uk_item_create env [] index ukdev = (ukdev, index)"
| "uk_item_create env (child # nodes) index ukdev =
     (let (ukdev, ret) = uk_item_parse_dt env child index ukdev
      in uk_item_create env nodes (if ret = 0 then index + 1 else index) ukdev)"

definition uk_dt_create ::
    "('f, 'e) unify_env \<Rightarrow> int option \<Rightarrow> uk_node list \<Rightarrow> ('f, 'd, 'e) aml_uk_dev \<Rightarrow> ('f, 'd, 'e) aml_uk_dev \<times> int" where
  "uk_dt_create env enc nodes ukdev =
     (let ukdev = ukdev\<lparr>encrypt_type := (case enc of Some e \<Rightarrow> e | None \<Rightarrow> -1)\<rparr> in
      if key_flag ukdev = 0 then
        let (ukdev, n) = uk_item_create env nodes 0 ukdev in (ukdev\<lparr>key_num := n, key_flag := 1\<rparr>, 0)
      else (ukdev, 0))"

definition uk_dt_release :: "('f, 'd, 'e) aml_uk_dev \<Rightarrow> ('f, 'd, 'e) aml_uk_dev \<times> int" where
  "uk_dt_release ukdev = (ukdev\<lparr>uk_hdr := [], key_flag := 0\<rparr>, 0)"

section \<open>Probe, remove and the module\<close>

definition uk_hold :: "(efuse_held \<Rightarrow> efuse_held) \<Rightarrow> ('f, 'd, 'e) aml_uk_dev \<Rightarrow> ('f, 'd, 'e) aml_uk_dev" where
  "uk_hold f ukdev = ukdev\<lparr>uk_held := f (uk_held ukdev)\<rparr>"

text \<open>The labels \<open>error1\<close> (the device is freed, the global pointer is not reset) and \<open>out\<close>.\<close>

definition uk_probe_out :: "('f, 'd, 'e) aml_uk_dev \<Rightarrow> ('f, 'd, 'e) aml_uk_dev" where
  "uk_probe_out ukdev = ukdev\<lparr>store_of := amlkey_if_deinit (store_of ukdev)\<rparr>"

definition uk_probe_error1 :: "('f, 'd, 'e) aml_uk_dev \<Rightarrow> ('f, 'd, 'e) aml_uk_dev" where
  "uk_probe_error1 ukdev = uk_probe_out ((uk_hold (held_dev_update (\<lambda>_. False)) ukdev)\<lparr>ukdev_global := Some False\<rparr>)"

definition uk_register :: "probe_env \<Rightarrow> ('f, 'd, 'e) aml_uk_dev \<Rightarrow> ('f, 'd, 'e) aml_uk_dev \<times> int" where
  "uk_register pe ukdev =
     (if pe_chrdev pe \<noteq> 0 then (uk_probe_error1 ukdev, pe_chrdev pe)
      else let ukdev = uk_hold (held_chrdev_update (\<lambda>_. True)) ukdev in
      if pe_class pe \<noteq> 0 then (uk_probe_error1 (uk_hold (held_chrdev_update (\<lambda>_. False)) ukdev), pe_class pe)
      else let ukdev = uk_hold (held_class_update (\<lambda>_. True)) ukdev in
      if pe_cdev pe \<noteq> 0 then
        (uk_probe_error1 (uk_hold (held_class_update (\<lambda>_. False) \<circ> held_chrdev_update (\<lambda>_. False)) ukdev), pe_cdev pe)
      else let ukdev = uk_hold (held_cdev_update (\<lambda>_. True)) ukdev in
      if pe_node pe < 0 then
        (uk_probe_error1 (uk_hold (held_cdev_update (\<lambda>_. False) \<circ> held_class_update (\<lambda>_. False) \<circ>
           held_chrdev_update (\<lambda>_. False)) ukdev), pe_node pe)
      else (uk_hold (held_node_update (\<lambda>_. True)) ukdev, 0))"

definition aml_unifykeys_probe ::
    "('f, 'e) unify_env \<Rightarrow> probe_env \<Rightarrow> int option \<Rightarrow> uk_node list \<Rightarrow> ('f, 'd, 'e) aml_uk_dev \<Rightarrow>
     ('f, 'd, 'e) aml_uk_dev \<times> int" where
  "aml_unifykeys_probe env pe enc nodes ukdev =
     (let (s, ret) = amlkey_if_init (x_key env) (store_of ukdev); ukdev = ukdev\<lparr>store_of := s\<rparr> in
      if ret \<noteq> 0 then (uk_probe_out ukdev, - ENODEV)
      else if \<not> pe_dev pe then (uk_probe_out ukdev, - ENOMEM)
      else let ukdev = uk_hold (held_dev_update (\<lambda>_. True))
             (ukdev\<lparr>init_flag := 0, lock_flag := 0, curkey := None, uk_hdr := [], key_num := 0, key_flag := 0,
                    encrypt_type := 0, ukdev_global := Some True\<rparr>);
           (ukdev, ret) = uk_dt_create env enc nodes ukdev in
      if ret \<noteq> 0 then (uk_probe_error1 ukdev, ret) else uk_register pe ukdev)"

definition aml_unifykeys_remove :: "bool \<Rightarrow> ('f, 'd, 'e) aml_uk_dev \<Rightarrow> ('f, 'd, 'e) aml_uk_dev \<times> int" where
  "aml_unifykeys_remove has_node ukdev =
     (let ukdev = (if has_node then fst (uk_dt_release ukdev) else ukdev);
          ukdev = uk_hold (held_class_update (\<lambda>_. False) \<circ> held_cdev_update (\<lambda>_. False) \<circ> held_node_update (\<lambda>_. False) \<circ>
                    held_chrdev_update (\<lambda>_. False)) ukdev
      in (uk_probe_out ukdev, 0))"

text \<open>The module registers three drivers; the results of the registrations are parameters.\<close>

record uk_module =
  reg_efuse :: bool
  reg_unifykey :: bool
  reg_burn :: bool

definition efuse_unifykey_init :: "int \<Rightarrow> int \<Rightarrow> int \<Rightarrow> uk_module \<Rightarrow> uk_module \<times> int" where
  "efuse_unifykey_init r1 r2 r3 m =
     (if r1 \<noteq> 0 then (m, r1)
      else let m = m\<lparr>reg_efuse := True\<rparr> in
      if r2 \<noteq> 0 then (m\<lparr>reg_efuse := False\<rparr>, r2)
      else let m = m\<lparr>reg_unifykey := True\<rparr> in
      if r3 \<noteq> 0 then (m\<lparr>reg_burn := False\<rparr>, r3)
      else (m\<lparr>reg_burn := True\<rparr>, 0))"

definition efuse_unifykey_exit :: "uk_module \<Rightarrow> uk_module" where
  "efuse_unifykey_exit m = m\<lparr>reg_efuse := False, reg_unifykey := False, reg_burn := False\<rparr>"

section \<open>The key table\<close>

lemma strncmp_eq_max:
  assumes "0 \<notin> set a" and "0 \<notin> set b" and "n = (if length a > length b then length a else length b)"
  shows "strncmp_eq a b n \<longleftrightarrow> a = b"
proof (cases "length a" "length b" rule: linorder_cases)
  case less
  then have "take n (a @ [0]) = a @ [0]" "take n (b @ [0]) = b" using assms(3) by auto
  moreover have "a @ [0] \<noteq> b" using assms(2) by auto
  ultimately show ?thesis using less by (auto simp: strncmp_eq_def)
next
  case equal
  then show ?thesis using assms(3) by (simp add: strncmp_eq_def)
next
  case greater
  then have "take n (a @ [0]) = a" "take n (b @ [0]) = b @ [0]" using assms(3) by auto
  moreover have "b @ [0] \<noteq> a" using assms(1) by auto
  ultimately show ?thesis using greater by (auto simp: strncmp_eq_def)
qed

definition names_ok :: "key_item_t list \<Rightarrow> bool" where
  "names_ok items \<longleftrightarrow> (\<forall>x \<in> set items. 0 \<notin> set (it_name x))"

lemma uk_find_item_by_name_eq:
  assumes "names_ok items" and "0 \<notin> set name"
  shows "uk_find_item_by_name items name = List.find (\<lambda>x. it_name x = name) items"
  using assms(1)
proof (induction items)
  case (Cons x items)
  have "strncmp_eq (it_name x) name (if length (it_name x) > length name then length (it_name x) else length name) \<longleftrightarrow> it_name x = name"
    using Cons.prems assms(2) by (intro strncmp_eq_max) (auto simp: names_ok_def)
  then show ?case using Cons by (simp add: names_ok_def)
qed simp

lemma uk_find_item_by_id_eq: "uk_find_item_by_id items i = List.find (\<lambda>x. it_id x = i) items"
  by (induction items) auto

lemma uk_count_key_eq [simp]: "uk_count_key items = int (length items)"
  by (induction items) auto

text \<open>The table: the newest key first, its identifiers counting down to 0, names that fit, permissions and
  attributes as the device tree can give them.\<close>

definition table_wf :: "key_item_t list \<Rightarrow> bool" where
  "table_wf items \<longleftrightarrow>
     map it_id items = rev (map int [0..<length items]) \<and>
     (\<forall>x \<in> set items. length (it_name x) < KEY_UNIFY_NAME_LEN \<and> it_perm x \<le> 3 \<and> it_attr x \<in> {0, KEY_ATTR_ENCRYPT})"

lemma find_ex: "(\<exists>x. List.find P xs = Some x) \<longleftrightarrow> (\<exists>x \<in> set xs. P x)"
  by (induction xs) auto

lemma table_wf_find:
  assumes "table_wf items"
  shows "(\<exists>x. uk_find_item_by_id items i = Some x) \<longleftrightarrow> 0 \<le> i \<and> i < int (length items)"
proof -
  have "(\<exists>x. uk_find_item_by_id items i = Some x) \<longleftrightarrow> i \<in> set (map it_id items)"
    by (auto simp: uk_find_item_by_id_eq find_ex)
  also have "\<dots> \<longleftrightarrow> i \<in> int ` {0..<length items}"
    using assms unfolding table_wf_def by (metis set_map set_rev set_upt)
  also have "\<dots> \<longleftrightarrow> 0 \<le> i \<and> i < int (length items)"
    by (auto simp: image_iff intro!: bexI [of _ "nat i"])
  finally show ?thesis .
qed

definition node_ok :: "uk_node \<Rightarrow> bool" where
  "node_ok node \<longleftrightarrow> un_name node \<noteq> None \<and> un_device node \<noteq> None"

definition zalloc_succeeds :: "('f, 'e) unify_env \<Rightarrow> bool" where
  "zalloc_succeeds env \<longleftrightarrow> (\<forall>n sz. ev_kz (x_ef env) n sz \<noteq> None)"

definition node_item :: "uk_node \<Rightarrow> int \<Rightarrow> key_item_t" where
  "node_item node i =
     \<lparr>it_name = take (KEY_UNIFY_NAME_LEN - 1) (the (un_name node)), it_id = i, it_dev = key_device (the (un_device node)),
      it_perm = (if un_read node then KEY_PERM_READ else 0) OR (if un_write node then KEY_PERM_WRITE else 0),
      it_attr = (if un_encrypt node then KEY_ATTR_ENCRYPT else 0)\<rparr>"

lemma uk_item_parse_dt_eq:
  assumes "zalloc_succeeds env"
  shows "\<exists>e. uk_item_parse_dt env node i ukdev =
    (if node_ok node then (ukdev\<lparr>efuse_of := e, uk_hdr := node_item node i # uk_hdr ukdev\<rparr>, 0)
     else (ukdev\<lparr>efuse_of := e\<rparr>, - EINVAL))"
proof -
  obtain z where z: "ev_kz (x_ef env) (ef_ticks (efuse_of ukdev)) 88 = Some z"
    using assms unfolding zalloc_succeeds_def by blast
  show ?thesis
    by (cases "un_name node"; cases "un_device node")
       (auto simp: uk_item_parse_dt_def uk_zalloc_def z node_ok_def node_item_def)
qed

fun node_items :: "uk_node list \<Rightarrow> int \<Rightarrow> key_item_t list" where
  "node_items [] i = []"
| "node_items (node # nodes) i =
     (if node_ok node then node_item node i # node_items nodes (i + 1) else node_items nodes i)"

lemma uk_item_create_eq:
  assumes "zalloc_succeeds env"
  shows "\<exists>e. uk_item_create env nodes i ukdev =
    (ukdev\<lparr>efuse_of := e, uk_hdr := rev (node_items nodes i) @ uk_hdr ukdev\<rparr>, i + int (length (node_items nodes i)))"
proof (induction nodes arbitrary: i ukdev)
  case Nil
  then show ?case by (auto intro: exI [of _ "efuse_of ukdev"])
next
  case (Cons node nodes)
  obtain e where e: "uk_item_parse_dt env node i ukdev =
    (if node_ok node then (ukdev\<lparr>efuse_of := e, uk_hdr := node_item node i # uk_hdr ukdev\<rparr>, 0)
     else (ukdev\<lparr>efuse_of := e\<rparr>, - EINVAL))" using uk_item_parse_dt_eq [OF assms] by blast
  show ?case
    using e Cons.IH [of "i + 1" "ukdev\<lparr>efuse_of := e, uk_hdr := node_item node i # uk_hdr ukdev\<rparr>"]
      Cons.IH [of i "ukdev\<lparr>efuse_of := e\<rparr>"] by (cases "node_ok node") auto
qed

lemma node_items_ids: "map it_id (node_items nodes i) = map (\<lambda>k. i + int k) [0..<length (node_items nodes i)]"
proof (induction nodes arbitrary: i)
  case (Cons node nodes)
  show ?case
  proof (cases "node_ok node")
    case True
    have "map (\<lambda>k. i + int k) [0..<Suc n] = i # map (\<lambda>k. i + 1 + int k) [0..<n]" for n
      by (subst upt_conv_Cons) (simp_all add: map_Suc_upt [symmetric] comp_def algebra_simps del: upt_Suc)
    then show ?thesis using True Cons.IH [of "i + 1"] by (simp add: node_item_def del: upt_Suc)
  qed (simp add: Cons.IH)
qed simp

lemma node_items_wf:
  "x \<in> set (node_items nodes i) \<Longrightarrow> length (it_name x) < KEY_UNIFY_NAME_LEN \<and> it_perm x \<le> 3 \<and> it_attr x \<in> {0, KEY_ATTR_ENCRYPT}"
  by (induction nodes arbitrary: i) (auto simp: node_item_def split: if_splits)

lemma node_items_table: "table_wf (rev (node_items nodes 0))"
  using node_items_ids [of nodes 0] node_items_wf [of _ nodes 0] by (simp add: table_wf_def rev_map [symmetric])

section \<open>Sequences of calls\<close>

text \<open>The calls a user can make: on the character device and on the attributes.\<close>

datatype uk_call =
    UkWrite "u8 list option" nat int
  | UkRead nat int bool
  | UkIoctl u32 key_item_info_t int int
  | UkNameStore "u8 list" nat
  | UkWriteStore "u8 list" nat
  | UkReadShow
  | UkExistShow
  | UkSecureShow
  | UkEncryptShow
  | UkSizeShow
  | UkAttachStore nat
  | UkLockStore "u8 list" nat

primrec uk_call_result ::
    "('f, 'e) unify_env \<Rightarrow> uk_call \<Rightarrow> ('f, 'd, 'e) aml_uk_dev \<Rightarrow> ('f, 'd, 'e) aml_uk_dev option" where
  "uk_call_result env (UkWrite user count ppos) ukdev = map_option fst (unifykey_write env ukdev user count ppos)"
| "uk_call_result env (UkRead count ppos ok) ukdev = map_option fst (unifykey_read env ukdev count ppos ok)"
| "uk_call_result env (UkIoctl ioc item n m) ukdev = map_option fst (unifykey_unlocked_ioctl env ukdev ioc item n m)"
| "uk_call_result env (UkNameStore buf count) ukdev = map_option fst (name_store env ukdev buf count)"
| "uk_call_result env (UkWriteStore buf count) ukdev = map_option fst (write_store env ukdev buf count)"
| "uk_call_result env UkReadShow ukdev = map_option fst (read_show env ukdev)"
| "uk_call_result env UkExistShow ukdev = map_option fst (exist_show env ukdev)"
| "uk_call_result env UkSecureShow ukdev = map_option fst (secure_show env ukdev)"
| "uk_call_result env UkEncryptShow ukdev = map_option fst (encrypt_show env ukdev)"
| "uk_call_result env UkSizeShow ukdev = map_option fst (size_show env ukdev)"
| "uk_call_result env (UkAttachStore count) ukdev = map_option fst (attach_store env ukdev count)"
| "uk_call_result env (UkLockStore buf count) ukdev = map_option fst (lock_store ukdev buf count)"

text \<open>Writes of 1 GiB and more, which exceed what \<open>kzalloc\<close> can give, are left out.\<close>

fun small_call :: "uk_call \<Rightarrow> bool" where
  "small_call (UkWrite user count ppos) \<longleftrightarrow> count < 2 ^ 30"
| "small_call (UkWriteStore buf count) \<longleftrightarrow> count < 2 ^ 30"
| "small_call _ \<longleftrightarrow> True"

inductive uk_reach :: "('f, 'e) unify_env \<Rightarrow> ('f, 'd, 'e) aml_uk_dev \<Rightarrow> ('f, 'd, 'e) aml_uk_dev \<Rightarrow> bool" for env where
  start: "uk_reach env s s"
| call: "uk_reach env s s' \<Longrightarrow> small_call c \<Longrightarrow> uk_call_result env c s' = Some s'' \<Longrightarrow> uk_reach env s s''"

text \<open>Calls that leave the key storage, the table, the flag of the attachment and the current key alone.\<close>

definition same_keys :: "('f, 'd, 'e) aml_uk_dev \<Rightarrow> ('f, 'd, 'e) aml_uk_dev \<Rightarrow> bool" where
  "same_keys s s' \<longleftrightarrow>
     uk_hdr s' = uk_hdr s \<and> store_of s' = store_of s \<and> init_flag s' = init_flag s \<and> curkey s' = curkey s"

lemma same_keys_refl [simp]: "same_keys s s" and same_keys_trans: "same_keys a b \<Longrightarrow> same_keys b c \<Longrightarrow> same_keys a c"
  by (simp_all add: same_keys_def)

lemma same_keys_efuse [simp]: "same_keys s (s\<lparr>efuse_of := e\<rparr>)"
  by (simp add: same_keys_def)

lemma same_keys_zalloc: "uk_zalloc env n s = (s', z) \<Longrightarrow> same_keys s s'" "uk_kmalloc env n s = (s', z) \<Longrightarrow> same_keys s s'"
  by (auto simp: uk_zalloc_def uk_kmalloc_def)

text \<open>With normal keys the queries do not change the storage.\<close>

definition normal_if :: "('f, 'd, 'e) aml_uk_dev \<Rightarrow> bool" where
  "normal_if s \<longleftrightarrow> amlkey_if (store_of s) = Some IFTYPE_NORMAL_STORAGE"

lemma normal_if_same: "same_keys s s' \<Longrightarrow> normal_if s' = normal_if s"
  by (simp add: normal_if_def same_keys_def)

lemma normal_queries:
  assumes "amlkey_if s = Some IFTYPE_NORMAL_STORAGE"
  shows "amlkey_get_attr env s nm = Some (s1, v) \<Longrightarrow> s1 = s"
    and "amlkey_size env s nm = Some (s1, v) \<Longrightarrow> s1 = s"
    and "amlkey_exsit env s nm = Some (s1, v) \<Longrightarrow> s1 = s"
    and "amlkey_read env s nm buf len = Some (s2, buf', v') \<Longrightarrow> s2 = s"
    and "amlkey_hash env s n buf = Some (s3, buf'', v'') \<Longrightarrow> s3 = s"
  using assms
  by (auto simp: amlkey_get_attr_def amlkey_size_def amlkey_exsit_def amlkey_read_def amlkey_hash_def)

lemma same_keys_store: "s1 = store_of s \<Longrightarrow> same_keys s (s\<lparr>store_of := s1\<rparr>)"
  by (simp add: same_keys_def)

lemma key_storage_read_same:
  assumes "normal_if s" and "key_storage_read env s name dat len flag = Some (s', r)"
  shows "same_keys s s'"
  using assms normal_queries [where s = "store_of s"]
  by (fastforce simp: key_storage_read_def normal_if_def Let_def same_keys_def split: bind_splits if_splits)

lemma key_efuse_same:
  "key_efuse_write env s name dat len = Some (s', r) \<Longrightarrow> same_keys s s'"
  "key_efuse_read env s name dat len = Some (s', q) \<Longrightarrow> same_keys s s'"
  "key_efuse_query env s name = Some (s', q') \<Longrightarrow> same_keys s s'"
  by (auto simp: key_efuse_write_def key_efuse_read_def key_efuse_query_def Let_def uk_zalloc_def same_keys_def
      split: bind_splits option.splits if_splits)

lemma bind_SomeE:
  assumes "Option.bind m f = Some y"
  obtains x where "m = Some x" and "f x = Some y"
  using assms by (cases m) auto

lemma key_unify_read_same:
  assumes n: "normal_if s" and r: "key_unify_read env s name dat len = Some (s', q)"
  shows "same_keys s s'"
proof -
  note nq = normal_queries(5) [OF n [unfolded normal_if_def]]
  consider "s' = s"
    | d z where "key_efuse_read env s name d len = Some (s', z)"
    | d k z where "key_storage_read env s name d len k = Some (s', z)"
    | d s1 d' z where "amlkey_hash (x_key env) (store_of s) name d = Some (s1, d', z)" "s' = s\<lparr>store_of := s1\<rparr>"
  proof (cases "\<exists>d key. dat = Some d \<and> uk_find_item_by_name (uk_hdr s) name = Some key \<and> it_perm key AND 1 = 1")
    case False
    then have "s' = s" using r by (auto simp: key_unify_read_def split: option.splits if_splits)
    then show thesis using that(1) by blast
  next
    case True
    then obtain d key where k: "dat = Some d" "uk_find_item_by_name (uk_hdr s) name = Some key" "it_perm key AND 1 = 1" by blast
    show thesis
    proof (cases "it_dev key")
      case KEY_UNKNOWN_DEV
      then show thesis using r k that(1) by (simp add: key_unify_read_def)
    next
      case KEY_EFUSE
      then show thesis using r k that(2) by (auto simp: key_unify_read_def)
    next
      case KEY_NORMAL
      then show thesis using r k that(3) by (auto simp: key_unify_read_def)
    next
      case KEY_SECURE
      then show thesis using r k that(4) by (auto simp: key_unify_read_def elim!: bind_SomeE)
    qed
  qed
  then show ?thesis
  proof cases
    case 2
    then show ?thesis by (rule key_efuse_same(2))
  next
    case 3
    then show ?thesis by (rule key_storage_read_same [OF n])
  next
    case 4
    then show ?thesis using nq by (simp add: same_keys_def)
  qed simp
qed

lemma key_unify_size_same:
  assumes "normal_if s" and "key_unify_size env s name = Some (s', q)"
  shows "same_keys s s'"
  using assms(2) normal_queries(2) [OF assms(1) [unfolded normal_if_def]]
  by (fastforce simp: key_unify_size_def same_keys_def split: if_splits bind_splits option.splits)

lemma key_unify_query_same:
  assumes "normal_if s" and "key_unify_query env s name p = Some (s', q)"
  shows "same_keys s s'"
  using assms(2) normal_queries(3) [OF assms(1) [unfolded normal_if_def]] key_efuse_same(3)
  by (fastforce simp: key_unify_query_def same_keys_def split: if_splits bind_splits option.splits)

lemma key_unify_secure_same:
  assumes n: "normal_if s" and "key_unify_secure env s name = Some (s', q)"
  shows "same_keys s s'"
proof (cases "uk_find_item_by_name (uk_hdr s) name")
  case None
  then show ?thesis using assms(2) by (simp add: key_unify_secure_def)
next
  case (Some key)
  then obtain s1 st p ret where q: "key_unify_query env s (it_name key) False = Some (s1, st, p, ret)"
    using assms(2) by (auto simp: key_unify_secure_def split: bind_splits)
  have 1: "same_keys s s1" using key_unify_query_same [OF n q] .
  then have "amlkey_if (store_of s1) = Some IFTYPE_NORMAL_STORAGE" using n normal_if_same [OF 1] by (simp add: normal_if_def)
  then have "same_keys s1 s'"
    using assms(2) Some q normal_queries(1) [of "store_of s1"]
    by (fastforce simp: key_unify_secure_def same_keys_def split: if_splits bind_splits)
  then show ?thesis using 1 same_keys_trans by blast
qed

lemma key_unify_encrypt_same:
  assumes n: "normal_if s" and "key_unify_encrypt env s name = Some (s', q)"
  shows "same_keys s s'"
proof (cases "uk_find_item_by_name (uk_hdr s) name")
  case None
  then show ?thesis using assms(2) by (simp add: key_unify_encrypt_def)
next
  case (Some key)
  then obtain s1 st p ret where q: "key_unify_query env s (it_name key) False = Some (s1, st, p, ret)"
    using assms(2) by (auto simp: key_unify_encrypt_def split: bind_splits)
  have 1: "same_keys s s1" using key_unify_query_same [OF n q] .
  then have "amlkey_if (store_of s1) = Some IFTYPE_NORMAL_STORAGE" using n normal_if_same [OF 1] by (simp add: normal_if_def)
  then have "same_keys s1 s'"
    using assms(2) Some q normal_queries(1) [of "store_of s1"]
    by (fastforce simp: key_unify_encrypt_def same_keys_def split: if_splits bind_splits)
  then show ?thesis using 1 same_keys_trans by blast
qed

lemmas unify_same = key_unify_read_same key_unify_size_same key_unify_query_same key_unify_secure_same key_unify_encrypt_same

section \<open>Protected keys\<close>

text \<open>The contents of the normal keys, and the names whose contents no call may change: those the table
  does not have, and those whose entry has no write permission or another storage.\<close>

definition normal_map :: "('f, 'd, 'e) aml_uk_dev \<Rightarrow> cstr \<Rightarrow> (u8 list \<times> u32) option" where
  "normal_map s = nk_map (keys (nk (store_of s)))"

definition write_protected :: "key_item_t list \<Rightarrow> cstr \<Rightarrow> bool" where
  "write_protected items nm \<longleftrightarrow>
     (case uk_find_item_by_name items nm of
        None \<Rightarrow> True
      | Some key \<Rightarrow> it_perm key AND KEY_PERM_WRITE \<noteq> KEY_PERM_WRITE \<or> it_dev key \<notin> {KEY_NORMAL, KEY_SECURE})"

text \<open>An attached device on a running store of normal keys.\<close>

definition unify_running ::
    "('d \<Rightarrow> u8 list \<Rightarrow> u32 \<Rightarrow> ('d \<times> u8 list \<times> u32 \<times> int) option) \<Rightarrow> ('d \<Rightarrow> u8 list \<Rightarrow> u32 \<Rightarrow> ('d \<times> int) option) \<Rightarrow>
     ('d \<Rightarrow> bool) \<Rightarrow> nat \<Rightarrow> (u8 list \<Rightarrow> u8 list) \<Rightarrow> ('f, 'd, 'e) aml_uk_dev \<Rightarrow> bool" where
  "unify_running rd wr dinv N H s \<longleftrightarrow>
     init_flag s = 1 \<and> normal_if s \<and> normal_running rd wr dinv N H (store_of s)"

lemma unify_running_same: "same_keys s s' \<Longrightarrow> unify_running rd wr dinv N H s' = unify_running rd wr dinv N H s"
  by (simp add: unify_running_def same_keys_def normal_if_def)

lemma normal_map_same: "same_keys s s' \<Longrightarrow> normal_map s' = normal_map s"
  by (simp add: normal_map_def same_keys_def)

text \<open>What a step may do: table and attachment stay, protected keys keep their content.\<close>

definition keeps_protected :: "('f, 'd, 'e) aml_uk_dev \<Rightarrow> ('f, 'd, 'e) aml_uk_dev \<Rightarrow> bool" where
  "keeps_protected s s' \<longleftrightarrow>
     uk_hdr s' = uk_hdr s \<and> (\<forall>nm. write_protected (uk_hdr s) nm \<longrightarrow> normal_map s' nm = normal_map s nm)"

lemma keeps_protected_trans: "keeps_protected a b \<Longrightarrow> keeps_protected b c \<Longrightarrow> keeps_protected a c"
  by (simp add: keeps_protected_def)

lemma keeps_protected_same: "same_keys s s' \<Longrightarrow> keeps_protected s s'"
  by (simp add: keeps_protected_def normal_map_def same_keys_def)

context key_block_store
begin

lemma key_unify_write_step:
  assumes run: "unify_running rd wr dinv N H s" and ke: "kernel_ok H (x_key env)"
    and l: "unat len \<le> length dat" "unat len < 2 ^ 30" and w: "key_unify_write env s name dat len = Some (s', r)"
  shows "unify_running rd wr dinv N H s' \<and> keeps_protected s s'"
proof (cases "write_protected (uk_hdr s) name")
  case True
  then have "same_keys s s'"
    using w key_efuse_same(1) [of env s name dat len s']
    by (auto simp: key_unify_write_def write_protected_def split: option.splits if_splits)
  then show ?thesis using run unify_running_same keeps_protected_same by blast
next
  case False
  then obtain key where key: "uk_find_item_by_name (uk_hdr s) name = Some key" "it_perm key AND 2 = 2"
      "it_dev key = KEY_NORMAL \<or> it_dev key = KEY_SECURE" "it_dev key \<noteq> KEY_EFUSE"
    by (auto simp: write_protected_def split: option.splits)
  then obtain s1 n where s1: "amlkey_write (x_key env) (store_of s) (Some name) dat len (key_write_attr key) = Some (s1, n)"
      "s' = s\<lparr>store_of := s1\<rparr>"
    using w by (auto simp: key_unify_write_def elim!: bind_SomeE)
  have r: "normal_running rd wr dinv N H (store_of s)" and i: "amlkey_if (store_of s) = Some IFTYPE_NORMAL_STORAGE"
    using run by (simp_all add: unify_running_def normal_if_def)
  have wn: "amlkey_write_normal (x_key env) (store_of s) (Some name) (Some dat) len (key_write_attr key) = Some (s1, n)"
    using s1(1) i by (simp add: amlkey_write_def)
  have "normal_running rd wr dinv N H s1 \<and> amlkey_if s1 = amlkey_if (store_of s)"
    using write_normal_image [OF r ke l, of name "key_write_attr key"] wn by auto
  moreover have "nk_map (keys (nk s1)) nm = nk_map (keys (nk (store_of s))) nm" if "write_protected (uk_hdr s) nm" for nm
    using write_normal_others [OF r ke l wn, of nm] that False by blast
  ultimately show ?thesis
    using run s1(2) i by (simp add: unify_running_def normal_if_def keeps_protected_def normal_map_def)
qed

lemma key_unify_init_same: "unify_running rd wr dinv N H s \<Longrightarrow> key_unify_init env s = Some (s, 0)"
  by (simp add: key_unify_init_def unify_running_def)

end

lemma normal_if_running: "unify_running rd wr dinv N H s \<Longrightarrow> normal_if s"
  by (simp add: unify_running_def)

lemma unifykey_read_same:
  assumes n: "normal_if s" and r: "unifykey_read env s count ppos ok = Some (s', q)"
  shows "same_keys s s'"
proof (cases "uk_find_item_by_id (uk_hdr s) (sint (of_int ppos :: u32))")
  case None
  then show ?thesis using r by (simp add: unifykey_read_def)
next
  case (Some item)
  define c where "c = (if it_dev item = KEY_SECURE then 32 else count)"
  obtain s1 z where z: "uk_zalloc env c s = (s1, z)" by fastforce
  have 1: "same_keys s s1" using same_keys_zalloc(1) [OF z] .
  then have n1: "normal_if s1" using n normal_if_same by blast
  show ?thesis
  proof (cases z)
    case None
    then show ?thesis using r Some z 1 by (simp add: unifykey_read_def c_def [symmetric] Let_def)
  next
    case (Some buf)
    then obtain x where x: "key_unify_read env s1 (it_name item) (Some buf) (of_nat c) = Some x"
      and f: "(case x of (ukdev, dat, reallen, ret) \<Rightarrow>
         if ret < 0 then Some (ukdev, None, ret)
         else do { reallen \<leftarrow> reallen; local_buf \<leftarrow> dat;
           let count = (if c > unat reallen then unat reallen else c);
           bs \<leftarrow> get_bytes local_buf 0 count;
           if \<not> ok then Some (ukdev, None, - EFAULT) else Some (ukdev, Some bs, int count) }) = Some (s', q)"
      using r \<open>uk_find_item_by_id (uk_hdr s) _ = Some item\<close> z
      by (auto simp: unifykey_read_def c_def [symmetric] Let_def elim!: bind_SomeE)
    have "fst x = s'" using f by (cases x) (auto simp: Let_def split: if_splits elim!: bind_SomeE)
    then have "same_keys s1 s'" using key_unify_read_same [OF n1, of env _ _ _ s' "snd x"] x by (cases x) auto
    then show ?thesis using 1 same_keys_trans by blast
  qed
qed

lemma ioctl_get_info_same:
  assumes n: "normal_if s" and r: "ioctl_get_info env s item nc ncb = Some (s', q)"
  shows "same_keys s s'"
proof -
  obtain s1 z where z: "uk_kmalloc env 68 s = (s1, z)" by fastforce
  have 1: "same_keys s s1" using same_keys_zalloc(2) [OF z] .
  then have n1: "normal_if s1" using n normal_if_same by blast
  have "same_keys s1 s'"
  proof (cases "s' = s1")
    case False
    have "\<exists>(key :: key_item_t) a b. key_unify_query env s1 (it_name key) True = Some (a, b) \<and>
        (s' = a \<or> (\<exists>y. key_unify_size env a (it_name key) = Some (s', y)))"
      using r z False
      by (auto simp: ioctl_get_info_def Let_def split: option.splits if_splits elim!: bind_SomeE) blast+
    then obtain key :: key_item_t and a b where x: "key_unify_query env s1 (it_name key) True = Some (a, b)"
      and f: "s' = a \<or> (\<exists>y. key_unify_size env a (it_name key) = Some (s', y))" by blast
    have 2: "same_keys s1 a" using key_unify_query_same [OF n1 x] .
    then have "normal_if a" using n1 normal_if_same by blast
    then have "same_keys a s'" using f key_unify_size_same by auto
    then show ?thesis using 2 same_keys_trans by blast
  qed simp
  then show ?thesis using 1 same_keys_trans by blast
qed

lemma exist_show_same: "normal_if s \<Longrightarrow> exist_show env s = Some (s', q) \<Longrightarrow> same_keys s s'"
  by (auto simp: exist_show_def Let_def split: option.splits if_splits elim!: bind_SomeE dest: key_unify_query_same)

lemma secure_show_same: "normal_if s \<Longrightarrow> secure_show env s = Some (s', q) \<Longrightarrow> same_keys s s'"
  by (auto simp: secure_show_def Let_def split: option.splits if_splits elim!: bind_SomeE dest: key_unify_secure_same)

lemma encrypt_show_same: "normal_if s \<Longrightarrow> encrypt_show env s = Some (s', q) \<Longrightarrow> same_keys s s'"
  by (auto simp: encrypt_show_def Let_def split: option.splits if_splits elim!: bind_SomeE dest: key_unify_encrypt_same)

lemma size_show_same: "normal_if s \<Longrightarrow> size_show env s = Some (s', q) \<Longrightarrow> same_keys s s'"
  by (auto simp: size_show_def Let_def split: option.splits if_splits elim!: bind_SomeE dest: key_unify_size_same)

lemma read_show_same:
  assumes n: "normal_if s" and r: "read_show env s = Some (s', q)"
  shows "same_keys s s'"
proof (cases "curkey s")
  case None
  then show ?thesis using r by (simp add: read_show_def)
next
  case (Some key)
  then obtain s1 ks ret where s1: "key_unify_size env s (it_name key) = Some (s1, ks, ret)"
    using r by (auto simp: read_show_def elim!: bind_SomeE)
  have 1: "same_keys s s1" using key_unify_size_same [OF n s1] .
  have "\<exists>len s2 buf. same_keys s1 s2 \<and> (s' = s1 \<or> s' = s2 \<or> (\<exists>y. key_unify_read env s2 (it_name key) buf len = Some (s', y)))"
    using r Some s1
    by (auto simp: read_show_def Let_def uk_zalloc_def split: option.splits if_splits elim!: bind_SomeE)
       (blast intro: same_keys_refl same_keys_efuse)+
  then obtain len s2 buf where 2: "same_keys s1 s2"
    and f: "s' = s1 \<or> s' = s2 \<or> (\<exists>y. key_unify_read env s2 (it_name key) buf len = Some (s', y))" by blast
  have "normal_if s2" using n normal_if_same [OF same_keys_trans [OF 1 2]] by simp
  then have "s' = s1 \<or> same_keys s2 s'" using f key_unify_read_same [of s2] same_keys_refl by blast
  then show ?thesis using 1 2 same_keys_trans by blast
qed

context key_block_store
begin

lemma zalloc_write_step:
  assumes run: "unify_running rd wr dinv N H s" and ke: "kernel_ok H (x_key env)"
    and z: "uk_zalloc env n s = (s1, z)" and l: "k \<le> length dat" "k < 2 ^ 30"
    and w: "key_unify_write env s1 name dat (of_nat k) = Some (s', r)"
  shows "unify_running rd wr dinv N H s' \<and> keeps_protected s s'"
proof -
  have 1: "same_keys s s1" using same_keys_zalloc(1) [OF z] .
  have u: "unat (of_nat k :: u32) = k" using l(2) by (intro unat_of_nat32) simp
  have "unify_running rd wr dinv N H s1" using run unify_running_same [OF 1] by simp
  from key_unify_write_step [OF this ke _ _ w] l u keeps_protected_trans [OF keeps_protected_same [OF 1]]
  show ?thesis by simp
qed

lemma unifykey_write_step:
  assumes run: "unify_running rd wr dinv N H s" and ke: "kernel_ok H (x_key env)" and c: "count < 2 ^ 30"
    and w: "unifykey_write env s user count ppos = Some (s', r)"
  shows "unify_running rd wr dinv N H s' \<and> keeps_protected s s'"
proof -
  obtain s1 z where z: "uk_zalloc env count s = (s1, z)" by fastforce
  have 1: "same_keys s s1" using same_keys_zalloc(1) [OF z] .
  have "s' = s1 \<or> (\<exists>(item :: key_item_t) dat x. count \<le> length dat \<and> key_unify_write env s1 (it_name item) dat (of_nat count) = Some (s', x))"
    using w z
    by (auto simp: unifykey_write_def put_bytes_def get_bytes_def split: option.splits if_splits elim!: bind_SomeE)
  then show ?thesis
    using zalloc_write_step [OF run ke z _ c] unify_running_same [OF 1] run keeps_protected_same [OF 1] by blast
qed

lemma write_store_step:
  assumes run: "unify_running rd wr dinv N H s" and ke: "kernel_ok H (x_key env)" and c: "count < 2 ^ 30"
    and w: "write_store env s buf count = Some (s', r)"
  shows "unify_running rd wr dinv N H s' \<and> keeps_protected s s'"
proof -
  obtain s1 z where z: "uk_zalloc env count s = (s1, z)" by fastforce
  have 1: "same_keys s s1" using same_keys_zalloc(1) [OF z] .
  have k: "write_len buf count \<le> count" by (simp add: write_len_def)
  have "s' = s \<or> s' = s1 \<or>
      (\<exists>(item :: key_item_t) dat x. write_len buf count \<le> length dat \<and>
         key_unify_write env s1 (it_name item) dat (of_nat (write_len buf count)) = Some (s', x))"
    using w z k
    by (auto simp: write_store_def put_bytes_def get_bytes_def Let_def split: option.splits if_splits elim!: bind_SomeE)
  then show ?thesis
    using zalloc_write_step [OF run ke z, of "write_len buf count"] k c unify_running_same [OF 1] run
      keeps_protected_same [OF 1] keeps_protected_same [of s s] by auto
qed

text \<open>Every call of a user.\<close>

lemma uk_call_step:
  assumes run: "unify_running rd wr dinv N H s" and ke: "kernel_ok H (x_key env)" and c: "small_call c"
    and r: "uk_call_result env c s = Some s'"
  shows "unify_running rd wr dinv N H s' \<and> keeps_protected s s'"
proof -
  note n = normal_if_running [OF run]
  have sm: ?thesis if "same_keys s s'" using that run unify_running_same keeps_protected_same by blast
  show ?thesis
  proof (cases c)
    case (UkWrite user count ppos)
    then show ?thesis using r c unifykey_write_step [OF run ke] by auto
  next
    case (UkRead count ppos ok)
    then show ?thesis using r unifykey_read_same [OF n] sm by auto
  next
    case (UkIoctl ioc item nc ncb)
    then show ?thesis
      using r ioctl_get_info_same [OF n] sm key_unify_init_same same_keys_zalloc(2) run
      by (auto simp: unifykey_unlocked_ioctl_def ioctl_attach_def uk_kmalloc_def key_unify_init_def unify_running_def
          split: option.splits if_splits)
  next
    case (UkNameStore buf count)
    then have "uk_hdr s' = uk_hdr s \<and> store_of s' = store_of s \<and> init_flag s' = init_flag s"
      using r by (auto simp: name_store_def Let_def uk_zalloc_def split: option.splits if_splits elim!: bind_SomeE)
    then show ?thesis using run by (simp add: unify_running_def normal_if_def keeps_protected_def normal_map_def)
  next
    case (UkWriteStore buf count)
    then show ?thesis using r c write_store_step [OF run ke] by auto
  next
    case UkReadShow
    then show ?thesis using r read_show_same [OF n] sm by auto
  next
    case UkExistShow
    then show ?thesis using r exist_show_same [OF n] sm by auto
  next
    case UkSecureShow
    then show ?thesis using r secure_show_same [OF n] sm by auto
  next
    case UkEncryptShow
    then show ?thesis using r encrypt_show_same [OF n] sm by auto
  next
    case UkSizeShow
    then show ?thesis using r size_show_same [OF n] sm by auto
  next
    case (UkAttachStore count)
    then show ?thesis using r key_unify_init_same [OF run, of env] sm by (auto simp: attach_store_def)
  next
    case (UkLockStore buf count)
    then have "uk_hdr s' = uk_hdr s \<and> store_of s' = store_of s \<and> init_flag s' = init_flag s"
      using r by (auto simp: lock_store_def Let_def split: if_splits elim!: bind_SomeE)
    then show ?thesis using run by (simp add: unify_running_def normal_if_def keeps_protected_def normal_map_def)
  qed
qed

end

end
