(* ===== verification/Unifykey_Store.thy ===== *)
theory Unifykey_Store
  imports Unifykey
begin

unbundle bit_operations_syntax

text \<open>
  What the unified key device promises of its keys: a key is written and read back through the device,
  whichever storage it is configured for; keys without write permission keep their content whatever
  calls are made; the table of the device tree is well-formed; and two failures, of encrypted keys and
  of queries on efuse keys.  Both storages are instances of the contract \<open>named_store\<close>.
\<close>

section \<open>Normal keys as a store of named keys\<close>

definition normal_takes ::
    "'g emmc_env \<Rightarrow> ('g ek_state \<Rightarrow> bool) \<Rightarrow> (u8 list \<Rightarrow> u8 list) \<Rightarrow> 'f uk_env \<Rightarrow> ('f, 'g ek_state) uk_store \<Rightarrow>
     cstr \<Rightarrow> u8 list \<Rightarrow> u8 list \<Rightarrow> bool" where
  "normal_takes e dinv H env s nm dat bs \<longleftrightarrow>
     dat = bs \<and> normal_running (emmc_key_read e) (emmc_key_write e) dinv 262144 H s \<and> kernel_ok H env \<and>
     amlkey_if s = Some IFTYPE_NORMAL_STORAGE \<and>
     key_acceptable (nk_map (keys (nk s))) nm bs (of_nat (length bs)) 0 \<and> length bs < 2 ^ 30 \<and>
     1024 + store_space ((nk_map (keys (nk s)))(nm \<mapsto> (bs, 0))) \<le> 262144"

definition normal_holds ::
    "'g emmc_env \<Rightarrow> ('g ek_state \<Rightarrow> bool) \<Rightarrow> (u8 list \<Rightarrow> u8 list) \<Rightarrow> ('f, 'g ek_state) uk_store \<Rightarrow> cstr \<Rightarrow> u8 list \<Rightarrow> bool" where
  "normal_holds e dinv H s nm bs \<longleftrightarrow>
     normal_running (emmc_key_read e) (emmc_key_write e) dinv 262144 H s \<and>
     amlkey_if s = Some IFTYPE_NORMAL_STORAGE \<and> nk_map (keys (nk s)) nm = Some (bs, 0) \<and> length bs < 2 ^ 30"

definition normal_store ::
    "'f uk_env \<Rightarrow> ('f, 'd) uk_store \<Rightarrow> cstr \<Rightarrow> u8 list \<Rightarrow> (('f, 'd) uk_store \<times> int) option" where
  "normal_store env s nm dat = amlkey_write env s (Some nm) dat (of_nat (length dat)) 0"

text \<open>A key is fetched the way \<open>read_show\<close> does it: its size first, then its content.\<close>

definition normal_fetch ::
    "'f uk_env \<Rightarrow> ('f, 'd) uk_store \<Rightarrow> cstr \<Rightarrow> u8 list \<Rightarrow> (('f, 'd) uk_store \<times> u8 list \<times> int) option" where
  "normal_fetch env s nm buf =
     do {
       (s, n) \<leftarrow> amlkey_size env s (Some nm);
       (s, buf, r) \<leftarrow> amlkey_read env s (Some nm) buf n;
       Some (s, buf, int (unat r))
     }"

lemma normal_store_holds:
  assumes t: "normal_takes e (ek_live e part user c k cap off) H env s nm dat bs"
  shows "\<exists>s'. normal_store env s nm dat = Some (s', int (length dat)) \<and>
     normal_holds e (ek_live e part user c k cap off) H s' nm bs"
proof -
  have run: "normal_running (emmc_key_read e) (emmc_key_write e) (ek_live e part user c k cap off) 262144 H s"
    and ke: "kernel_ok H env" and i: "amlkey_if s = Some IFTYPE_NORMAL_STORAGE" and d: "dat = bs" and l: "length bs < 2 ^ 30"
    and acc: "key_acceptable (nk_map (keys (nk s))) nm bs (of_nat (length bs)) 0"
    and fit: "1024 + store_space ((nk_map (keys (nk s)))(nm \<mapsto> (bs, 0))) \<le> 262144"
    using t by (auto simp: normal_takes_def)
  have u: "unat (of_nat (length bs) :: u32) = length bs" using l by (intro unat_of_nat32) simp
  obtain s' where s': "amlkey_write_normal env s (Some nm) (Some bs) (of_nat (length bs)) 0 = Some (s', int (length bs))"
      "normal_running (emmc_key_read e) (emmc_key_write e) (ek_live e part user c k cap off) 262144 H s'"
      "nk_map (keys (nk s')) = (nk_map (keys (nk s)))(nm \<mapsto> (bs, 0))"
    using emmc_keys.write_normal_iff_fits [OF run ke acc refl] fit u by auto
  have "amlkey_if s' = amlkey_if s"
    using emmc_keys.write_normal_image [OF run ke, of "of_nat (length bs)" bs nm 0] s'(1) u l by auto
  then show ?thesis using s' i d l by (auto simp: normal_store_def amlkey_write_def normal_holds_def)
qed

lemma normal_fetch_holds:
  assumes h: "normal_holds e dinv H s nm bs" and l: "length bs \<le> length buf"
  shows "\<exists>s' buf'. normal_fetch env s nm buf = Some (s', buf', int (length bs)) \<and> length buf' = length buf \<and>
     take (length bs) buf' = bs \<and> normal_holds e dinv H s' nm bs"
proof -
  have inv: "nk_inv H (nk s)" and m: "nk_map (keys (nk s)) nm = Some (bs, 0)" and i: "amlkey_if s = Some IFTYPE_NORMAL_STORAGE"
    and b: "length bs < 2 ^ 30"
    using h by (auto simp: normal_holds_def normal_running_def)
  have u: "unat (of_nat (length bs) :: u32) = length bs" using b by (intro unat_of_nat32) simp
  have le: "length bs \<le> unat (of_nat (length bs) :: u32)" unfolding u ..
  note R = amlkey_read_normal_spec [OF inv m le l]
  have "normal_fetch env s nm buf = Some (s, bs @ drop (length bs) buf, int (unat (of_nat (length bs) :: u32)))"
    using i R(1,2) by (simp add: normal_fetch_def amlkey_read_def amlkey_size_def)
  then have "normal_fetch env s nm buf = Some (s, bs @ drop (length bs) buf, int (length bs))" unfolding u .
  then show ?thesis using h l by (intro exI [of _ s] exI [of _ "bs @ drop (length bs) buf"]) simp
qed

interpretation normal_keys: named_store "normal_store env" "normal_fetch env"
  "normal_takes e (ek_live e part user c k cap off) H env" "normal_holds e (ek_live e part user c k cap off) H"
  for env :: "'f uk_env" and e :: "'g emmc_env" and part user c k cap off H
  by unfold_locales (fact normal_store_holds, fact normal_fetch_holds)

section \<open>Writing and reading through the device\<close>

text \<open>An entry that the device finds under its number and its name, with both permissions.\<close>

definition key_entry :: "key_item_t list \<Rightarrow> int \<Rightarrow> key_item_t \<Rightarrow> bool" where
  "key_entry items i key \<longleftrightarrow>
     0 \<le> i \<and> i < 2 ^ 31 \<and> uk_find_item_by_id items i = Some key \<and>
     uk_find_item_by_name items (it_name key) = Some key \<and> it_perm key = KEY_PERM_READ OR KEY_PERM_WRITE"

lemma key_entry_pos:
  assumes "key_entry items i key"
  shows "uk_find_item_by_id items (sint (of_int i :: u32)) = Some key"
proof -
  obtain n where n: "i = int n" "n < 2 ^ 31" using assms by (auto simp: key_entry_def nat_less_iff intro!: that [of "nat i"])
  have u: "unat (of_nat n :: u32) = n" using n(2) by (intro unat_of_nat32) simp
  have "sint (of_nat n :: u32) = int n" using sint_small [of "of_nat n"] n(2) unfolding u by blast
  then show ?thesis using assms n by (simp add: key_entry_def)
qed

text \<open>The storage that the key is configured for takes \<open>dat\<close> for the content \<open>bs\<close>.\<close>

definition key_takes ::
    "('f, 'e) unify_env \<Rightarrow> 'g emmc_env \<Rightarrow> ('g ek_state \<Rightarrow> bool) \<Rightarrow> (u8 list \<Rightarrow> u8 list) \<Rightarrow> (nat \<Rightarrow> nat) \<Rightarrow>
     ('e \<Rightarrow> u8 list) \<Rightarrow> nat \<Rightarrow>
     ('f, 'g ek_state, 'e) aml_uk_dev \<Rightarrow> key_item_t \<Rightarrow> u8 list \<Rightarrow> u8 list \<Rightarrow> bool" where
  "key_takes env e dinv H cls area ecap ukdev key dat bs \<longleftrightarrow>
     length dat < 2 ^ 30 \<and> it_attr key = 0 \<and>
     (if it_dev key = KEY_NORMAL then normal_takes e dinv H (x_key env) (store_of ukdev) (it_name key) dat bs
      else it_dev key = KEY_EFUSE \<and> efuse_takes (x_ef env) cls area ecap (efuse_of ukdev) (it_name key) dat bs)"

lemma efuse_ticks [simp]:
  "efuse_running env cls area cap (st\<lparr>ef_ticks := k\<rparr>) = efuse_running env cls area cap st"
  "efuse_takes env cls area cap (st\<lparr>ef_ticks := k\<rparr>) nm dat bs = efuse_takes env cls area cap st nm dat bs"
  "efuse_holds env cls area cap (st\<lparr>ef_ticks := k\<rparr>) nm bs = efuse_holds env cls area cap st nm bs"
  "efuse_getinfo (st\<lparr>ef_ticks := k\<rparr>) nm = efuse_getinfo st nm"
  using key_within_same [OF same_tables_ticks [of st k]] efuse_getinfo_same [OF same_tables_ticks [of st k]]
  by (simp_all add: efuse_running_def efuse_takes_def efuse_holds_def)

lemma zalloc_buffer:
  assumes "kzalloc_ok (ev_kz (x_ef env)) cls"
  obtains z where "uk_zalloc env n ukdev = (ukdev\<lparr>efuse_of := (efuse_of ukdev)\<lparr>ef_ticks := Suc (ef_ticks (efuse_of ukdev))\<rparr>\<rparr>, Some z)"
    and "n \<le> length z"
  using kz_buffer [OF assms, of "ef_ticks (efuse_of ukdev)" n] by (auto simp: uk_zalloc_def)

lemma key_unify_write_normal:
  assumes k: "uk_find_item_by_name (uk_hdr s) (it_name key) = Some key" "it_perm key AND 2 = 2" "it_dev key = KEY_NORMAL" "it_attr key = 0"
    and l: "length bs < 2 ^ 30" "take (length bs) dat = bs"
    and t: "normal_takes e (ek_live e part user c kk cap off) H (x_key env) (store_of s) (it_name key) bs bs"
  shows "\<exists>s1. key_unify_write env s (it_name key) dat (of_nat (length bs)) = Some (s\<lparr>store_of := s1\<rparr>, 0) \<and>
    normal_holds e (ek_live e part user c kk cap off) H s1 (it_name key) bs"
proof -
  have u: "unat (of_nat (length bs) :: u32) = length bs" using l(1) by (intro unat_of_nat32) simp
  have run: "normal_running (emmc_key_read e) (emmc_key_write e) (ek_live e part user c kk cap off) 262144 H (store_of s)"
    and ke: "kernel_ok H (x_key env)" and i: "amlkey_if (store_of s) = Some IFTYPE_NORMAL_STORAGE"
    and acc: "key_acceptable (nk_map (keys (nk (store_of s)))) (it_name key) bs (of_nat (length bs)) 0"
    and fit: "1024 + store_space ((nk_map (keys (nk (store_of s))))(it_name key \<mapsto> (bs, 0))) \<le> 262144"
    using t by (auto simp: normal_takes_def)
  have ld: "length bs \<le> length dat" using arg_cong [OF l(2), of length] by simp
  have acc': "key_acceptable (nk_map (keys (nk (store_of s)))) (it_name key) dat (of_nat (length bs)) 0"
    using acc ld u by (simp add: key_acceptable_def)
  obtain s1 where s1: "amlkey_write_normal (x_key env) (store_of s) (Some (it_name key)) (Some dat) (of_nat (length bs)) 0 = Some (s1, int (length bs))"
      "normal_running (emmc_key_read e) (emmc_key_write e) (ek_live e part user c kk cap off) 262144 H s1"
      "nk_map (keys (nk s1)) = (nk_map (keys (nk (store_of s))))(it_name key \<mapsto> (bs, 0))"
    using emmc_keys.write_normal_iff_fits [OF run ke acc' refl] fit unfolding u l(2) by auto
  have "amlkey_if s1 = amlkey_if (store_of s)"
    using emmc_keys.write_normal_image [OF run ke, of "of_nat (length bs)" dat "it_name key" 0] s1(1) l(1) ld unfolding u by auto
  moreover have "int (unat (of_nat (length bs) :: u32)) = int (length bs)" unfolding u ..
  ultimately show ?thesis
    using s1 i l(1) k by (auto simp: key_unify_write_def key_write_attr_def amlkey_write_def normal_holds_def simp del: of_nat_unat)
qed

lemma key_unify_read_normal:
  assumes k: "uk_find_item_by_name (uk_hdr s) (it_name key) = Some key" "it_perm key AND 1 = 1" "it_dev key = KEY_NORMAL" "it_attr key = 0"
    and h: "normal_holds e dinv H (store_of s) (it_name key) bs" and l: "length bs \<le> length buf"
  shows "key_unify_read env s (it_name key) (Some buf) (of_nat (length bs)) =
    Some (s, Some (bs @ drop (length bs) buf), Some (of_nat (length bs)), 0)"
proof -
  have inv: "nk_inv H (nk (store_of s))" and m: "nk_map (keys (nk (store_of s))) (it_name key) = Some (bs, 0)"
    and i: "amlkey_if (store_of s) = Some IFTYPE_NORMAL_STORAGE" and b: "length bs < 2 ^ 30"
    using h by (auto simp: normal_holds_def normal_running_def)
  have u: "unat (of_nat (length bs) :: u32) = length bs" using b by (intro unat_of_nat32) simp
  have le: "length bs \<le> unat (of_nat (length bs) :: u32)" unfolding u ..
  note R = amlkey_read_normal_spec [OF inv m le l]
  show ?thesis
    using k i R(1,3) by (simp add: key_unify_read_def key_storage_read_def amlkey_read_def amlkey_get_attr_def)
qed

lemma efuse_user_attr_store_take:
  assumes "count \<le> length buf"
  shows "efuse_user_attr_store env name buf count st = efuse_user_attr_store env name (take count buf) count st"
proof -
  have "get_bytes (take count buf) 0 count = get_bytes buf 0 count" using assms by simp
  then show ?thesis by (simp only: efuse_user_attr_store_def)
qed

lemma key_unify_write_efuse:
  assumes k: "uk_find_item_by_name (uk_hdr s) (it_name key) = Some key" "it_perm key AND 2 = 2" "it_dev key = KEY_EFUSE"
    and l: "length dat < 2 ^ 30" and t: "efuse_takes (x_ef env) cls area ecap (efuse_of s) (it_name key) dat bs"
    and p: "take (length dat) buf = dat"
  shows "\<exists>e1. key_unify_write env s (it_name key) buf (of_nat (length dat)) = Some (s\<lparr>efuse_of := e1\<rparr>, 0) \<and>
    efuse_holds (x_ef env) cls area ecap e1 (it_name key) bs"
proof -
  have u: "unat (of_nat (length dat) :: u32) = length dat" using l by (intro unat_of_nat32) simp
  obtain info where info: "efuse_getinfo (efuse_of s) (it_name key) = Some (Some info)"
    using t by (auto simp: efuse_takes_def key_within_def)
  obtain e1 where "efuse_user_attr_store (x_ef env) (it_name key) dat (length dat) (efuse_of s) = Some (e1, int (length dat))"
      "efuse_holds (x_ef env) cls area ecap e1 (it_name key) bs"
    using efuse_keys.store_holds [OF t] by blast
  moreover have "length dat \<le> length buf" using arg_cong [OF p, of length] by simp
  ultimately show ?thesis
    using k info efuse_user_attr_store_take [of "length dat" buf "x_ef env" "it_name key" "efuse_of s"] p
    by (auto simp: key_unify_write_def key_efuse_write_def u)
qed

lemma key_unify_read_efuse:
  assumes k: "uk_find_item_by_name (uk_hdr s) (it_name key) = Some key" "it_perm key AND 1 = 1" "it_dev key = KEY_EFUSE"
    and h: "efuse_holds (x_ef env) cls area ecap (efuse_of s) (it_name key) bs" and l: "length bs \<le> length buf" "length bs < 2 ^ 30"
  shows "\<exists>e1 buf'. key_unify_read env s (it_name key) (Some buf) (of_nat (length bs)) =
    Some (s\<lparr>efuse_of := e1\<rparr>, Some buf', Some (of_nat (length bs)), int (length bs)) \<and>
    take (length bs) buf' = bs \<and> length buf' = length buf \<and> efuse_holds (x_ef env) cls area ecap e1 (it_name key) bs"
proof -
  obtain info where info: "efuse_getinfo (efuse_of s) (it_name key) = Some (Some info)" "unat (ei_size info) = length bs"
    and kz: "kzalloc_ok (ev_kz (x_ef env)) cls"
    using h by (auto simp: efuse_holds_def key_within_def efuse_running_def)
  let ?e = "(efuse_of s)\<lparr>ef_ticks := Suc (ef_ticks (efuse_of s))\<rparr>"
  obtain z where z: "uk_zalloc env (length bs) s = (s\<lparr>efuse_of := ?e\<rparr>, Some z)" "length bs \<le> length z"
    using zalloc_buffer [OF kz] .
  have "efuse_holds (x_ef env) cls area ecap ?e (it_name key) bs" using h by simp
  from efuse_keys.fetch_holds [OF this z(2)] obtain e1 b where b:
    "efuse_user_attr_read (x_ef env) (it_name key) z ?e = Some (e1, b, int (length bs))" "length b = length z"
    "take (length bs) b = bs" "efuse_holds (x_ef env) cls area ecap e1 (it_name key) bs" by blast
  obtain buf' where p: "put_bytes buf 0 bs = Some buf'" using put_bytes_Some_iff [of buf 0 bs] l by auto
  have p': "length buf' = length buf" "take (length bs) buf' = bs"
    using length_put_bytes [OF p] get_bytes_put_bytes_same [OF p] l by (auto simp: get_bytes_def split: if_splits)
  have sz: "ei_size info = of_nat (length bs)" unfolding info(2) [symmetric] by simp
  have "key_unify_read env s (it_name key) (Some buf) (of_nat (length bs)) =
    Some (s\<lparr>efuse_of := e1\<rparr>, Some buf', Some (of_nat (length bs)), int (length bs))"
    using k info z b p by (simp add: key_unify_read_def key_efuse_read_def sz [symmetric])
  then show ?thesis using p' b(4) by blast
qed

lemma efuse_takes_length: "efuse_takes env cls area cap st nm dat bs \<Longrightarrow> length bs \<le> length dat"
proof -
  assume "efuse_takes env cls area cap st nm dat bs"
  then have "stores_as dat bs" by (simp add: efuse_takes_def)
  moreover have "length bs \<le> length (colon_text bs)" by (induction bs rule: colon_text.induct) auto
  ultimately show ?thesis by (auto simp: stores_as_def intro: le_SucI)
qed

lemma unifykey_write_unfold:
  assumes "uk_zalloc env count s = (s0, Some z)" and "count \<le> length z" and "count \<le> length buf"
    and "uk_find_item_by_id (uk_hdr s0) (sint (of_int i :: u32)) = Some key" and "count < 2 ^ 30"
  shows "\<exists>dat. take count dat = take count buf \<and> unifykey_write env s (Some buf) count i =
    do { (s, ret) \<leftarrow> key_unify_write env s0 (it_name key) dat (of_nat count);
         Some (s, if ret < 0 then ret else int count) }"
proof -
  have u: "unat (of_nat count :: u32) = count" using assms(5) by (intro unat_of_nat32) simp
  have c: "sint (of_nat count :: u32) = int count"
    using sint_small [of "of_nat count"] assms(5) unfolding u by simp
  obtain dat where d: "put_bytes z 0 (take count buf) = Some dat"
    using put_bytes_Some_iff [of z 0 "take count buf"] assms(2) by auto
  have "take count dat = take count buf"
    using get_bytes_put_bytes_same [OF d] assms(3) by (auto simp: get_bytes_def split: if_splits)
  then show ?thesis using assms d by (intro exI [of _ dat]) (simp add: unifykey_write_def c cong: if_cong)
qed

lemma unifykey_read_unfold:
  assumes "uk_zalloc env count s = (s0, Some z)" and "it_dev key \<noteq> KEY_SECURE"
    and "uk_find_item_by_id (uk_hdr s) (sint (of_int i :: u32)) = Some key"
    and "key_unify_read env s0 (it_name key) (Some z) (of_nat count) = Some (s2, Some buf, Some (of_nat count), r)"
    and "0 \<le> r" and "count < 2 ^ 30" and "take count buf = bs" and "length bs = count"
  shows "unifykey_read env s count i True = Some (s2, Some bs, int count)"
proof -
  have u: "unat (of_nat count :: u32) = count" using assms(6) by (intro unat_of_nat32) simp
  have "count \<le> length buf" using arg_cong [OF assms(7), of length] assms(8) by simp
  then show ?thesis using assms u by (simp add: unifykey_read_def)
qed

text \<open>C27: Writing and reading a key through the character device.  Let an unencrypted key with both permissions
  be found under its number and its name, let allocations succeed, and let its storage take the data for
  the content \<open>bs\<close>: for a normal key, the data is \<open>bs\<close> and fits the area on the eMMC with the other
  keys; for an efuse key, the data is \<open>bs\<close> or its text, its copy is terminated, and the range of the key was
  never programmed.  Then the write returns the number of bytes it was given, and reading the key
  afterwards returns exactly \<open>bs\<close>; the table of keys is unchanged.\<close>

theorem unify_write_read:
  assumes entry: "key_entry (uk_hdr s) i key"
    and t: "key_takes env e (ek_live e part user c k cap off) H cls area ecap s key dat bs"
    and kz: "kzalloc_ok (ev_kz (x_ef env)) cls"
  shows "\<exists>s1 s2. unifykey_write env s (Some dat) (length dat) i = Some (s1, int (length dat)) \<and>
    unifykey_read env s1 (length bs) i True = Some (s2, Some bs, int (length bs)) \<and> uk_hdr s2 = uk_hdr s"
proof -
  have key: "uk_find_item_by_name (uk_hdr s) (it_name key) = Some key" "it_perm key AND 1 = 1" "it_perm key AND 2 = 2"
    using entry by (auto simp: key_entry_def)
  note pos = key_entry_pos [OF entry]
  have a0: "it_attr key = 0" and ld: "length dat < 2 ^ 30" using t by (auto simp: key_takes_def)
  let ?s0 = "s\<lparr>efuse_of := (efuse_of s)\<lparr>ef_ticks := Suc (ef_ticks (efuse_of s))\<rparr>\<rparr>"
  obtain z where z: "uk_zalloc env (length dat) s = (?s0, Some z)" "length dat \<le> length z" using zalloc_buffer [OF kz] .
  have p0: "uk_find_item_by_id (uk_hdr ?s0) (sint (of_int i :: u32)) = Some key" using pos by simp
  obtain buf where buf: "take (length dat) buf = dat" "unifykey_write env s (Some dat) (length dat) i =
      do { (s, ret) \<leftarrow> key_unify_write env ?s0 (it_name key) buf (of_nat (length dat));
           Some (s, if ret < 0 then ret else int (length dat)) }"
    using unifykey_write_unfold [OF z order_refl p0 ld] by auto
  show ?thesis
  proof (cases "it_dev key = KEY_NORMAL")
    case True
    then have d: "dat = bs" and n: "normal_takes e (ek_live e part user c k cap off) H (x_key env) (store_of ?s0) (it_name key) bs bs"
      using t by (auto simp: key_takes_def normal_takes_def)
    have k0: "uk_find_item_by_name (uk_hdr ?s0) (it_name key) = Some key" using key(1) by simp
    obtain st1 where st1: "key_unify_write env ?s0 (it_name key) buf (of_nat (length bs)) = Some (?s0\<lparr>store_of := st1\<rparr>, 0)"
        "normal_holds e (ek_live e part user c k cap off) H st1 (it_name key) bs"
      using key_unify_write_normal [OF k0 key(3) True a0 _ _ n] ld buf(1) d by blast
    let ?s1 = "?s0\<lparr>store_of := st1\<rparr>"
    obtain s2 z2 where z2: "uk_zalloc env (length bs) ?s1 = (s2, Some z2)" "length bs \<le> length z2"
      "uk_hdr s2 = uk_hdr s" "store_of s2 = st1" by (rule zalloc_buffer [OF kz, of "length bs" ?s1]) auto
    have "key_unify_read env s2 (it_name key) (Some z2) (of_nat (length bs)) =
        Some (s2, Some (bs @ drop (length bs) z2), Some (of_nat (length bs)), 0)"
      by (rule key_unify_read_normal [OF _ key(2) True a0 _ z2(2)]) (use key(1) z2 st1(2) in simp_all)
    then have "unifykey_read env ?s1 (length bs) i True = Some (s2, Some bs, int (length bs))"
      using unifykey_read_unfold [OF z2(1), of key i s2 "bs @ drop (length bs) z2" 0 bs] True pos ld d by simp
    then show ?thesis using buf(2) st1(1) d z2(3) by auto
  next
    case False
    then have ef: "it_dev key = KEY_EFUSE" and n: "efuse_takes (x_ef env) cls area ecap (efuse_of ?s0) (it_name key) dat bs"
      using t by (auto simp: key_takes_def)
    have k0: "uk_find_item_by_name (uk_hdr ?s0) (it_name key) = Some key" using key(1) by simp
    obtain e1 where e1: "key_unify_write env ?s0 (it_name key) buf (of_nat (length dat)) = Some (?s0\<lparr>efuse_of := e1\<rparr>, 0)"
        "efuse_holds (x_ef env) cls area ecap e1 (it_name key) bs"
      using key_unify_write_efuse [OF k0 key(3) ef ld n buf(1)] by blast
    have lb: "length bs < 2 ^ 30" using efuse_takes_length [OF n] ld by simp
    let ?s1 = "?s0\<lparr>efuse_of := e1\<rparr>"
    obtain s2 z2 where z2: "uk_zalloc env (length bs) ?s1 = (s2, Some z2)" "length bs \<le> length z2" "uk_hdr s2 = uk_hdr s"
        "efuse_of s2 = e1\<lparr>ef_ticks := Suc (ef_ticks e1)\<rparr>" by (rule zalloc_buffer [OF kz, of "length bs" ?s1]) auto
    have h2: "efuse_holds (x_ef env) cls area ecap (efuse_of s2) (it_name key) bs" using e1(2) z2(4) by simp
    have k2: "uk_find_item_by_name (uk_hdr s2) (it_name key) = Some key" using key(1) z2(3) by simp
    obtain e3 b where r: "key_unify_read env s2 (it_name key) (Some z2) (of_nat (length bs)) =
        Some (s2\<lparr>efuse_of := e3\<rparr>, Some b, Some (of_nat (length bs)), int (length bs))" "take (length bs) b = bs"
      using key_unify_read_efuse [OF k2 key(2) ef h2 z2(2) lb] by blast
    have "unifykey_read env ?s1 (length bs) i True = Some (s2\<lparr>efuse_of := e3\<rparr>, Some bs, int (length bs))"
      using unifykey_read_unfold [OF z2(1), of key i _ b "int (length bs)" bs] ef pos r lb by simp
    then show ?thesis using buf(2) e1(1) z2(3) by auto
  qed
qed

text \<open>C26: Protected keys.  Let the device run on normal keys on the eMMC, and let users make any sequence
  of calls: reads, writes, requests and accesses to the attributes.  Then the device still runs on a
  well-formed store, the table is unchanged, and every normal key whose name is not in the table, or
  whose entry has no write permission or another storage, has the content it had.\<close>

theorem unify_protected_keys:
  assumes run: "unify_running (emmc_key_read e) (emmc_key_write e) (ek_live e part user c k cap off) 262144 H s"
    and ke: "kernel_ok H (x_key env)" and reach: "uk_reach env s s'"
  shows "unify_running (emmc_key_read e) (emmc_key_write e) (ek_live e part user c k cap off) 262144 H s' \<and>
    uk_hdr s' = uk_hdr s \<and> (write_protected (uk_hdr s) nm \<longrightarrow> normal_map s' nm = normal_map s nm)"
  using reach run
proof (induction rule: uk_reach.induct)
  case (call s s' cl s'')
  then have "unify_running (emmc_key_read e) (emmc_key_write e) (ek_live e part user c k cap off) 262144 H s'' \<and> keeps_protected s' s''"
    using emmc_keys.uk_call_step [OF _ ke call.hyps(2,3)] by blast
  then show ?case using call by (auto simp: keeps_protected_def)
qed simp

text \<open>C32: Encrypted keys are never readable.  A normal key that is stored with the encryption attribute cannot be
  read through the device, whatever the table and the caller say: the comparison of the attribute
  (0 or 0x100) with the flag of the table (0 or 1) fails, and the result is \<open>EINVAL\<close>.\<close>

theorem unify_encrypted_unreadable:
  assumes run: "normal_running rd wr dinv N H (store_of s)" and nif: "normal_if s"
    and key: "uk_find_item_by_name (uk_hdr s) nm = Some key" "it_dev key = KEY_NORMAL" "it_perm key AND KEY_PERM_READ = KEY_PERM_READ"
    and m: "normal_map s nm = Some (bs, a)" "a AND KEY_ATTR_ENCRYPT \<noteq> 0"
  shows "key_unify_read env s nm (Some buf) len = Some (s, Some buf, None, - EINVAL)"
proof -
  have inv: "nk_inv H (nk (store_of s))" using run by (simp add: normal_running_def)
  obtain ob where ob: "normal_obj (store_of s) (Some nm) = Some (Some ob)" "attribute ob = a"
    using normal_obj_spec [OF inv, of nm] m(1) by (auto simp: normal_map_def)
  have "\<not> bit (a AND 0x100) 0" by (simp add: bit_simps)
  then have "a AND 0x100 \<noteq> 1" by (metis bit_1_0)
  then show ?thesis
    using m(2) ob key nif
    by (auto simp: key_unify_read_def key_storage_read_def amlkey_get_attr_def amlkey_get_attr_normal_def normal_if_def Let_def)
qed

section \<open>The table of the device tree\<close>

lemma node_items_names:
  assumes "\<forall>node \<in> set nodes. \<forall>nm. un_name node = Some nm \<longrightarrow> 0 \<notin> set nm"
  shows "names_ok (rev (node_items nodes i))"
  using assms
proof (induction nodes arbitrary: i)
  case (Cons node nodes)
  have IH: "names_ok (rev (node_items nodes j))" for j using Cons by simp
  show ?case
  proof (cases "node_ok node")
    case True
    then obtain nm where "un_name node = Some nm" "0 \<notin> set nm" using Cons.prems by (auto simp: node_ok_def)
    then show ?thesis using True IH [of "i + 1"] by (auto simp: names_ok_def node_item_def dest: in_set_takeD)
  qed (use IH in simp)
qed (simp add: names_ok_def)

lemma length_node_items: "length (node_items nodes i) = length (filter node_ok nodes)"
  by (induction nodes arbitrary: i) auto

lemma llseek_accepts:
  assumes "table_wf (uk_hdr s)" and "0 \<le> snd (unifykey_llseek s f off w)"
  shows "\<exists>x. uk_find_item_by_id (uk_hdr s) (snd (unifykey_llseek s f off w)) = Some x"
  using assms table_wf_find [OF assms(1), of "snd (unifykey_llseek s f off w)"]
  by (auto simp: unifykey_llseek_def Let_def split: if_splits)

text \<open>C30: The table of keys.  From any child nodes of the device tree, the table has one entry for each node with
  name and device, and the count says so; its numbers are those from 0 on, its names fit, its permissions
  and attributes are as defined; a lookup by name finds the newest entry of that name; and every position
  that \<open>llseek\<close> accepts is the number of an entry.\<close>

theorem unify_table:
  assumes z: "zalloc_succeeds env" and fresh: "key_flag s = 0" "uk_hdr s = []"
    and names: "\<forall>node \<in> set nodes. \<forall>nm. un_name node = Some nm \<longrightarrow> 0 \<notin> set nm"
    and create: "uk_dt_create env enc nodes s = (s', r)"
  shows "r = 0 \<and> table_wf (uk_hdr s') \<and> key_num s' = int (length (filter node_ok nodes)) \<and>
    key_num s' = uk_count_key (uk_hdr s') \<and>
    (\<forall>nm. 0 \<notin> set nm \<longrightarrow> uk_find_item_by_name (uk_hdr s') nm = List.find (\<lambda>x. it_name x = nm) (uk_hdr s')) \<and>
    (\<forall>f off w. 0 \<le> snd (unifykey_llseek s' f off w) \<longrightarrow>
       (\<exists>x. uk_find_item_by_id (uk_hdr s') (snd (unifykey_llseek s' f off w)) = Some x))"
proof -
  let ?s = "s\<lparr>encrypt_type := case enc of None \<Rightarrow> -1 | Some e \<Rightarrow> e\<rparr>"
  obtain e where "uk_item_create env nodes 0 ?s =
      (?s\<lparr>efuse_of := e, uk_hdr := rev (node_items nodes 0) @ uk_hdr ?s\<rparr>, 0 + int (length (node_items nodes 0)))"
    using uk_item_create_eq [OF z] by blast
  then have s': "r = 0" "uk_hdr s' = rev (node_items nodes 0)" "key_num s' = int (length (filter node_ok nodes))"
    using create fresh by (auto simp: uk_dt_create_def Let_def length_node_items)
  have wf: "table_wf (uk_hdr s')" using node_items_table s'(2) by simp
  have "names_ok (uk_hdr s')" using node_items_names [OF names] s'(2) by simp
  then show ?thesis
    using s' wf uk_find_item_by_name_eq llseek_accepts [OF wf] by (simp add: length_node_items)
qed

section \<open>Failures on efuse keys\<close>

text \<open>The queries that pass no pointer for the permission follow a NULL pointer on an efuse key.\<close>

lemma unify_secure_efuse:
  assumes "uk_find_item_by_name (uk_hdr s) nm = Some key" and "it_name key = nm"
    and "it_dev key = KEY_EFUSE" and "it_perm key AND KEY_PERM_READ = KEY_PERM_READ"
  shows "key_unify_secure env s nm = None" and "key_unify_encrypt env s nm = None"
proof -
  have "key_unify_query env s nm False = None"
    using assms by (cases "key_efuse_query env s nm") (auto simp: key_unify_query_def)
  then show "key_unify_secure env s nm = None" and "key_unify_encrypt env s nm = None"
    using assms by (simp_all add: key_unify_secure_def key_unify_encrypt_def)
qed

text \<open>A query of a readable efuse key succeeds with a positive result, which the request for its
  information takes for an error.\<close>

lemma unify_info_efuse:
  assumes key: "uk_find_item_by_name (uk_hdr s) nm = Some key" "it_name key = nm"
      "it_dev key = KEY_EFUSE" "it_perm key AND KEY_PERM_READ = KEY_PERM_READ"
    and item: "takeWhile (\<lambda>b. b \<noteq> 0) (take 47 (ii_name item)) = nm" "nm \<noteq> []"
    and h: "efuse_holds (x_ef env) cls area ecap (efuse_of s) nm bs"
  shows "\<exists>s'. ioctl_get_info env s item 0 0 = Some (s', None, int (length bs)) \<and> 0 < length bs"
proof -
  have ok: "efuse_ok (x_ef env) area ecap (efuse_of s)" and kz: "kzalloc_ok (ev_kz (x_ef env)) cls"
    and pos: "0 < length bs" using h by (auto simp: efuse_holds_def efuse_running_def key_within_def)
  obtain info where info: "efuse_getinfo (efuse_of s) nm = Some (Some info)" "unat (ei_size info) = length bs"
    using h by (auto simp: efuse_holds_def key_within_def)
  obtain m where m: "ev_km (x_ef env) (ef_ticks (efuse_of s)) 68 = Some m"
    using ok alloc_okE [of "ev_km (x_ef env)" "ef_ticks (efuse_of s)" 68] by (auto simp: efuse_ok_def)
  let ?s0 = "s\<lparr>efuse_of := (efuse_of s)\<lparr>ef_ticks := Suc (ef_ticks (efuse_of s))\<rparr>\<rparr>"
  let ?e1 = "(efuse_of ?s0)\<lparr>ef_ticks := Suc (ef_ticks (efuse_of ?s0))\<rparr>"
  obtain z where z: "uk_zalloc env (length bs) ?s0 = (?s0\<lparr>efuse_of := ?e1\<rparr>, Some z)" "length bs \<le> length z"
    by (rule zalloc_buffer [OF kz, of "length bs" ?s0])
  have "efuse_holds (x_ef env) cls area ecap ?e1 nm bs" using h by simp
  from efuse_keys.fetch_holds [OF this z(2)] obtain e2 b where b:
    "efuse_user_attr_read (x_ef env) nm z ?e1 = Some (e2, b, int (length bs))" "length b = length z" by blast
  have "key_efuse_query env ?s0 nm = Some (?s0\<lparr>efuse_of := e2\<rparr>,
      Some (if \<exists>x \<in> set (take (length bs) b). x \<noteq> 0 then KEY_BURNED else KEY_EMPTY), int (length bs))"
    using info z b pos by (simp add: key_efuse_query_def)
  then have q: "key_unify_query env ?s0 (it_name key) True = Some (?s0\<lparr>efuse_of := e2\<rparr>,
      Some (if \<exists>x \<in> set (take (length bs) b). x \<noteq> 0 then KEY_BURNED else KEY_EMPTY), Some (it_perm key), int (length bs))"
    using key by (simp add: key_unify_query_def)
  have "uk_kmalloc env 68 s = (?s0, Some m)" using m by (simp add: uk_kmalloc_def)
  then have "ioctl_get_info env s item 0 0 = Some (?s0\<lparr>efuse_of := e2\<rparr>, None, int (length bs))"
    using key item q pos by (simp add: ioctl_get_info_def Let_def)
  then show ?thesis using pos by blast
qed

section \<open>A concrete device\<close>

text \<open>Keys 0 (normal), 1 (efuse), 2 (normal, read only) and 3 (normal, encrypted).\<close>

definition demo_env :: "(unit, u8 list) unify_env" where
  "demo_env = \<lparr>x_key = plain_env, x_ef = otp_env\<rparr>"

definition demo_items :: "key_item_t list" where
  "demo_items =
     [\<lparr>it_name = [0x65], it_id = 3, it_dev = KEY_NORMAL, it_perm = 3, it_attr = 0x100\<rparr>,
      \<lparr>it_name = [0x72], it_id = 2, it_dev = KEY_NORMAL, it_perm = 1, it_attr = 0\<rparr>,
      \<lparr>it_name = [0x75], it_id = 1, it_dev = KEY_EFUSE, it_perm = 3, it_attr = 0\<rparr>,
      \<lparr>it_name = [0x6D], it_id = 0, it_dev = KEY_NORMAL, it_perm = 3, it_attr = 0\<rparr>]"

definition demo_dev :: "(unit, (u8 \<times> disk) ek_state, u8 list) aml_uk_dev" where
  "demo_dev =
     \<lparr>init_flag = 1, lock_flag = 0, curkey = None, uk_hdr = demo_items, key_num = 4, key_flag = 1, encrypt_type = -1,
      ukdev_global = Some True, uk_held = nothing_held, store_of = serving, efuse_of = otp_st\<rparr>"

lemma demo_entries:
  "key_entry (uk_hdr demo_dev) 0 (demo_items ! 3)" "key_entry (uk_hdr demo_dev) 1 (demo_items ! 2)"
  by (simp_all add: key_entry_def demo_dev_def demo_items_def strncmp_eq_def)

lemma demo_kzalloc: "kzalloc_ok (ev_kz (x_ef demo_env)) otp_cls"
  using otp_kzalloc by (simp add: demo_env_def)

lemma demo_running:
  "unify_running (emmc_key_read ram_env) (emmc_key_write ram_env) (ek_live ram_env fst snd ram_card 0 0x200000 0x2400000)
     262144 good_hash demo_dev"
  using serving_running serving_keys(2) by (simp add: unify_running_def normal_if_def demo_dev_def)

lemma demo_kernel: "kernel_ok good_hash (x_key demo_env)"
  using plain_ok by (simp add: demo_env_def)

theorem unify_write_read_witness:
  "(\<exists>s1 s2. unifykey_write demo_env demo_dev (Some [1, 2]) 2 0 = Some (s1, 2) \<and>
      unifykey_read demo_env s1 2 0 True = Some (s2, Some [1, 2], 2)) \<and>
   (\<exists>s1 s2. unifykey_write demo_env demo_dev (Some (colon_text [1, 2, 3, 0xFF])) 11 1 = Some (s1, 11) \<and>
      unifykey_read demo_env s1 4 1 True = Some (s2, Some [1, 2, 3, 0xFF], 4))"
proof -
  let ?d = "ek_live ram_env fst snd ram_card 0 0x200000 0x2400000"
  have n: "key_takes demo_env ram_env ?d good_hash otp_cls (\<lambda>fw. fw) 16 demo_dev (demo_items ! 3) [1, 2] [1, 2]"
    using serving_running plain_ok serving_keys
    by (simp add: key_takes_def normal_takes_def demo_items_def demo_dev_def demo_env_def key_acceptable_def space_one obj_space_def)
  have g: "efuse_getinfo otp_st [0x75] = Some (Some \<lparr>ei_keyname = [0x75], ei_offset = 8, ei_size = 4\<rparr>)" by code_simp
  have l: "length (colon_text [1, 2, 3, 0xFF]) = 11" by (simp add: hex2_def)
  have "blank_at (ef_fw otp_st) 8 (length [1, 2, 3, 0xFF :: u8])" by (rule otp_blank) simp
  moreover have "copy_terminated otp_cls (colon_text [1, 2, 3, 0xFF])" unfolding copy_terminated_def l by (simp add: otp_cls_def)
  ultimately have "efuse_takes otp_env otp_cls (\<lambda>fw. fw) 16 otp_st [0x75] (colon_text [1, 2, 3, 0xFF]) [1, 2, 3, 0xFF]"
    using otp_ok otp_kzalloc otp_conversions
    by (auto simp: efuse_takes_def efuse_running_def stores_as_def key_within_def g)
  then have f: "key_takes demo_env ram_env ?d good_hash otp_cls (\<lambda>fw. fw) 16 demo_dev (demo_items ! 2) (colon_text [1, 2, 3, 0xFF]) [1, 2, 3, 0xFF]"
    by (simp add: key_takes_def demo_items_def demo_dev_def demo_env_def)
  have l': "length [1, 2 :: u8] = 2" "length [1, 2, 3, 0xFF :: u8] = 4" by simp_all
  show ?thesis
    using unify_write_read [OF demo_entries(1) n demo_kzalloc] unify_write_read [OF demo_entries(2) f demo_kzalloc] unfolding l l' by auto
qed

theorem unify_protected_keys_witness:
  "\<exists>s'. uk_call_result demo_env (UkWrite (Some [9]) 1 2) demo_dev = Some s' \<and> normal_map s' [0x72] = normal_map demo_dev [0x72]"
proof -
  let ?e = "(efuse_of demo_dev)\<lparr>ef_ticks := Suc (ef_ticks (efuse_of demo_dev))\<rparr>"
  have w: "uk_call_result demo_env (UkWrite (Some [9]) 1 2) demo_dev = Some (demo_dev\<lparr>efuse_of := ?e\<rparr>)"
    by (simp add: unifykey_write_def uk_zalloc_def key_unify_write_def demo_dev_def demo_items_def demo_env_def otp_env_def otp_cls_def
        strncmp_eq_def put_bytes_def)
  have "uk_reach demo_env demo_dev (demo_dev\<lparr>efuse_of := ?e\<rparr>)"
    using uk_reach.call [OF uk_reach.start _ w] by simp
  moreover have "write_protected (uk_hdr demo_dev) [0x72]"
    by (simp add: write_protected_def demo_dev_def demo_items_def strncmp_eq_def)
  ultimately show ?thesis using unify_protected_keys [OF demo_running demo_kernel] w by blast
qed

theorem unify_encrypted_unreadable_witness:
  "\<exists>s'. key_unify_write demo_env demo_dev [0x65] [1, 2] 2 = Some (s', 0) \<and>
     key_unify_read demo_env s' [0x65] (Some [0, 0]) 2 = Some (s', Some [0, 0], None, - EINVAL)"
proof -
  have a: "key_acceptable (nk_map (keys (nk serving))) [0x65] [1, 2] 2 0x100" by (simp add: key_acceptable_def serving_keys)
  obtain s1 where s1: "amlkey_write_normal plain_env serving (Some [0x65]) (Some [1, 2]) 2 0x100 = Some (s1, 2)"
      "normal_running (emmc_key_read ram_env) (emmc_key_write ram_env) (ek_live ram_env fst snd ram_card 0 0x200000 0x2400000)
         262144 good_hash s1" "nk_map (keys (nk s1)) = [[0x65] \<mapsto> ([1, 2], 0x100)]"
    using emmc_keys.write_normal_iff_fits [OF serving_running plain_ok a refl]
    by (auto simp: serving_keys space_one obj_space_def)
  have i1: "amlkey_if s1 = Some IFTYPE_NORMAL_STORAGE"
    using emmc_keys.write_normal_image [OF serving_running plain_ok, of 2 "[1, 2]" "[0x65]" "0x100"] s1(1) serving_keys(2) by auto
  let ?s = "demo_dev\<lparr>store_of := s1\<rparr>"
  have w: "key_unify_write demo_env demo_dev [0x65] [1, 2] 2 = Some (?s, 0)"
    using s1(1) serving_keys(2)
    by (simp add: key_unify_write_def demo_dev_def demo_items_def strncmp_eq_def demo_env_def amlkey_write_def key_write_attr_def)
  have "key_unify_read demo_env ?s [0x65] (Some [0, 0]) 2 = Some (?s, Some [0, 0], None, - EINVAL)"
    by (rule unify_encrypted_unreadable [where key = "demo_items ! 0" and a = "0x100" and bs = "[1, 2]"])
       (use s1 i1 in \<open>auto simp: demo_dev_def demo_items_def strncmp_eq_def normal_if_def normal_map_def\<close>)
  then show ?thesis using w by blast
qed

definition demo_nodes :: "uk_node list" where
  "demo_nodes =
     [\<lparr>un_name = Some [0x6D], un_device = Some ''normal'', un_read = True, un_write = True, un_encrypt = False\<rparr>,
      \<lparr>un_name = None, un_device = Some ''efuse'', un_read = True, un_write = False, un_encrypt = False\<rparr>,
      \<lparr>un_name = Some [0x75], un_device = Some ''efuse'', un_read = True, un_write = True, un_encrypt = False\<rparr>]"

theorem unify_table_witness:
  "\<exists>s' r. uk_dt_create demo_env None demo_nodes (demo_dev\<lparr>uk_hdr := [], key_flag := 0\<rparr>) = (s', r) \<and> r = 0 \<and>
     table_wf (uk_hdr s') \<and> key_num s' = 2"
proof -
  obtain s' r where c: "uk_dt_create demo_env None demo_nodes (demo_dev\<lparr>uk_hdr := [], key_flag := 0\<rparr>) = (s', r)" by fastforce
  have z: "zalloc_succeeds demo_env" by (simp add: zalloc_succeeds_def demo_env_def otp_env_def)
  show ?thesis
    using unify_table [OF z _ _ _ c] c by (simp add: demo_nodes_def node_ok_def)
qed

end
