(* ===== verification/Canvas.thy ===== *)
theory Canvas
  imports Aml_Prelude
begin

unbundle bit_operations_syntax

text \<open>
  The canvas driver \<open>soc/amlogic/canvas/canvas.c\<close>: a table of 256 canvases, each a window on memory with
  address, width and height, its configuration in the hardware lookup table, and the allocation of
  a range of canvases from the canvas provider of the kernel (\<open>meson-canvas\<close>), which is a parameter
  with a state \<open>'m\<close> of its own.  The fields \<open>kobj\<close> and \<open>index\<close> of a canvas are never used and left out.
\<close>

section \<open>State\<close>

record canvas_s =
  cv_addr :: u64
  cv_width :: u32
  cv_height :: u32
  cv_wrap :: u32
  cv_blkmode :: u32
  cv_endian :: u32
  dataL :: u32
  dataH :: u32
  used :: u32

record 'm canvas_device_info =
  canvasPool :: "canvas_s list"
  meson_canvas :: 'm

record canvas_config_s =
  cc_phy_addr :: u32
  cc_width :: u32
  cc_height :: u32
  cc_block_mode :: u32
  cc_endian :: u32

record 'm meson_ops =
  meson_canvas_alloc_spec :: "'m \<Rightarrow> u8 \<Rightarrow> 'm \<times> int"
  meson_canvas_free :: "'m \<Rightarrow> u8 \<Rightarrow> 'm"
  meson_canvas_config :: "'m \<Rightarrow> u8 \<Rightarrow> u64 \<Rightarrow> u32 \<Rightarrow> u32 \<Rightarrow> u32 \<Rightarrow> u32 \<Rightarrow> u32 \<Rightarrow> 'm"

abbreviation (input) CANVAS_ADDR_NOWRAP :: u32 where "CANVAS_ADDR_NOWRAP \<equiv> 0"

definition CANVAS_VALID :: "'m canvas_device_info \<Rightarrow> nat \<Rightarrow> bool" where
  "CANVAS_VALID info n \<longleftrightarrow> n < 256 \<and> used (canvasPool info ! n) \<noteq> 0"

definition canvas_lut_data_build :: "u64 \<Rightarrow> u32 \<Rightarrow> u32 \<Rightarrow> u32 \<Rightarrow> u32 \<Rightarrow> u32 \<Rightarrow> u32 \<times> u32" where
  "canvas_lut_data_build addr width height wrap blkmode endian =
     (let addr_bits_l = ucast (drop_bit 3 (addr + 7) AND 0x1fffffff) :: u32;
          width8 = drop_bit 3 (ucast width + 7) :: u64;
          width_l = ucast (push_bit 29 (width8 AND 7)) :: u32;
          width_h = ucast (drop_bit 3 width8) :: u32;
          height_h = push_bit 9 (height AND 0x1fff);
          wrap_h = wrap AND 3;
          blkmod_h = push_bit 24 (blkmode AND 3);
          switch_bits_ctl = push_bit 26 (endian AND 0xf)
      in (addr_bits_l OR width_l, width_h OR height_h OR wrap_h OR blkmod_h OR switch_bits_ctl))"

definition lut_word :: "u32 \<times> u32 \<Rightarrow> u64" where
  "lut_word lh = push_bit 32 (ucast (snd lh)) OR ucast (fst lh)"

definition lut_field :: "nat \<Rightarrow> nat \<Rightarrow> u64 \<Rightarrow> u64" where
  "lut_field hi lo w = take_bit (hi + 1 - lo) (drop_bit lo w)"

lemma mask_ands:
  "x AND 0x1fffffff = take_bit 29 (x :: 'a :: len word)" "x AND 7 = take_bit 3 x" "x AND 0x1fff = take_bit 13 x"
  "x AND 3 = take_bit 2 x" "x AND 0xf = take_bit 4 x"
  by (simp_all add: take_bit_eq_mask mask_eq_exp_minus_1)

lemma small_bits:
  assumes "unat (w :: u64) < 2 ^ k" and "k \<le> n"
  shows "\<not> bit w n"
proof -
  have "unat w < 2 ^ n" using assms by (meson less_le_trans one_le_numeral power_increasing)
  then have "\<not> bit (unat w) n" by (simp add: bit_iff_odd)
  then show ?thesis by (simp add: bit_unsigned_iff)
qed


lemma bit_lut: "bit (lut_word (l, h)) n \<longleftrightarrow> n < 32 \<and> bit l n \<or> 32 \<le> n \<and> bit h (n - 32)"
  using bit_imp_le_length [of l n] bit_imp_le_length [of h "n - 32"]
  by (auto simp: lut_word_def bit_simps)

lemma bit_field: "bit (lut_field hi lo w) n \<longleftrightarrow> lo + n \<le> hi \<and> bit w (lo + n)"
  by (auto simp: lut_field_def bit_simps)

lemma lut_low: "bit (fst (canvas_lut_data_build addr width height wrap blkmode endian)) n \<longleftrightarrow>
  n < 29 \<and> bit (addr + 7) (n + 3) \<or> 29 \<le> n \<and> n < 32 \<and> bit (ucast width + 7 :: u64) (n - 26)"
  by (auto simp: canvas_lut_data_build_def Let_def mask_ands bit_simps add.commute)

lemma lut_high: "bit (snd (canvas_lut_data_build addr width height wrap blkmode endian)) n \<longleftrightarrow>
  n < 32 \<and> bit (ucast width + 7 :: u64) (n + 6) \<or> 9 \<le> n \<and> n < 22 \<and> bit height (n - 9) \<or>
  n < 2 \<and> bit wrap n \<or> 24 \<le> n \<and> n < 26 \<and> bit blkmode (n - 24) \<or> 26 \<le> n \<and> n < 30 \<and> bit endian (n - 26)"
  by (auto simp: canvas_lut_data_build_def Let_def mask_ands bit_simps add.commute)

lemma width_bits:
  assumes "unat (width :: u32) \<le> 8 * 4095" and "15 \<le> n"
  shows "\<not> bit (ucast width + 7 :: u64) n"
proof (rule small_bits)
  show "unat (ucast width + 7 :: u64) < 2 ^ 15" using ucast_small [of width 7] assms(1) by simp
qed (rule assms(2))


section \<open>Operations on one canvas\<close>

definition canvas_config_locked ::
    "'m meson_ops \<Rightarrow> 'm canvas_device_info \<Rightarrow> u32 \<Rightarrow> canvas_s \<Rightarrow> 'm canvas_device_info" where
  "canvas_config_locked ops info index p =
     (let (datal, datah) = canvas_lut_data_build (cv_addr p) (cv_width p) (cv_height p) (cv_wrap p)
                             (cv_blkmode p) (cv_endian p);
          m = meson_canvas_config ops (meson_canvas info) (ucast index) (cv_addr p) (cv_width p) (cv_height p)
                (cv_wrap p) (cv_blkmode p) (cv_endian p)
      in info\<lparr>canvasPool := (canvasPool info)[unat index := p\<lparr>dataL := datal, dataH := datah\<rparr>], meson_canvas := m\<rparr>)"

definition canvas_config_ex ::
    "'m meson_ops \<Rightarrow> 'm canvas_device_info \<Rightarrow> u32 \<Rightarrow> u64 \<Rightarrow> u32 \<Rightarrow> u32 \<Rightarrow> u32 \<Rightarrow> u32 \<Rightarrow> u32 \<Rightarrow> 'm canvas_device_info" where
  "canvas_config_ex ops info index addr width height wrap blkmode endian =
     (if \<not> CANVAS_VALID info (unat index) then info
      else canvas_config_locked ops info index
             ((canvasPool info ! unat index)\<lparr>cv_addr := addr, cv_width := width, cv_height := height, cv_wrap := wrap,
                cv_blkmode := blkmode, cv_endian := endian\<rparr>))"

definition canvas_config_config ::
    "'m meson_ops \<Rightarrow> 'm canvas_device_info \<Rightarrow> u32 \<Rightarrow> canvas_config_s \<Rightarrow> 'm canvas_device_info" where
  "canvas_config_config ops info index cfg =
     canvas_config_ex ops info index (ucast (cc_phy_addr cfg)) (cc_width cfg) (cc_height cfg) CANVAS_ADDR_NOWRAP
       (cc_block_mode cfg) (cc_endian cfg)"

definition canvas_config ::
    "'m meson_ops \<Rightarrow> 'm canvas_device_info \<Rightarrow> u32 \<Rightarrow> u64 \<Rightarrow> u32 \<Rightarrow> u32 \<Rightarrow> u32 \<Rightarrow> u32 \<Rightarrow> 'm canvas_device_info" where
  "canvas_config ops info index addr width height wrap blkmode =
     canvas_config_ex ops info index addr width height wrap blkmode 0"

text \<open>\<open>canvas_read\<close> leaves the caller's \<open>*p\<close> alone when the canvas is not in use.\<close>

definition canvas_read :: "'m canvas_device_info \<Rightarrow> u32 \<Rightarrow> canvas_s \<Rightarrow> canvas_s" where
  "canvas_read info index p = (if CANVAS_VALID info (unat index) then canvasPool info ! unat index else p)"

definition canvas_copy :: "'m meson_ops \<Rightarrow> 'm canvas_device_info \<Rightarrow> u32 \<Rightarrow> u32 \<Rightarrow> 'm canvas_device_info" where
  "canvas_copy ops info src dst =
     (if \<not> CANVAS_VALID info (unat src) \<or> \<not> CANVAS_VALID info (unat dst) then info
      else let s = canvasPool info ! unat src in
        canvas_config_locked ops info dst
          ((canvasPool info ! unat dst)\<lparr>cv_addr := cv_addr s, cv_width := cv_width s, cv_height := cv_height s,
             cv_wrap := cv_wrap s, cv_blkmode := cv_blkmode s, cv_endian := cv_endian s,
             dataH := dataH s, dataL := dataL s\<rparr>))"

definition canvas_update_addr :: "'m meson_ops \<Rightarrow> 'm canvas_device_info \<Rightarrow> u32 \<Rightarrow> u32 \<Rightarrow> 'm canvas_device_info" where
  "canvas_update_addr ops info index addr =
     (if \<not> CANVAS_VALID info (unat index) then info
      else canvas_config_locked ops info index ((canvasPool info ! unat index)\<lparr>cv_addr := ucast addr\<rparr>))"

text \<open>\<open>canvas_get_addr\<close> does not check its index, and returns the low half of the address.\<close>

definition canvas_get_addr :: "'m canvas_device_info \<Rightarrow> u32 \<Rightarrow> u32 option" where
  "canvas_get_addr info index =
     (if unat index < length (canvasPool info) then Some (ucast (cv_addr (canvasPool info ! unat index))) else None)"

definition canvas_get_width :: "'m canvas_device_info \<Rightarrow> u32 \<Rightarrow> u32" where
  "canvas_get_width info index = (if CANVAS_VALID info (unat index) then cv_width (canvasPool info ! unat index) else 0)"

definition canvas_get_height :: "'m canvas_device_info \<Rightarrow> u32 \<Rightarrow> u32" where
  "canvas_get_height info index = (if CANVAS_VALID info (unat index) then cv_height (canvasPool info ! unat index) else 0)"

section \<open>Ranges\<close>

text \<open>The index is a \<open>uint8_t\<close>, which never leaves the pool of 256.  The loops over a range end only
  if the stop index is below 255; otherwise the condition \<open>i <= end\<close> always holds.\<close>

definition set_used :: "u32 \<Rightarrow> u8 \<Rightarrow> 'm canvas_device_info \<Rightarrow> 'm canvas_device_info" where
  "set_used v i info = info\<lparr>canvasPool := (canvasPool info)[unat i := (canvasPool info ! unat i)\<lparr>used := v\<rparr>]\<rparr>"

definition free_one :: "'m meson_ops \<Rightarrow> u8 \<Rightarrow> 'm canvas_device_info \<Rightarrow> 'm canvas_device_info" where
  "free_one ops j info = set_used 0 j (info\<lparr>meson_canvas := meson_canvas_free ops (meson_canvas info) j\<rparr>)"

definition free_back :: "'m meson_ops \<Rightarrow> u8 \<Rightarrow> u8 \<Rightarrow> 'm canvas_device_info \<Rightarrow> 'm canvas_device_info" where
  "free_back ops start i info = fold (\<lambda>j. free_one ops (of_nat j)) [unat start ..< unat i] info"

partial_function (option) alloc_range_loop ::
    "'m meson_ops \<Rightarrow> u8 \<Rightarrow> u8 \<Rightarrow> u8 \<Rightarrow> 'm canvas_device_info \<Rightarrow> ('m canvas_device_info \<times> int) option" where
  "alloc_range_loop ops start stop i info =
     (if i \<le> stop then
        (case meson_canvas_alloc_spec ops (meson_canvas info) i of (m, r) \<Rightarrow>
           (let info = info\<lparr>meson_canvas := m\<rparr> in
            if r \<noteq> 0 then Some (free_back ops start i info, -1)
            else alloc_range_loop ops start stop (i + 1) (set_used 1 i info)))
      else Some (info, 0))"

definition alloc_canvas_range ::
    "'m meson_ops \<Rightarrow> 'm canvas_device_info \<Rightarrow> u8 \<Rightarrow> u8 \<Rightarrow> ('m canvas_device_info \<times> int) option" where
  "alloc_canvas_range ops info start stop = alloc_range_loop ops start stop start info"

partial_function (option) free_range_loop ::
    "'m meson_ops \<Rightarrow> u8 \<Rightarrow> u8 \<Rightarrow> 'm canvas_device_info \<Rightarrow> 'm canvas_device_info option" where
  "free_range_loop ops stop i info =
     (if i \<le> stop then free_range_loop ops stop (i + 1) (free_one ops i info) else Some info)"

definition free_canvas_range ::
    "'m meson_ops \<Rightarrow> 'm canvas_device_info \<Rightarrow> u8 \<Rightarrow> u8 \<Rightarrow> 'm canvas_device_info option" where
  "free_canvas_range ops info start stop = free_range_loop ops stop start info"

lemma free_range_loop_end:
  assumes "stop < 255" and "unat i \<le> unat stop + 1"
  shows "free_range_loop ops stop i info = Some (fold (\<lambda>j. free_one ops (of_nat j)) [unat i ..< unat stop + 1] info)"
  using assms(2)
proof (induction "unat stop + 1 - unat i" arbitrary: i info)
  case 0
  then show ?case by (subst free_range_loop.simps) (auto simp: word_le_nat_alt)
next
  case (Suc k)
  have i: "unat i \<le> unat stop" "i \<le> stop" using Suc.hyps(2) by (auto simp: word_le_nat_alt)
  have n: "unat (i + 1) = unat i + 1" using i assms(1) by (simp add: word_less_nat_alt unat_word_ariths)
  have "free_range_loop ops stop (i + 1) (free_one ops i info) =
     Some (fold (\<lambda>j. free_one ops (of_nat j)) [unat (i + 1) ..< unat stop + 1] (free_one ops i info))"
    using Suc.hyps n i(1) by (intro Suc.hyps(1)) auto
  moreover have "[unat i ..< unat stop + 1] = unat i # [unat i + 1 ..< unat stop + 1]"
    using upt_conv_Cons [of "unat i" "unat stop + 1"] i(1) by simp
  ultimately show ?case using i(2) n by (subst free_range_loop.simps) (simp del: upt_Suc)
qed

text \<open>With 255 as the last index the loop never ends.\<close>

lemma free_range_loop_255:
  assumes "free_range_loop ops stop i info = Some r"
  shows "stop \<noteq> 255"
proof (rule free_range_loop.raw_induct [where P = "\<lambda>ops stop i info r. stop \<noteq> 255", OF _ assms])
  fix f :: "'a meson_ops \<Rightarrow> u8 \<Rightarrow> u8 \<Rightarrow> 'a canvas_device_info \<Rightarrow> 'a canvas_device_info option" and ops and stop i :: u8 and info r
  assume IH: "\<And>ops stop i info r. f ops stop i info = Some r \<Longrightarrow> stop \<noteq> 255"
    and r: "(if i \<le> stop then f ops stop (i + 1) (free_one ops i info) else Some info) = Some r"
  show "stop \<noteq> 255"
  proof
    assume e: "stop = 255"
    moreover have "(255 :: u8) = - 1" by simp
    ultimately have "i \<le> stop" by (simp only: word_order.extremum)
    with r have "f ops stop (i + 1) (free_one ops i info) = Some r" by simp
    from IH [OF this] e show False by simp
  qed
qed

section \<open>Ownership of the hardware canvases\<close>

text \<open>The canvas provider, as documented: \<open>own m\<close> are the canvases handed out; an allocation of a given
  canvas succeeds exactly when it is free.\<close>

definition meson_ok :: "'m meson_ops \<Rightarrow> ('m \<Rightarrow> nat set) \<Rightarrow> bool" where
  "meson_ok ops own \<longleftrightarrow>
     (\<forall>m i. (snd (meson_canvas_alloc_spec ops m i) = 0 \<longleftrightarrow> unat i \<notin> own m)) \<and>
     (\<forall>m i. own (fst (meson_canvas_alloc_spec ops m i)) =
        (if unat i \<in> own m then own m else insert (unat i) (own m))) \<and>
     (\<forall>m i. own (meson_canvas_free ops m i) = own m - {unat i}) \<and>
     (\<forall>m i a w h wr b e. own (meson_canvas_config ops m i a w h wr b e) = own m)"

text \<open>The pool with the mark \<open>used\<close> of the canvases from \<open>a\<close> up to \<open>b\<close> set to \<open>v\<close>.\<close>

definition marked :: "u32 \<Rightarrow> nat \<Rightarrow> nat \<Rightarrow> canvas_s list \<Rightarrow> canvas_s list" where
  "marked v a b pool = map (\<lambda>j. if a \<le> j \<and> j < b then (pool ! j)\<lparr>used := v\<rparr> else pool ! j) [0 ..< length pool]"

lemma length_marked [simp]: "length (marked v a b pool) = length pool"
  by (simp add: marked_def)

lemma marked_nth: "j < length pool \<Longrightarrow>
    marked v a b pool ! j = (if a \<le> j \<and> j < b then (pool ! j)\<lparr>used := v\<rparr> else pool ! j)"
  by (simp add: marked_def)

lemma marked_none [simp]: "marked v a a pool = pool"
  by (rule nth_equalityI) (auto simp: marked_nth)

lemma marked_Suc:
  assumes "a \<le> b" "b < length pool"
  shows "(marked v a b pool)[b := (marked v a b pool ! b)\<lparr>used := v\<rparr>] = marked v a (Suc b) pool"
  using assms by (intro nth_equalityI) (auto simp: marked_nth nth_list_update)

lemma marked_marked: "marked v a b (marked w a b pool) = marked v a b pool"
  by (rule nth_equalityI) (auto simp: marked_nth)

lemma free_fold:
  assumes ok: "meson_ok ops own" and l: "length (canvasPool info) = 256" and "a \<le> b" "b \<le> 256"
  shows "own (meson_canvas (fold (\<lambda>j. free_one ops (of_nat j)) [a ..< b] info)) = own (meson_canvas info) - {a ..< b} \<and>
    canvasPool (fold (\<lambda>j. free_one ops (of_nat j)) [a ..< b] info) = marked 0 a b (canvasPool info)"
  using assms(3,4)
proof (induction b rule: dec_induct)
  case base
  then show ?case by simp
next
  case (step b)
  let ?i = "fold (\<lambda>j. free_one ops (of_nat j)) [a ..< b] info"
  have u: "unat (of_nat b :: u8) = b" using step.prems by (simp add: unat_of_nat take_bit_nat_eq_self)
  have "{a ..< Suc b} = insert b {a ..< b}" using step.hyps by auto
  with step u l ok show ?case
    by (auto simp: free_one_def set_used_def meson_ok_def marked_Suc)
qed

lemma alloc_range_loop_spec:
  assumes ok: "meson_ok ops own" and l: "length pool = 256" and stop: "stop < 255"
    and i: "unat start \<le> unat i" "unat i \<le> unat stop + 1"
    and p: "canvasPool info = marked 1 (unat start) (unat i) pool"
    and o: "own (meson_canvas info) = own0 \<union> {unat start ..< unat i}" "own0 \<inter> {unat start ..< unat i} = {}"
  shows "\<exists>info' r. alloc_range_loop ops start stop i info = Some (info', r) \<and>
    (if own0 \<inter> {unat i .. unat stop} = {}
     then r = 0 \<and> own (meson_canvas info') = own0 \<union> {unat start .. unat stop} \<and>
          canvasPool info' = marked 1 (unat start) (unat stop + 1) pool
     else r = -1 \<and> own (meson_canvas info') = own0 \<and>
          (\<exists>c \<in> own0 \<inter> {unat i .. unat stop}. canvasPool info' = marked 0 (unat start) c pool))"
  using i p o
proof (induction "unat stop + 1 - unat i" arbitrary: i info)
  case 0
  have e: "unat i = unat stop + 1" using 0 by simp
  then have "\<not> i \<le> stop" by (simp add: word_le_nat_alt)
  moreover have "{unat start ..< unat stop + 1} = {unat start .. unat stop}" by auto
  ultimately show ?case using 0 e by (subst alloc_range_loop.simps) auto
next
  case (Suc k)
  have le: "unat i \<le> unat stop" "i \<le> stop" using Suc.hyps(2) by (auto simp: word_le_nat_alt)
  have n: "unat (i + 1) = unat i + 1" using le(1) stop by (simp add: word_less_nat_alt unat_word_ariths)
  obtain m r where mr: "meson_canvas_alloc_spec ops (meson_canvas info) i = (m, r)" by fastforce
  have R: "r = 0 \<longleftrightarrow> unat i \<notin> own0" "own m = (if unat i \<in> own0 then own (meson_canvas info) else insert (unat i) (own (meson_canvas info)))"
    using ok mr Suc.prems(4) unfolding meson_ok_def by (metis fst_conv snd_conv Un_iff atLeastLessThan_iff less_irrefl)+
  show ?case
  proof (cases "unat i \<in> own0")
    case True
    let ?info = "info\<lparr>meson_canvas := m\<rparr>"
    have b: "unat i \<le> 256" using le(1) stop by (simp add: word_less_nat_alt)
    have lp: "length (canvasPool ?info) = 256" using Suc.prems(3) l by simp
    have "alloc_range_loop ops start stop i info = Some (free_back ops start i ?info, -1)"
      using le(2) mr R(1) True by (subst alloc_range_loop.simps) simp
    moreover have "own (meson_canvas (free_back ops start i ?info)) = own0"
      using free_fold [OF ok lp Suc.prems(1) b] R(2) True Suc.prems(4,5) by (auto simp: free_back_def)
    moreover have "canvasPool (free_back ops start i ?info) = marked 0 (unat start) (unat i) pool"
      using free_fold [OF ok lp Suc.prems(1) b] Suc.prems(3) by (simp add: free_back_def marked_marked)
    moreover have "unat i \<in> own0 \<inter> {unat i .. unat stop}" using True le(1) by simp
    ultimately show ?thesis by auto
  next
    case False
    let ?info = "set_used 1 i (info\<lparr>meson_canvas := m\<rparr>)"
    have s: "{unat start ..< unat (i + 1)} = insert (unat i) {unat start ..< unat i}" using n Suc.prems(1) by auto
    have "\<exists>info' r. alloc_range_loop ops start stop (i + 1) ?info = Some (info', r) \<and>
      (if own0 \<inter> {unat (i + 1) .. unat stop} = {}
       then r = 0 \<and> own (meson_canvas info') = own0 \<union> {unat start .. unat stop} \<and>
            canvasPool info' = marked 1 (unat start) (unat stop + 1) pool
       else r = -1 \<and> own (meson_canvas info') = own0 \<and>
            (\<exists>c \<in> own0 \<inter> {unat (i + 1) .. unat stop}. canvasPool info' = marked 0 (unat start) c pool))"
    proof (rule Suc.hyps(1))
      show "canvasPool ?info = marked 1 (unat start) (unat (i + 1)) pool"
        using marked_Suc [of "unat start" "unat i" pool 1] Suc.prems(1,3) l n le(1) stop
        by (simp add: set_used_def word_less_nat_alt)
      show "own (meson_canvas ?info) = own0 \<union> {unat start ..< unat (i + 1)}"
        using R(2) False Suc.prems(4) s by (simp add: set_used_def)
      show "own0 \<inter> {unat start ..< unat (i + 1)} = {}" using Suc.prems(5) s False by simp
    qed (use Suc.hyps(2) n Suc.prems(1) le(1) in auto)
    moreover have "own0 \<inter> {unat i .. unat stop} = own0 \<inter> {unat (i + 1) .. unat stop}"
      using False n le(1) by (auto simp: Suc_le_eq order_le_less)
    moreover have "alloc_range_loop ops start stop i info = alloc_range_loop ops start stop (i + 1) ?info"
      using le(2) mr R(1) False by (subst alloc_range_loop.simps) simp
    ultimately show ?thesis by (simp only:)
  qed
qed

section \<open>Reachable states\<close>

text \<open>The cached lookup table words of a canvas are those of its fields.\<close>

definition lut_cached :: "canvas_s \<Rightarrow> bool" where
  "lut_cached p \<longleftrightarrow> (dataL p, dataH p) =
     canvas_lut_data_build (cv_addr p) (cv_width p) (cv_height p) (cv_wrap p) (cv_blkmode p) (cv_endian p)"

definition canvas_inv :: "'m canvas_device_info \<Rightarrow> bool" where
  "canvas_inv info \<longleftrightarrow> length (canvasPool info) = 256 \<and> list_all lut_cached (canvasPool info)"

definition zero_canvas :: canvas_s where
  "zero_canvas = \<lparr>cv_addr = 0, cv_width = 0, cv_height = 0, cv_wrap = 0, cv_blkmode = 0, cv_endian = 0,
     dataL = 0, dataH = 0, used = 0\<rparr>"

definition zero_info :: "'m \<Rightarrow> 'm canvas_device_info" where
  "zero_info m = \<lparr>canvasPool = replicate 256 zero_canvas, meson_canvas = m\<rparr>"

inductive canvas_reach :: "'m meson_ops \<Rightarrow> 'm canvas_device_info \<Rightarrow> bool" for ops where
  start: "canvas_reach ops (zero_info m)"
| alloc: "canvas_reach ops info \<Longrightarrow> alloc_canvas_range ops info a b = Some (info', r) \<Longrightarrow> canvas_reach ops info'"
| free: "canvas_reach ops info \<Longrightarrow> free_canvas_range ops info a b = Some info' \<Longrightarrow> canvas_reach ops info'"
| config_ex: "canvas_reach ops info \<Longrightarrow> canvas_reach ops (canvas_config_ex ops info i addr w h wr bl en)"
| config: "canvas_reach ops info \<Longrightarrow> canvas_reach ops (canvas_config ops info i addr w h wr bl)"
| config_config: "canvas_reach ops info \<Longrightarrow> canvas_reach ops (canvas_config_config ops info i cfg)"
| copy: "canvas_reach ops info \<Longrightarrow> canvas_reach ops (canvas_copy ops info src dst)"
| update: "canvas_reach ops info \<Longrightarrow> canvas_reach ops (canvas_update_addr ops info i a)"

lemma lut_cached_used [simp]: "lut_cached (p\<lparr>used := v\<rparr>) = lut_cached p"
  by (simp add: lut_cached_def)

lemma list_all_update: "list_all P xs \<Longrightarrow> (n < length xs \<Longrightarrow> P x) \<Longrightarrow> list_all P (xs[n := x])"
  by (cases "n < length xs") (auto simp: list_all_length nth_list_update)

lemma canvas_inv_set_used:
  assumes "canvas_inv info"
  shows "canvas_inv (set_used v i info)"
proof -
  have "list_all lut_cached ((canvasPool info)[unat i := (canvasPool info ! unat i)\<lparr>used := v\<rparr>])"
    using assms by (intro list_all_update) (auto simp: canvas_inv_def list_all_length)
  then show ?thesis using assms by (simp add: canvas_inv_def set_used_def)
qed

lemma canvas_inv_meson [simp]: "canvas_inv (info\<lparr>meson_canvas := m\<rparr>) = canvas_inv info"
  by (simp add: canvas_inv_def)

lemma canvas_inv_free_one: "canvas_inv info \<Longrightarrow> canvas_inv (free_one ops j info)"
  by (simp add: free_one_def canvas_inv_set_used)

lemma canvas_inv_fold: "canvas_inv info \<Longrightarrow> canvas_inv (fold (\<lambda>j. free_one ops (f j)) js info)"
  by (induction js arbitrary: info) (auto simp: canvas_inv_free_one)

lemma canvas_inv_config_locked:
  assumes "canvas_inv info"
  shows "canvas_inv (canvas_config_locked ops info i p)"
proof -
  obtain l h where lh: "canvas_lut_data_build (cv_addr p) (cv_width p) (cv_height p) (cv_wrap p) (cv_blkmode p)
      (cv_endian p) = (l, h)" by fastforce
  then have "lut_cached (p\<lparr>dataL := l, dataH := h\<rparr>)" by (simp add: lut_cached_def)
  then show ?thesis using assms lh
    by (auto simp: canvas_inv_def canvas_config_locked_def intro!: list_all_update)
qed

lemma canvas_inv_alloc:
  assumes "alloc_range_loop ops start stop i info = Some (info', r)" and "canvas_inv info"
  shows "canvas_inv info'"
proof -
  have "canvas_inv info \<longrightarrow> canvas_inv (fst (info', r))"
    by (rule alloc_range_loop.raw_induct [where P = "\<lambda>ops start stop i info y. canvas_inv info \<longrightarrow> canvas_inv (fst y)",
        OF _ assms(1)])
      (auto simp: Let_def free_back_def canvas_inv_set_used intro!: canvas_inv_fold split: prod.splits if_splits)
  with assms(2) show ?thesis by simp
qed

lemma canvas_inv_free:
  assumes "free_range_loop ops stop i info = Some info'" and "canvas_inv info"
  shows "canvas_inv info'"
proof -
  have "canvas_inv info \<longrightarrow> canvas_inv info'"
    by (rule free_range_loop.raw_induct [where P = "\<lambda>ops stop i info y. canvas_inv info \<longrightarrow> canvas_inv y", OF _ assms(1)])
      (auto simp: canvas_inv_free_one split: if_splits)
  with assms(2) show ?thesis by simp
qed

lemma canvas_reach_inv: "canvas_reach ops info \<Longrightarrow> canvas_inv info"
proof (induction rule: canvas_reach.induct)
  case (start m)
  have "canvas_lut_data_build 0 0 0 0 0 0 = (0, 0)" by (simp add: canvas_lut_data_build_def)
  then show ?case by (simp add: canvas_inv_def zero_info_def zero_canvas_def lut_cached_def list_all_iff)
next
  case (alloc info a b info' r)
  then show ?case by (auto simp: alloc_canvas_range_def intro: canvas_inv_alloc)
next
  case (free info a b info')
  then show ?case by (auto simp: free_canvas_range_def intro: canvas_inv_free)
qed (auto simp: canvas_config_ex_def canvas_config_def canvas_config_config_def canvas_copy_def
    canvas_update_addr_def Let_def intro: canvas_inv_config_locked)


section \<open>Properties\<close>

text \<open>A provider that keeps the set of canvases handed out, for the witnesses.\<close>

definition set_ops :: "nat set meson_ops" where
  "set_ops = \<lparr>meson_canvas_alloc_spec = \<lambda>m i. if unat i \<in> m then (m, - EBUSY) else (insert (unat i) m, 0),
     meson_canvas_free = \<lambda>m i. m - {unat i}, meson_canvas_config = \<lambda>m i a w h wr b e. m\<rparr>"

lemma set_ops_ok: "meson_ok set_ops (\<lambda>m. m)"
  by (simp add: meson_ok_def set_ops_def)

lemma zero_info_simps:
  "length (canvasPool (zero_info m)) = 256" "j < 256 \<Longrightarrow> canvasPool (zero_info m) ! j = zero_canvas"
  "meson_canvas (zero_info m) = m"
  by (simp_all add: zero_info_def nth_replicate)

lemma one_canvas:
  "\<exists>info. canvas_reach set_ops info \<and> CANVAS_VALID info 5 \<and> \<not> CANVAS_VALID info 6"
proof -
  let ?z = "zero_info ({} :: nat set)"
  obtain info r where a: "alloc_range_loop set_ops 5 5 5 ?z = Some (info, r)"
    "canvasPool info = marked 1 5 6 (canvasPool ?z)"
    using alloc_range_loop_spec [OF set_ops_ok, of "canvasPool ?z" 5 5 5 ?z "{}"]
    by (auto simp: zero_info_simps)
  have "canvas_reach set_ops info"
    using canvas_reach.alloc [OF canvas_reach.start, of set_ops "{}" 5 5 info r] a(1)
    by (simp add: alloc_canvas_range_def)
  then show ?thesis using a(2)
    by (intro exI [of _ info]) (simp add: CANVAS_VALID_def marked_nth zero_info_simps zero_canvas_def)
qed

text \<open>C20: The cached lookup table words are never stale.  In every state that the operations of the driver
  reach, in any order and whatever the provider answers, the words \<open>dataL\<close> and \<open>dataH\<close> of a canvas in
  use are those \<open>canvas_lut_data_build\<close> computes from its other fields.\<close>

theorem canvas_lut_cached:
  assumes "canvas_reach ops info" and "CANVAS_VALID info (unat i)" and "c = canvas_read info i p"
  shows "(dataL c, dataH c) =
    canvas_lut_data_build (cv_addr c) (cv_width c) (cv_height c) (cv_wrap c) (cv_blkmode c) (cv_endian c)"
  using canvas_reach_inv [OF assms(1)] assms(2,3)
  by (simp add: canvas_inv_def canvas_read_def CANVAS_VALID_def list_all_length lut_cached_def)

lemma canvas_fields:
  "p\<lparr>cv_addr := a, cv_width := w, cv_height := h, cv_wrap := wr, cv_blkmode := bl, cv_endian := en, dataL := l, dataH := hh\<rparr> =
   \<lparr>cv_addr = a, cv_width = w, cv_height = h, cv_wrap = wr, cv_blkmode = bl, cv_endian = en, dataL = l, dataH = hh, used = used p\<rparr>"
  by (cases p) simp

theorem canvas_lut_cached_witness:
  "\<exists>info. canvas_reach set_ops info \<and> CANVAS_VALID info 5 \<and>
     (let c = canvas_read (canvas_config set_ops info 5 0x10000000 1920 1080 0 0) 5 zero_canvas in
      dataL c = 0x02000000 \<and> dataH c = 0x0008701e)"
proof -
  obtain info where i: "canvas_reach set_ops info" "CANVAS_VALID info 5" using one_canvas by blast
  let ?i = "canvas_config set_ops info 5 0x10000000 1920 1080 0 0"
  have l: "length (canvasPool info) = 256" using canvas_reach_inv [OF i(1)] by (simp add: canvas_inv_def)
  have v: "CANVAS_VALID ?i (unat (5 :: u32))"
    using i(2) l by (simp add: canvas_config_def canvas_config_ex_def canvas_config_locked_def CANVAS_VALID_def Let_def
        case_prod_unfold)
  have f: "cv_addr (canvas_read ?i 5 zero_canvas) = 0x10000000" "cv_width (canvas_read ?i 5 zero_canvas) = 1920"
    "cv_height (canvas_read ?i 5 zero_canvas) = 1080" "cv_wrap (canvas_read ?i 5 zero_canvas) = 0"
    "cv_blkmode (canvas_read ?i 5 zero_canvas) = 0" "cv_endian (canvas_read ?i 5 zero_canvas) = 0"
    using i(2) l v by (simp_all add: canvas_read_def canvas_config_def canvas_config_ex_def canvas_config_locked_def Let_def
        case_prod_unfold)
  have b: "canvas_lut_data_build 0x10000000 1920 1080 0 0 0 = (0x02000000, 0x0008701e)"
    by (simp add: canvas_lut_data_build_def drop_bit_eq_div push_bit_eq_mult)
  from canvas_lut_cached [OF canvas_reach.config [OF i(1)] v refl, of zero_canvas] f b i show ?thesis
    by (auto simp: Let_def)
qed

text \<open>The effect of a configuration.  For a canvas in use, \<open>canvas_config_ex\<close> passes exactly the given
  values to the canvas provider, later reads return them with the new table words, no other canvas
  changes and none changes its state of use.  For a canvas that is not in use nothing happens, and
  the queries return 0.\<close>

theorem canvas_config_effect:
  assumes inv: "canvas_reach ops info" and i: "unat i < 256"
    and c: "info' = canvas_config_ex ops info i addr w h wr bl en"
  shows "if CANVAS_VALID info (unat i)
     then meson_canvas info' = meson_canvas_config ops (meson_canvas info) (ucast i) addr w h wr bl en \<and>
       (\<forall>j < 256. CANVAS_VALID info' j = CANVAS_VALID info j) \<and>
       (\<forall>j < 256. j \<noteq> unat i \<longrightarrow> canvasPool info' ! j = canvasPool info ! j) \<and>
       canvas_get_addr info' i = Some (ucast addr) \<and> canvas_get_width info' i = w \<and> canvas_get_height info' i = h \<and>
       canvas_read info' i q = \<lparr>cv_addr = addr, cv_width = w, cv_height = h, cv_wrap = wr, cv_blkmode = bl, cv_endian = en,
         dataL = fst (canvas_lut_data_build addr w h wr bl en), dataH = snd (canvas_lut_data_build addr w h wr bl en),
         used = used (canvasPool info ! unat i)\<rparr>
     else info' = info \<and> canvas_get_width info' i = 0 \<and> canvas_get_height info' i = 0 \<and> canvas_read info' i q = q"
proof (cases "CANVAS_VALID info (unat i)")
  case False
  then show ?thesis
    using c by (simp add: canvas_config_ex_def canvas_get_width_def canvas_get_height_def canvas_read_def)
next
  case True
  have l: "length (canvasPool info) = 256" using canvas_reach_inv [OF inv] by (simp add: canvas_inv_def)
  let ?c = "\<lparr>cv_addr = addr, cv_width = w, cv_height = h, cv_wrap = wr, cv_blkmode = bl, cv_endian = en,
         dataL = fst (canvas_lut_data_build addr w h wr bl en), dataH = snd (canvas_lut_data_build addr w h wr bl en),
         used = used (canvasPool info ! unat i)\<rparr>"
  have p: "canvasPool info' = (canvasPool info)[unat i := ?c]"
    and m: "meson_canvas info' = meson_canvas_config ops (meson_canvas info) (ucast i) addr w h wr bl en"
    using c True by (simp_all add: canvas_config_ex_def canvas_config_locked_def Let_def case_prod_unfold canvas_fields)
  have ci: "canvasPool info' ! unat i = ?c" unfolding p using l i by (intro nth_list_update_eq) simp
  have u: "canvasPool info' ! j = canvasPool info ! j" if "j \<noteq> unat i" for j
    unfolding p using that by (intro nth_list_update_neq) simp
  have v: "CANVAS_VALID info' j = CANVAS_VALID info j" for j
    by (cases "j = unat i") (simp_all add: CANVAS_VALID_def ci u)
  have l': "length (canvasPool info') = 256" unfolding p using l by simp
  have r: "canvas_read info' i q = ?c" "canvas_get_addr info' i = Some (ucast addr)" "canvas_get_width info' i = w"
    "canvas_get_height info' i = h"
    using v [of "unat i"] True l' i
    by (simp_all add: canvas_read_def canvas_get_addr_def canvas_get_width_def canvas_get_height_def ci)
  show ?thesis unfolding if_P [OF True] using m v u r by (intro conjI allI impI)
qed

theorem canvas_config_effect_witness:
  "\<exists>info. canvas_reach set_ops info \<and> CANVAS_VALID info 5 \<and>
     canvas_get_width (canvas_config_ex set_ops info 5 0x10000000 1920 1080 0 0 0) 5 = 1920 \<and>
     canvas_config_ex set_ops info 6 0x10000000 1920 1080 0 0 0 = info"
proof -
  obtain info where i: "canvas_reach set_ops info" "CANVAS_VALID info 5" "\<not> CANVAS_VALID info 6" using one_canvas by blast
  show ?thesis
    using canvas_config_effect [OF i(1) _ refl, of 5 "0x10000000" 1920 1080 0 0 0]
      canvas_config_effect [OF i(1) _ refl, of 6 "0x10000000" 1920 1080 0 0 0] i by auto
qed

text \<open>C23: The allocation of a range is all or nothing.  When no canvas of the range is handed out, all of
  them are allocated and marked in use; when one is, the call fails and neither the provider nor
  the pool keeps any trace of it.\<close>

theorem alloc_canvas_range_all_or_nothing:
  assumes ok: "meson_ok ops own" and inv: "canvas_reach ops info" and se: "start \<le> stop" "stop < 255"
    and un: "\<forall>j. unat start \<le> j \<and> j \<le> unat stop \<longrightarrow> used (canvasPool info ! j) = 0"
  shows "\<exists>info' r. alloc_canvas_range ops info start stop = Some (info', r) \<and>
    (if own (meson_canvas info) \<inter> {unat start .. unat stop} = {}
     then r = 0 \<and> own (meson_canvas info') = own (meson_canvas info) \<union> {unat start .. unat stop} \<and>
       (\<forall>j < 256. CANVAS_VALID info' j \<longleftrightarrow> unat start \<le> j \<and> j \<le> unat stop \<or> CANVAS_VALID info j)
     else r = -1 \<and> own (meson_canvas info') = own (meson_canvas info) \<and> canvasPool info' = canvasPool info)"
proof -
  let ?o = "own (meson_canvas info)" and ?a = "unat start" and ?b = "unat stop"
  have l: "length (canvasPool info) = 256" using canvas_reach_inv [OF inv] by (simp add: canvas_inv_def)
  have ab: "?a \<le> ?b + 1" "?b < 255" using se by (auto simp: word_le_nat_alt word_less_nat_alt)
  have clean: "marked 0 ?a c (canvasPool info) = canvasPool info" if "c \<le> ?b" for c
    using un that l by (intro nth_equalityI) (auto simp: marked_nth)
  obtain info' r where A: "alloc_range_loop ops start stop start info = Some (info', r)"
    "if ?o \<inter> {?a .. ?b} = {} then r = 0 \<and> own (meson_canvas info') = ?o \<union> {?a .. ?b} \<and>
          canvasPool info' = marked 1 ?a (?b + 1) (canvasPool info)
     else r = -1 \<and> own (meson_canvas info') = ?o \<and>
          (\<exists>c \<in> ?o \<inter> {?a .. ?b}. canvasPool info' = marked 0 ?a c (canvasPool info))"
    using alloc_range_loop_spec [OF ok l se(2) order_refl ab(1), of info ?o] by auto
  then show ?thesis
    using l ab clean by (auto simp: alloc_canvas_range_def CANVAS_VALID_def marked_nth split: if_splits)
qed

theorem alloc_canvas_range_all_or_nothing_witness:
  "(\<exists>info'. alloc_canvas_range set_ops (zero_info {}) 0 0xef = Some (info', 0) \<and> meson_canvas info' = {0..0xef}) \<and>
   (\<exists>info'. alloc_canvas_range set_ops (zero_info {7}) 0 0xef = Some (info', -1) \<and> meson_canvas info' = {7})"
proof -
  have u: "\<forall>j. unat (0 :: u8) \<le> j \<and> j \<le> unat (0xef :: u8) \<longrightarrow> used (canvasPool (zero_info m) ! j) = 0" for m :: "nat set"
    by (simp add: zero_info_simps zero_canvas_def)
  note A = alloc_canvas_range_all_or_nothing [OF set_ops_ok canvas_reach.start _ _ u]
  show ?thesis using A [of "{}"] A [of "{7}"] by (auto simp: zero_info_simps)
qed

text \<open>C22: The layout of the lookup table.  Read as one 64-bit word with the field positions documented in the
  source, the two words hold the address in units of 8 bytes, the width in units of 8 bytes (for
  widths up to 32760 bytes), the height, the block mode and the endian control.  The wrap control
  field is always 0: the wrap bits are merged into the width field instead.\<close>

theorem canvas_lut_fields:
  fixes width :: u32
  assumes w: "unat width \<le> 8 * 4095" and lut: "lut = lut_word (canvas_lut_data_build addr width height wrap blkmode endian)"
  shows "lut_field 28 0 lut = take_bit 29 (drop_bit 3 (addr + 7)) \<and>
    lut_field 40 29 lut = (drop_bit 3 (ucast width + 7) OR push_bit 3 (ucast (wrap AND 3))) \<and>
    lut_field 53 41 lut = ucast (height AND 0x1fff) \<and>
    lut_field 55 54 lut = 0 \<and>
    lut_field 57 56 lut = ucast (blkmode AND 3) \<and>
    lut_field 61 58 lut = ucast (endian AND 0xf)"
proof -
  have b: "bit lut n \<longleftrightarrow> n < 32 \<and> bit (fst (canvas_lut_data_build addr width height wrap blkmode endian)) n \<or>
      32 \<le> n \<and> bit (snd (canvas_lut_data_build addr width height wrap blkmode endian)) (n - 32)" for n
    using bit_lut [of "fst (canvas_lut_data_build addr width height wrap blkmode endian)"
        "snd (canvas_lut_data_build addr width height wrap blkmode endian)" n] lut by simp
  note B = bit_field b lut_low lut_high mask_ands bit_simps width_bits [OF w]
  have 1: "lut_field 28 0 lut = take_bit 29 (drop_bit 3 (addr + 7))"
    by (rule bit_word_eqI) (auto simp: B add.commute)
  have 2: "lut_field 53 41 lut = ucast (height AND 0x1fff)"
    by (rule bit_word_eqI) (auto simp: B)
  have 3: "lut_field 55 54 lut = 0" 
    by (rule bit_word_eqI) (auto simp: B)
  have 4: "lut_field 57 56 lut = ucast (blkmode AND 3)" "lut_field 61 58 lut = ucast (endian AND 0xf)"
    by (rule bit_word_eqI, auto simp: B)+
  have 5: "lut_field 40 29 lut = (drop_bit 3 (ucast width + 7) OR push_bit 3 (ucast (wrap AND 3)))"
  proof (rule bit_word_eqI)
    fix n
    show "bit (lut_field 40 29 lut) n = bit (drop_bit 3 (ucast width + 7 :: u64) OR push_bit 3 (ucast (wrap AND 3))) n"
      by (cases "n < 3"; cases "n \<le> 11") (auto simp: B add.commute)
  qed
  show ?thesis using 1 2 3 4 5 by blast
qed

theorem canvas_lut_fields_witness:
  "lut_field 40 29 (lut_word (canvas_lut_data_build 0x10000000 1920 1080 0 0 0)) = 240 \<and>
   lut_field 40 29 (lut_word (canvas_lut_data_build 0x10000000 1920 1080 3 0 0)) = 248 \<and>
   lut_field 55 54 (lut_word (canvas_lut_data_build 0x10000000 1920 1080 3 0 0)) = 0"
  using canvas_lut_fields [of 1920 _ "0x10000000" 1080 0 0 0, OF _ refl] canvas_lut_fields [of 1920 _ "0x10000000" 1080 3 0 0, OF _ refl]
  by (simp add: drop_bit_eq_div push_bit_eq_mult)

end
