(* ===== verification/Canvas_Mgr.thy ===== *)
theory Canvas_Mgr
  imports Canvas Kernel_Text
begin

unbundle bit_operations_syntax

text \<open>
  The canvas pool, \<open>soc/amlogic/canvas/canvas_mgr.c\<close>: which of the 256 canvases belongs to whom, the
  allocation of single canvases and of sets of consecutive ones, tables of such sets, the canvases
  reserved at start, and the listing of the pool.  The probe of the driver (\<open>canvas.c\<close>), which
  starts the pool, is at the end.

  The bitmap functions of the kernel work on a list of 320 bits, the five words of \<open>canvas_map\<close>.  The
  locks are not modelled: the operations run one after the other.
\<close>

section \<open>State\<close>

record canvas_info =
  owner :: "cstr option"
  alloc_time :: u64
  oldowner :: "cstr option"
  fixed_onwer :: int

record canvas_pool =
  canvas_max :: int
  free_num :: int
  pinfo :: "canvas_info list"
  canvas_map :: "bool list"
  next_alloced_index :: int
  next_dump_index :: int
  last_cat_map :: u64

datatype canvas_map_type_e =
  CANVAS_MAP_TYPE_1 | CANVAS_MAP_TYPE_NV21 | CANVAS_MAP_TYPE_YUV | CANVAS_MAP_TYPE_4 | CANVAS_MAP_TYPE_MAX

primrec map_type_val :: "canvas_map_type_e \<Rightarrow> int" where
  "map_type_val CANVAS_MAP_TYPE_1 = 1"
| "map_type_val CANVAS_MAP_TYPE_NV21 = 2"
| "map_type_val CANVAS_MAP_TYPE_YUV = 3"
| "map_type_val CANVAS_MAP_TYPE_4 = 4"
| "map_type_val CANVAS_MAP_TYPE_MAX = 5"

abbreviation (input) CANVAS_MAX_NUM :: int where "CANVAS_MAX_NUM \<equiv> 256"

definition VALID_CANVAS :: "canvas_pool \<Rightarrow> int \<Rightarrow> bool" where
  "VALID_CANVAS pool n \<longleftrightarrow> n \<ge> 0 \<and> n < canvas_max pool"

text \<open>\<open>find_next_zero_bit\<close> of the kernel: the first zero bit at or after \<open>start\<close> and below \<open>sz\<close>, or \<open>sz\<close>.
  A negative start is a large unsigned number.\<close>

definition find_next_zero_bit :: "bool list \<Rightarrow> int \<Rightarrow> int \<Rightarrow> int" where
  "find_next_zero_bit bits sz start =
     (if start < 0 then sz
      else case find (\<lambda>j. \<not> bits ! j) [nat start ..< nat sz] of Some j \<Rightarrow> int j | None \<Rightarrow> sz)"

text \<open>\<open>test_and_set_bit\<close> and \<open>test_and_clear_bit\<close>: the new bits and the old value.\<close>

definition test_and_set_bit :: "int \<Rightarrow> bool list \<Rightarrow> (bool list \<times> bool) option" where
  "test_and_set_bit i bits = (if 0 \<le> i \<and> nat i < length bits then Some (bits[nat i := True], bits ! nat i) else None)"

definition test_and_clear_bit :: "int \<Rightarrow> bool list \<Rightarrow> (bool list \<times> bool) option" where
  "test_and_clear_bit i bits = (if 0 \<le> i \<and> nat i < length bits then Some (bits[nat i := False], bits ! nat i) else None)"

definition test_bit_at :: "int \<Rightarrow> bool list \<Rightarrow> bool option" where
  "test_bit_at i bits = (if 0 \<le> i \<and> nat i < length bits then Some (bits ! nat i) else None)"

definition upd_info :: "int \<Rightarrow> (canvas_info \<Rightarrow> canvas_info) \<Rightarrow> canvas_pool \<Rightarrow> canvas_pool option" where
  "upd_info i f pool =
     (if 0 \<le> i \<and> nat i < length (pinfo pool)
      then Some (pool\<lparr>pinfo := (pinfo pool)[nat i := f (pinfo pool ! nat i)]\<rparr>) else None)"

section \<open>Single canvases\<close>

text \<open>\<open>now\<close> is the value of \<open>jiffies\<close>.  The loop runs again when another processor took the bit in between.\<close>

partial_function (option) alloc_canvas_loop ::
    "canvas_pool \<Rightarrow> cstr option \<Rightarrow> u64 \<Rightarrow> int \<Rightarrow> bool \<Rightarrow> (canvas_pool \<times> int) option" where
  "alloc_canvas_loop pool own now start_index looped =
     (let i = find_next_zero_bit (canvas_map pool) (canvas_max pool) start_index in
      if \<not> VALID_CANVAS pool i then
        (if \<not> looped then alloc_canvas_loop pool own now 1 True else Some (pool, -1))
      else do {
        (bits, old) \<leftarrow> test_and_set_bit i (canvas_map pool);
        let pool = pool\<lparr>canvas_map := bits\<rparr>;
        if old then alloc_canvas_loop pool own now start_index looped
        else do {
          pool \<leftarrow> upd_info i (\<lambda>c. c\<lparr>oldowner := own, owner := own, alloc_time := now\<rparr>) pool;
          Some (pool, i)
        }
      })"

definition canvas_pool_map_alloc_canvas_in ::
    "canvas_pool \<Rightarrow> cstr option \<Rightarrow> u64 \<Rightarrow> (canvas_pool \<times> int) option" where
  "canvas_pool_map_alloc_canvas_in pool own now =
     do {
       (pool, index) \<leftarrow> alloc_canvas_loop pool own now (next_alloced_index pool) (next_alloced_index pool \<le> 1);
       if index > 0
       then Some (pool\<lparr>next_alloced_index := (if index + 1 < canvas_max pool then index + 1 else 1),
                       free_num := free_num pool - 1\<rparr>, index)
       else Some (pool, index)
     }"

definition canvas_pool_map_free_canvas_in :: "canvas_pool \<Rightarrow> int \<Rightarrow> (canvas_pool \<times> int) option" where
  "canvas_pool_map_free_canvas_in pool index =
     (if \<not> VALID_CANVAS pool index then Some (pool, -1)
      else do {
        (bits, _) \<leftarrow> test_and_clear_bit index (canvas_map pool);
        pool \<leftarrow> upd_info index (\<lambda>c. c\<lparr>oldowner := owner c, owner := None, alloc_time := 0\<rparr>) (pool\<lparr>canvas_map := bits\<rparr>);
        Some (pool\<lparr>free_num := free_num pool + 1\<rparr>, 0)
      })"

definition canvas_pool_canvas_num :: "canvas_pool \<Rightarrow> int" where
  "canvas_pool_canvas_num pool = canvas_max pool"

definition canvas_pool_get_canvas_info :: "canvas_pool \<Rightarrow> int \<Rightarrow> canvas_info \<Rightarrow> (canvas_info \<times> int) option" where
  "canvas_pool_get_canvas_info pool index info =
     (if \<not> VALID_CANVAS pool index then Some (info, -1)
      else if nat index < length (pinfo pool) then Some (pinfo pool ! nat index, 0) else None)"

definition canvas_pool_canvas_alloced :: "canvas_pool \<Rightarrow> int \<Rightarrow> u32 option" where
  "canvas_pool_canvas_alloced pool index =
     (if index < 0 \<or> index \<ge> canvas_max pool then Some 0
      else do { b \<leftarrow> test_bit_at index (canvas_map pool); Some (if b then 1 else 0) })"

section \<open>Sets of consecutive canvases\<close>

text \<open>The number of canvases a type takes, the allocations of one round, and what they give.\<close>

primrec map_type_count :: "canvas_map_type_e \<Rightarrow> nat" where
  "map_type_count CANVAS_MAP_TYPE_1 = 1"
| "map_type_count CANVAS_MAP_TYPE_NV21 = 2"
| "map_type_count CANVAS_MAP_TYPE_YUV = 3"
| "map_type_count CANVAS_MAP_TYPE_4 = 4"
| "map_type_count CANVAS_MAP_TYPE_MAX = 0"

primrec alloc_times :: "nat \<Rightarrow> canvas_pool \<Rightarrow> cstr option \<Rightarrow> u64 \<Rightarrow> (canvas_pool \<times> int list) option" where
  "alloc_times 0 pool own now = Some (pool, [])"
| "alloc_times (Suc n) pool own now =
     do {
       (pool, c) \<leftarrow> canvas_pool_map_alloc_canvas_in pool own now;
       (pool, cs) \<leftarrow> alloc_times n pool own now;
       Some (pool, c # cs)
     }"

fun consecutive :: "int list \<Rightarrow> bool" where
  "consecutive (c # d # cs) \<longleftrightarrow> d = c + 1 \<and> consecutive (d # cs)"
| "consecutive cs \<longleftrightarrow> True"

definition canvas_found :: "int list \<Rightarrow> bool" where
  "canvas_found cs \<longleftrightarrow> cs \<noteq> [] \<and> hd cs > 0 \<and> consecutive cs"

definition canvas_val :: "canvas_map_type_e \<Rightarrow> int list \<Rightarrow> u32" where
  "canvas_val ty cs =
     (case (ty, map of_int cs :: u32 list) of
        (CANVAS_MAP_TYPE_4, [c1, c2, c3, c4]) \<Rightarrow> c1 OR push_bit 8 c2 OR push_bit 16 c3 OR push_bit 24 c4
      | (CANVAS_MAP_TYPE_YUV, [c2, c3, c4]) \<Rightarrow> c2 OR push_bit 8 c3 OR push_bit 16 c4
      | (CANVAS_MAP_TYPE_NV21, [c3, c4]) \<Rightarrow> c3 OR push_bit 8 c4 OR push_bit 16 c4
      | (CANVAS_MAP_TYPE_1, [c4]) \<Rightarrow> c4
      | _ \<Rightarrow> 0)"

primrec free_positive :: "int list \<Rightarrow> canvas_pool \<Rightarrow> canvas_pool option" where
  "free_positive [] pool = Some pool"
| "free_positive (c # cs) pool =
     do {
       pool \<leftarrow> (if c > 0 then do { (pool, _) \<leftarrow> canvas_pool_map_free_canvas_in pool c; Some pool } else Some pool);
       free_positive cs pool
     }"

partial_function (option) continue_set_loop ::
    "canvas_pool \<Rightarrow> cstr option \<Rightarrow> u64 \<Rightarrow> canvas_map_type_e \<Rightarrow> int \<Rightarrow> int \<Rightarrow> (canvas_pool \<times> u32 \<times> int) option" where
  "continue_set_loop pool own now ty start found_retry =
     do {
       (pool, cs) \<leftarrow> alloc_times (map_type_count ty) pool own now;
       if canvas_found cs then Some (pool, canvas_val ty cs, 0)
       else do {
         pool \<leftarrow> free_positive cs pool;
         let pool = pool\<lparr>next_alloced_index := (if start + 1 < canvas_max pool - map_type_val ty then start + 1 else 1)\<rparr>;
         if found_retry < canvas_max pool then continue_set_loop pool own now ty start (found_retry + 1)
         else Some (pool, 0, -1)
       }
     }"

text \<open>The value is only stored through \<open>*canvas\<close> when the result is 0.\<close>

definition canvas_pool_map_alloc_canvas_continue_set ::
    "canvas_pool \<Rightarrow> cstr option \<Rightarrow> u64 \<Rightarrow> canvas_map_type_e \<Rightarrow> (canvas_pool \<times> u32 \<times> int) option" where
  "canvas_pool_map_alloc_canvas_continue_set pool own now ty =
     continue_set_loop pool own now ty (next_alloced_index pool) 0"

section \<open>Tables\<close>

definition free_canvas_entry :: "u32 \<Rightarrow> canvas_pool \<Rightarrow> canvas_pool option" where
  "free_canvas_entry t pool =
     (let canvas1 = uint (t AND 0xff); canvas2 = uint (drop_bit 8 t AND 0xff);
          canvas3 = uint (drop_bit 16 t AND 0xff); canvas4 = uint (drop_bit 24 t AND 0xff);
          free = (\<lambda>c pool. map_option fst (canvas_pool_map_free_canvas_in pool c))
      in do {
        pool \<leftarrow> (if canvas1 \<ge> 0 then free canvas1 pool else Some pool);
        pool \<leftarrow> (if canvas2 \<ge> 0 \<and> canvas2 \<noteq> canvas1 then free canvas2 pool else Some pool);
        pool \<leftarrow> (if canvas3 \<ge> 0 \<and> canvas3 \<noteq> canvas2 \<and> canvas3 \<noteq> canvas1 then free canvas3 pool else Some pool);
        if canvas4 \<ge> 0 \<and> canvas4 \<noteq> canvas3 \<and> canvas4 \<noteq> canvas2 \<and> canvas4 \<noteq> canvas1 then free canvas4 pool else Some pool
      })"

primrec free_entries :: "u32 list \<Rightarrow> canvas_pool \<Rightarrow> canvas_pool option" where
  "free_entries [] pool = Some pool"
| "free_entries (t # ts) pool = do { pool \<leftarrow> free_canvas_entry t pool; free_entries ts pool }"

definition canvas_pool_free_canvas_table :: "canvas_pool \<Rightarrow> u32 list \<Rightarrow> nat \<Rightarrow> (canvas_pool \<times> u32 list) option" where
  "canvas_pool_free_canvas_table pool tab sz =
     (if sz \<le> length tab then do {
        pool \<leftarrow> free_entries (take sz tab) pool;
        Some (pool, replicate sz 0 @ drop sz tab)
      }
      else None)"

primrec alloc_entries ::
    "nat \<Rightarrow> canvas_pool \<Rightarrow> cstr option \<Rightarrow> u64 \<Rightarrow> canvas_map_type_e \<Rightarrow> (canvas_pool \<times> u32 list \<times> int) option" where
  "alloc_entries 0 pool own now ty = Some (pool, [], 0)"
| "alloc_entries (Suc n) pool own now ty =
     do {
       (pool, canvas, err) \<leftarrow> canvas_pool_map_alloc_canvas_continue_set pool own now ty;
       if err \<noteq> 0 then Some (pool, [], err)
       else do { (pool, cs, err) \<leftarrow> alloc_entries n pool own now ty; Some (pool, canvas # cs, err) }
     }"

definition canvas_pool_alloc_canvas_table ::
    "canvas_pool \<Rightarrow> cstr option \<Rightarrow> u64 \<Rightarrow> u32 list \<Rightarrow> nat \<Rightarrow> canvas_map_type_e \<Rightarrow> (canvas_pool \<times> u32 list \<times> int) option" where
  "canvas_pool_alloc_canvas_table pool own now tab sz ty =
     (if sz \<le> length tab then do {
        let oldstart = next_alloced_index pool;
        (pool, cs, err) \<leftarrow> alloc_entries sz pool own now ty;
        let tab = cs @ drop (length cs) tab;
        if err \<noteq> 0 then
          (if length cs > 0 then do {
             (pool, tab) \<leftarrow> canvas_pool_free_canvas_table pool tab (length cs);
             Some (pool, tab, err)
           }
           else Some (pool, tab, err))
        else Some (pool\<lparr>next_alloced_index := (if oldstart + 1 \<ge> canvas_max pool then 1 else oldstart + 1)\<rparr>, tab, 0)
      }
      else None)"

section \<open>Constant canvases\<close>

primrec register_const_loop :: "nat \<Rightarrow> int \<Rightarrow> cstr option \<Rightarrow> u64 \<Rightarrow> canvas_pool \<Rightarrow> canvas_pool option" where
  "register_const_loop 0 index own now pool = Some pool"
| "register_const_loop (Suc n) index own now pool =
     do {
       (bits, _) \<leftarrow> test_and_set_bit index (canvas_map pool);
       pool \<leftarrow> upd_info index (\<lambda>c. c\<lparr>owner := own, oldowner := None, alloc_time := now, fixed_onwer := 1\<rparr>)
                 (pool\<lparr>canvas_map := bits\<rparr>);
       register_const_loop n (index + 1) own now pool
     }"

definition canvas_pool_register_const_canvas ::
    "canvas_pool \<Rightarrow> int \<Rightarrow> int \<Rightarrow> cstr option \<Rightarrow> u64 \<Rightarrow> (canvas_pool \<times> int) option" where
  "canvas_pool_register_const_canvas pool start_index end_index own now =
     do { pool \<leftarrow> register_const_loop (nat (end_index - start_index + 1)) start_index own now pool; Some (pool, 0) }"

definition canvas_pool_init :: canvas_pool where
  "canvas_pool_init =
     \<lparr>canvas_max = CANVAS_MAX_NUM, free_num = 0,
      pinfo = replicate 256 \<lparr>owner = None, alloc_time = 0, oldowner = None, fixed_onwer = 0\<rparr>,
      canvas_map = replicate 320 False, next_alloced_index = CANVAS_MAX_NUM div 2, next_dump_index = 0,
      last_cat_map = 0\<rparr>"

text \<open>The names as C strings: \<open>amvdec\<close>, \<open>vdin\<close>, \<open>osd\<close>, \<open>display\<close>, \<open>ppmgr\<close>, \<open>amlvideo2\<close>, \<open>encoder\<close>, \<open>reserve_new\<close>.\<close>

definition c_string :: "string \<Rightarrow> cstr" where
  "c_string cs = map of_char cs"

definition const_canvases :: "(int \<times> int \<times> string) list" where
  "const_canvases =
     [(0, 0x25, ''amvdec''), (0x26, 0x39, ''vdin''), (0x40, 0x48, ''osd''), (0x58, 0x6f, ''display''),
      (0x70, 0x77, ''ppmgr''), (0x78, 0xbf, ''amvdec''), (0xc0, 0xd7, ''amlvideo2''), (0xe4, 0xef, ''encoder''),
      (0xf0, 0xff, ''reserve_new'')]"

fun register_all :: "(int \<times> int \<times> string) list \<Rightarrow> u64 \<Rightarrow> canvas_pool \<Rightarrow> canvas_pool option" where
  "register_all [] now pool = Some pool"
| "register_all ((a, b, nm) # rs) now pool =
     do { (pool, _) \<leftarrow> canvas_pool_register_const_canvas pool a b (Some (c_string nm)) now; register_all rs now pool }"

definition canvas_pool_config :: "u64 \<Rightarrow> canvas_pool option" where
  "canvas_pool_config now = register_all const_canvases now canvas_pool_init"

text \<open>\<open>class_register\<close> is outside; its result is the result of \<open>amcanvas_manager_init\<close>, which the driver
  ignores.\<close>

definition amcanvas_manager_init :: "u64 \<Rightarrow> int \<Rightarrow> (canvas_pool \<times> int) option" where
  "amcanvas_manager_init now class_ret = do { pool \<leftarrow> canvas_pool_config now; Some (pool, class_ret) }"

fun static_loop :: "canvas_pool \<Rightarrow> cstr \<Rightarrow> nat list \<Rightarrow> u8 list \<Rightarrow> nat \<Rightarrow> nat \<Rightarrow> (u8 list \<times> nat) option" where
  "static_loop pool own [] tab j sz = Some (tab, j)"
| "static_loop pool own (i # is) tab j sz =
     (if j < sz then do {
        b \<leftarrow> test_bit_at (int i) (canvas_map pool);
        info \<leftarrow> (if i < length (pinfo pool) then Some (pinfo pool ! i) else None);
        m \<leftarrow> (if b \<and> fixed_onwer info \<noteq> 0 then do { o' \<leftarrow> owner info; Some (o' = own) } else Some False);
        if m then (if j < length tab then static_loop pool own is (tab[j := of_nat i]) (Suc j) sz else None)
        else static_loop pool own is tab j sz
      }
      else Some (tab, j))"

definition canvas_pool_get_static_canvas_by_name :: "canvas_pool \<Rightarrow> cstr \<Rightarrow> u8 list \<Rightarrow> nat \<Rightarrow> (u8 list \<times> nat) option" where
  "canvas_pool_get_static_canvas_by_name pool own tab sz =
     static_loop pool own [0 ..< nat (canvas_max pool)] tab 0 sz"

text \<open>\<open>kstrtoint\<close> is outside: its result and the value it parsed.\<close>

definition canvas_pool_debug_store :: "canvas_pool \<Rightarrow> int \<times> u32 \<Rightarrow> int \<Rightarrow> canvas_pool \<times> int" where
  "canvas_pool_debug_store pool parsed sz =
     (case parsed of (ret, val) \<Rightarrow>
        if ret \<noteq> 0 then (pool, - EINVAL)
        else if val = 1 then (pool\<lparr>next_dump_index := 0\<rparr>, sz)
        else if val = 2 then (pool\<lparr>next_alloced_index := 0\<rparr>, sz)
        else (pool, sz))"

section \<open>Pools of slots\<close>

text \<open>Allocating several slots one after the other, and freeing the ones that were obtained and are not
  slot 0.\<close>

primrec alloc_seq :: "('s \<Rightarrow> 'o \<Rightarrow> ('s \<times> int) option) \<Rightarrow> nat \<Rightarrow> 's \<Rightarrow> 'o \<Rightarrow> ('s \<times> int list) option" where
  "alloc_seq al 0 s ow = Some (s, [])"
| "alloc_seq al (Suc n) s ow = do { (s, c) \<leftarrow> al s ow; (s, cs) \<leftarrow> alloc_seq al n s ow; Some (s, c # cs) }"

primrec free_seq :: "('s \<Rightarrow> int \<Rightarrow> ('s \<times> int) option) \<Rightarrow> int list \<Rightarrow> 's \<Rightarrow> 's option" where
  "free_seq fr [] s = Some s"
| "free_seq fr (c # cs) s =
     do { s \<leftarrow> (if c > 0 then do { (s, _) \<leftarrow> fr s c; Some s } else Some s); free_seq fr cs s }"

text \<open>The slots a list of results stands for.\<close>

definition slots :: "int list \<Rightarrow> nat set" where
  "slots cs = {i. int i \<in> set cs}"

lemma slots_Cons [simp]: "slots (int i # cs) = insert i (slots cs)" "slots (-1 # cs) = slots cs" "slots [] = {}"
  by (auto simp: slots_def)

text \<open>The contract of a pool: an allocation takes a free slot for its owner or changes nothing, and a free
  gives the slot back.\<close>

locale slot_pool =
  fixes al :: "'s \<Rightarrow> 'o \<Rightarrow> ('s \<times> int) option"
    and fr :: "'s \<Rightarrow> int \<Rightarrow> ('s \<times> int) option"
    and view :: "'s \<Rightarrow> nat \<Rightarrow> 'o option"
    and inv :: "'s \<Rightarrow> bool"
    and N :: nat
  assumes al_ok: "inv s \<Longrightarrow> \<exists>s' r. al s ow = Some (s', r) \<and> inv s' \<and>
      ((\<exists>i < N. r = int i \<and> view s i = None \<and> view s' = (view s)(i \<mapsto> ow)) \<or> r = -1 \<and> view s' = view s)"
    and fr_ok: "inv s \<Longrightarrow> i < N \<Longrightarrow> \<exists>s'. fr s (int i) = Some (s', 0) \<and> inv s' \<and> view s' = (view s)(i := None)"
begin

text \<open>Slots obtained one after the other are new and different from each other.\<close>

lemma alloc_seq_fresh:
  "inv s \<Longrightarrow> \<exists>s' cs. alloc_seq al n s ow = Some (s', cs) \<and> inv s' \<and> length cs = n \<and>
     (\<forall>c \<in> set cs. c = -1 \<or> (\<exists>i < N. c = int i)) \<and> slots cs \<inter> dom (view s) = {} \<and> slots cs \<subseteq> {..< N} \<and>
     distinct (filter (\<lambda>c. c \<noteq> -1) cs) \<and>
     view s' = (\<lambda>i. if i \<in> slots cs then Some ow else view s i)"
proof (induction n arbitrary: s)
  case 0
  then show ?case by auto
next
  case (Suc n)
  obtain s1 r where 1: "al s ow = Some (s1, r)" "inv s1"
    "(\<exists>i < N. r = int i \<and> view s i = None \<and> view s1 = (view s)(i \<mapsto> ow)) \<or> r = -1 \<and> view s1 = view s"
    using al_ok [OF Suc.prems] by blast
  obtain s2 cs where 2: "alloc_seq al n s1 ow = Some (s2, cs)" "inv s2" "length cs = n"
    "\<forall>c \<in> set cs. c = -1 \<or> (\<exists>i < N. c = int i)" "slots cs \<inter> dom (view s1) = {}" "slots cs \<subseteq> {..< N}"
    "distinct (filter (\<lambda>c. c \<noteq> -1) cs)" "view s2 = (\<lambda>i. if i \<in> slots cs then Some ow else view s1 i)"
    using Suc.IH [OF 1(2)] by blast
  show ?case
  proof (cases "r = -1")
    case True
    then show ?thesis using 1 2 by (auto simp: slots_def)
  next
    case False
    then obtain i where i: "i < N" "r = int i" "view s i = None" "view s1 = (view s)(i \<mapsto> ow)" using 1(3) by auto
    have ni: "i \<notin> slots cs" using 2(5) i(4) by auto
    have "slots cs \<inter> dom (view s) = {}" using 2(5) i(4) by auto
    moreover have "int i \<notin> set cs" using ni by (simp add: slots_def)
    moreover have "view s2 = (\<lambda>j. if j \<in> insert i (slots cs) then Some ow else view s j)"
      using 2(8) i(4) ni by auto
    ultimately show ?thesis using 1(1) 2 i by (auto simp: domIff)
  qed
qed

text \<open>Freeing them again restores the view, up to slot 0, which is not given back.\<close>

lemma free_seq_view:
  "inv s \<Longrightarrow> \<forall>c \<in> set cs. c = -1 \<or> (\<exists>i < N. c = int i) \<Longrightarrow>
     \<exists>s'. free_seq fr cs s = Some s' \<and> inv s' \<and> view s' = (\<lambda>i. if i \<in> slots cs - {0} then None else view s i)"
proof (induction cs arbitrary: s)
  case Nil
  then show ?case by simp
next
  case (Cons c cs)
  have tail: "\<forall>c \<in> set cs. c = -1 \<or> (\<exists>i < N. c = int i)" using Cons.prems(2) by simp
  show ?case
  proof (cases "c > 0")
    case False
    have "slots (c # cs) - {0} = slots cs - {0}" using False by (auto simp: slots_def)
    then show ?thesis using Cons.IH [OF Cons.prems(1) tail] False by simp
  next
    case True
    then obtain i where i: "i < N" "c = int i" "i \<noteq> 0" using Cons.prems(2) by auto
    obtain s1 where 1: "fr s (int i) = Some (s1, 0)" "inv s1" "view s1 = (view s)(i := None)"
      using fr_ok [OF Cons.prems(1) i(1)] by blast
    obtain s2 where 2: "free_seq fr cs s1 = Some s2" "inv s2" "view s2 = (\<lambda>i. if i \<in> slots cs - {0} then None else view s1 i)"
      using Cons.IH [OF 1(2) tail] by blast
    have "view s2 = (\<lambda>j. if j \<in> slots (c # cs) - {0} then None else view s j)" using 2(3) 1(3) i by auto
    then show ?thesis using 1(1) 2(1,2) i True by auto
  qed
qed

lemma alloc_free_seq:
  assumes "inv s" and "view s 0 \<noteq> None"
  shows "\<exists>s1 cs s2. alloc_seq al n s ow = Some (s1, cs) \<and> free_seq fr cs s1 = Some s2 \<and> inv s2 \<and> view s2 = view s"
proof -
  obtain s1 cs where 1: "alloc_seq al n s ow = Some (s1, cs)" "inv s1" "\<forall>c \<in> set cs. c = -1 \<or> (\<exists>i < N. c = int i)"
    "slots cs \<inter> dom (view s) = {}" "view s1 = (\<lambda>i. if i \<in> slots cs then Some ow else view s i)"
    using alloc_seq_fresh [OF assms(1)] by blast
  obtain s2 where 2: "free_seq fr cs s1 = Some s2" "inv s2" "view s2 = (\<lambda>i. if i \<in> slots cs - {0} then None else view s1 i)"
    using free_seq_view [OF 1(2,3)] by blast
  have "view s2 i = view s i" for i
  proof (cases "i \<in> slots cs")
    case True
    then have "view s i = None" using 1(4) by auto
    then show ?thesis using True 2(3) assms(2) by auto
  qed (simp add: 2(3) 1(5))
  then have "view s2 = view s" by auto
  with 1(1) 2 show ?thesis by blast
qed

end

section \<open>The pool as a pool of slots\<close>

definition pool_wf :: "canvas_pool \<Rightarrow> bool" where
  "pool_wf pool \<longleftrightarrow> canvas_max pool = 256 \<and> length (pinfo pool) = 256 \<and> length (canvas_map pool) = 320 \<and>
     0 \<le> next_alloced_index pool \<and> next_alloced_index pool < 256"

definition canvas_owner :: "canvas_pool \<Rightarrow> nat \<Rightarrow> cstr option option" where
  "canvas_owner pool i = (if i < 256 \<and> canvas_map pool ! i then Some (owner (pinfo pool ! i)) else None)"

text \<open>The canvas an allocation takes: the first free one from the next index on, then from 1 on.\<close>

definition first_free :: "bool list \<Rightarrow> nat \<Rightarrow> nat option" where
  "first_free bits a = find (\<lambda>j. \<not> bits ! j) [a ..< 256]"

definition next_canvas :: "canvas_pool \<Rightarrow> nat option" where
  "next_canvas pool =
     (case first_free (canvas_map pool) (nat (next_alloced_index pool)) of
        Some j \<Rightarrow> Some j
      | None \<Rightarrow> if next_alloced_index pool \<le> 1 then None else first_free (canvas_map pool) 1)"

definition claim_canvas :: "nat \<Rightarrow> cstr option \<Rightarrow> u64 \<Rightarrow> canvas_pool \<Rightarrow> canvas_pool" where
  "claim_canvas j own now pool =
     pool\<lparr>canvas_map := (canvas_map pool)[j := True],
          pinfo := (pinfo pool)[j := (pinfo pool ! j)\<lparr>oldowner := own, owner := own, alloc_time := now\<rparr>]\<rparr>"

lemma first_free_Some: "first_free bits a = Some j \<Longrightarrow> a \<le> j \<and> j < 256 \<and> \<not> bits ! j"
  by (auto simp: first_free_def find_Some_iff)

lemma first_free_None: "first_free bits a = None \<longleftrightarrow> (\<forall>j. a \<le> j \<and> j < 256 \<longrightarrow> bits ! j)"
  by (auto simp: first_free_def find_None_iff)

lemma find_next_zero: "0 \<le> s \<Longrightarrow> find_next_zero_bit bits 256 s = (case first_free bits (nat s) of Some j \<Rightarrow> int j | None \<Rightarrow> 256)"
  by (simp add: find_next_zero_bit_def first_free_def)

lemma alloc_loop_hit:
  assumes "pool_wf pool" and "0 \<le> s" and "first_free (canvas_map pool) (nat s) = Some j"
  shows "alloc_canvas_loop pool own now s looped = Some (claim_canvas j own now pool, int j)"
  using assms first_free_Some [OF assms(3)]
  by (subst alloc_canvas_loop.simps)
    (simp add: pool_wf_def find_next_zero VALID_CANVAS_def test_and_set_bit_def upd_info_def claim_canvas_def)

lemma alloc_loop_miss:
  assumes "pool_wf pool" and "0 \<le> s" and "first_free (canvas_map pool) (nat s) = None"
  shows "alloc_canvas_loop pool own now s True = Some (pool, -1)"
    and "alloc_canvas_loop pool own now s False = alloc_canvas_loop pool own now 1 True"
  using assms by (subst alloc_canvas_loop.simps, simp add: pool_wf_def find_next_zero VALID_CANVAS_def)+

lemma alloc_canvas_eq:
  assumes "pool_wf pool"
  shows "canvas_pool_map_alloc_canvas_in pool own now = Some
    (case next_canvas pool of
       None \<Rightarrow> (pool, -1)
     | Some j \<Rightarrow> (if j = 0 then claim_canvas j own now pool
         else (claim_canvas j own now pool)\<lparr>next_alloced_index := (if j < 255 then int j + 1 else 1), free_num := free_num pool - 1\<rparr>, int j))"
proof -
  have nn: "0 \<le> next_alloced_index pool" "canvas_max pool = 256" using assms by (auto simp: pool_wf_def)
  have cm: "canvas_max (claim_canvas j own now pool) = 256" "free_num (claim_canvas j own now pool) = free_num pool" for j
    using nn by (simp_all add: claim_canvas_def)
  consider (hit) j where "first_free (canvas_map pool) (nat (next_alloced_index pool)) = Some j"
    | (wrap) j where "first_free (canvas_map pool) (nat (next_alloced_index pool)) = None" "next_alloced_index pool > 1"
        "first_free (canvas_map pool) (nat 1) = Some j"
    | (full) "first_free (canvas_map pool) (nat (next_alloced_index pool)) = None" "next_alloced_index pool > 1"
        "first_free (canvas_map pool) (nat 1) = None"
    | (low) "first_free (canvas_map pool) (nat (next_alloced_index pool)) = None" "next_alloced_index pool \<le> 1"
    by (metis not_le not_None_eq)
  then show ?thesis
  proof cases
    case hit
    then show ?thesis using alloc_loop_hit [OF assms nn(1) hit] cm
      by (auto simp: canvas_pool_map_alloc_canvas_in_def next_canvas_def)
  next
    case wrap
    then show ?thesis using alloc_loop_miss [OF assms nn(1) wrap(1)] alloc_loop_hit [OF assms _ wrap(3)] cm
      by (auto simp: canvas_pool_map_alloc_canvas_in_def next_canvas_def)
  next
    case full
    then show ?thesis using alloc_loop_miss [OF assms nn(1) full(1)] alloc_loop_miss [OF assms _ full(3)]
      by (auto simp: canvas_pool_map_alloc_canvas_in_def next_canvas_def)
  next
    case low
    then show ?thesis using alloc_loop_miss [OF assms nn(1) low(1)]
      by (auto simp: canvas_pool_map_alloc_canvas_in_def next_canvas_def)
  qed
qed

lemma claim_owner:
  assumes "pool_wf pool" and "j < 256"
  shows "canvas_owner (claim_canvas j own now pool) = (canvas_owner pool)(j \<mapsto> own)"
  using assms by (auto simp: canvas_owner_def claim_canvas_def pool_wf_def nth_list_update fun_eq_iff)

lemma claim_wf: "pool_wf pool \<Longrightarrow> pool_wf (claim_canvas j own now pool)"
  by (simp add: pool_wf_def claim_canvas_def)

lemma pool_wf_next: "pool_wf pool \<Longrightarrow> 0 \<le> n \<Longrightarrow> n < 256 \<Longrightarrow> pool_wf (pool\<lparr>next_alloced_index := n\<rparr>)"
  by (simp add: pool_wf_def)

lemma canvas_owner_simps [simp]:
  "canvas_owner (pool\<lparr>next_alloced_index := n\<rparr>) = canvas_owner pool"
  "canvas_owner (pool\<lparr>free_num := k\<rparr>) = canvas_owner pool"
  by (simp_all add: canvas_owner_def fun_eq_iff)

lemma next_canvas_free:
  assumes "pool_wf pool" and "next_canvas pool = Some j"
  shows "j < 256" and "canvas_owner pool j = None"
  using assms first_free_Some by (auto simp: next_canvas_def canvas_owner_def split: option.splits if_splits)

lemma next_canvas_None:
  assumes "pool_wf pool" and "next_canvas pool = None" and "0 < j" "j < 256"
  shows "canvas_owner pool j \<noteq> None"
  using assms by (auto simp: next_canvas_def canvas_owner_def first_free_None split: option.splits if_splits)

lemma alloc_canvas_spec:
  assumes wf: "pool_wf pool"
  shows "\<exists>pool' r. canvas_pool_map_alloc_canvas_in pool own now = Some (pool', r) \<and> pool_wf pool' \<and>
    ((\<exists>i < 256. r = int i \<and> canvas_owner pool i = None \<and> canvas_owner pool' = (canvas_owner pool)(i \<mapsto> own)) \<or>
     r = -1 \<and> canvas_owner pool' = canvas_owner pool)"
proof (cases "next_canvas pool")
  case None
  then show ?thesis using wf by (simp add: alloc_canvas_eq [OF wf])
next
  case (Some j)
  note J = next_canvas_free [OF wf Some]
  show ?thesis
    using Some J claim_owner [OF wf J(1), of own now] claim_wf [OF wf, of j own now]
    by (auto simp: alloc_canvas_eq [OF wf] pool_wf_def)
qed

lemma free_canvas_spec:
  assumes wf: "pool_wf pool" and i: "i < 256"
  shows "\<exists>pool'. canvas_pool_map_free_canvas_in pool (int i) = Some (pool', 0) \<and> pool_wf pool' \<and>
    canvas_owner pool' = (canvas_owner pool)(i := None)"
  using assms
  by (auto simp: canvas_pool_map_free_canvas_in_def VALID_CANVAS_def test_and_clear_bit_def upd_info_def pool_wf_def
      canvas_owner_def nth_list_update fun_eq_iff)

interpretation cpool: slot_pool "\<lambda>pool own. canvas_pool_map_alloc_canvas_in pool own now"
  canvas_pool_map_free_canvas_in canvas_owner pool_wf 256 for now
  by unfold_locales (use alloc_canvas_spec free_canvas_spec in blast)+

lemma alloc_times_seq: "alloc_times n pool own now = alloc_seq (\<lambda>pool own. canvas_pool_map_alloc_canvas_in pool own now) n pool own"
  by (induction n arbitrary: pool) simp_all

lemma free_positive_seq: "free_positive cs pool = free_seq canvas_pool_map_free_canvas_in cs pool"
  by (induction cs arbitrary: pool) simp_all

section \<open>Consecutive canvases\<close>

lemma consecutive_upt:
  assumes "consecutive (int c # cs)"
  shows "int c # cs = map int [c ..< c + Suc (length cs)]"
  using assms
proof (induction cs arbitrary: c)
  case Nil
  then show ?case by simp
next
  case (Cons d cs)
  then have d: "d = int (Suc c)" and cs: "consecutive (int (Suc c) # cs)" by (auto simp: add.commute)
  have "int (Suc c) # cs = map int [Suc c ..< Suc c + Suc (length cs)]" by (rule Cons.IH [OF cs])
  moreover have "[c ..< c + Suc (length (d # cs))] = c # [Suc c ..< Suc c + Suc (length cs)]"
    by (simp add: upt_conv_Cons del: upt_Suc)
  ultimately show ?case by (simp only: d list.map)
qed

text \<open>The outcome of a search for \<open>n\<close> consecutive canvases.\<close>

definition set_outcome ::
    "canvas_pool \<Rightarrow> cstr option \<Rightarrow> canvas_map_type_e \<Rightarrow> canvas_pool \<Rightarrow> u32 \<Rightarrow> int \<Rightarrow> bool" where
  "set_outcome pool own ty pool' v r \<longleftrightarrow>
     (let n = map_type_count ty in
      r = 0 \<and> 0 < n \<and> (\<exists>c > 0. c + n \<le> 256 \<and> (\<forall>i. c \<le> i \<and> i < c + n \<longrightarrow> canvas_owner pool i = None) \<and>
        v = canvas_val ty (map int [c ..< c + n]) \<and>
        canvas_owner pool' = (\<lambda>i. if c \<le> i \<and> i < c + n then Some own else canvas_owner pool i)) \<or>
      r = -1 \<and> canvas_owner pool' = canvas_owner pool)"

lemma round_found:
  assumes wf: "pool_wf pool" and a: "alloc_times (map_type_count ty) pool own now = Some (pool', cs)"
    and f: "canvas_found cs"
  shows "set_outcome pool own ty pool' (canvas_val ty cs) 0 \<and> pool_wf pool'"
proof -
  let ?n = "map_type_count ty"
  obtain A: "pool_wf pool'" "length cs = ?n" "slots cs \<inter> dom (canvas_owner pool) = {}" "slots cs \<subseteq> {..< 256}"
    "canvas_owner pool' = (\<lambda>i. if i \<in> slots cs then Some own else canvas_owner pool i)"
    using cpool.alloc_seq_fresh [OF wf, of now ?n own] a by (auto simp: alloc_times_seq)
  obtain d cs' where d: "cs = d # cs'" "0 < d" "consecutive (d # cs')" using f by (cases cs) (auto simp: canvas_found_def)
  define c where "c = nat d"
  have cs: "cs = int c # cs'" "0 < c" "consecutive (int c # cs')" using d by (simp_all add: c_def)
  have "?n = Suc (length cs')" using A(2) cs(1) by simp
  then have m: "cs = map int [c ..< c + ?n]" using consecutive_upt [OF cs(3)] cs(1) by (simp only:)
  then have sl: "slots cs = {c ..< c + ?n}" by (auto simp: slots_def)
  have n: "0 < ?n" using A(2) cs(1) by auto
  have "c + ?n - 1 \<in> slots cs" using sl n by simp
  then have "c + ?n \<le> 256" using A(4) by auto
  moreover have "\<forall>i. c \<le> i \<and> i < c + ?n \<longrightarrow> canvas_owner pool i = None" using A(3) sl by auto
  moreover have "canvas_owner pool' = (\<lambda>i. if c \<le> i \<and> i < c + ?n then Some own else canvas_owner pool i)"
    using A(5) sl by (auto simp: fun_eq_iff)
  moreover have "canvas_val ty cs = canvas_val ty (map int [c ..< c + ?n])" by (simp only: m [symmetric])
  ultimately show ?thesis unfolding set_outcome_def Let_def using A(1) n cs(2) by blast
qed

lemma round_not_found:
  assumes wf: "pool_wf pool" and z: "canvas_owner pool 0 \<noteq> None"
    and a: "alloc_times (map_type_count ty) pool own now = Some (pool1, cs)"
  shows "\<exists>pool2. free_positive cs pool1 = Some pool2 \<and> pool_wf pool2 \<and> canvas_owner pool2 = canvas_owner pool"
  using cpool.alloc_free_seq [OF wf z, of now "map_type_count ty" own] a by (auto simp: alloc_times_seq free_positive_seq)

lemma continue_set_step:
  assumes wf: "pool_wf pool" and z: "canvas_owner pool 0 \<noteq> None" and st: "0 \<le> start" "start < 256"
  obtains (found) pool' v where "continue_set_loop pool own now ty start k = Some (pool', v, 0)"
      "pool_wf pool'" "set_outcome pool own ty pool' v 0"
    | (again) pool' where "pool_wf pool'" "canvas_owner pool' = canvas_owner pool"
      "continue_set_loop pool own now ty start k =
         (if k < 256 then continue_set_loop pool' own now ty start (k + 1) else Some (pool', 0, -1))"
proof -
  obtain pool1 cs where a: "alloc_times (map_type_count ty) pool own now = Some (pool1, cs)"
    using cpool.alloc_seq_fresh [OF wf, of now "map_type_count ty" own] by (auto simp: alloc_times_seq)
  show thesis
  proof (cases "canvas_found cs")
    case True
    have "continue_set_loop pool own now ty start k = Some (pool1, canvas_val ty cs, 0)"
      using a True by (subst continue_set_loop.simps) simp
    then show thesis using round_found [OF wf a True] by (intro found) auto
  next
    case False
    obtain pool2 where p2: "free_positive cs pool1 = Some pool2" "pool_wf pool2" "canvas_owner pool2 = canvas_owner pool"
      using round_not_found [OF wf z a] by blast
    let ?n = "if start + 1 < 256 - map_type_val ty then start + 1 else 1"
    have n: "0 \<le> ?n" "?n < 256" using st by (cases ty; simp)+
    have "continue_set_loop pool own now ty start k =
        (if k < 256 then continue_set_loop (pool2\<lparr>next_alloced_index := ?n\<rparr>) own now ty start (k + 1)
         else Some (pool2\<lparr>next_alloced_index := ?n\<rparr>, 0, -1))"
      using a False p2(1,2) by (subst continue_set_loop.simps) (simp add: pool_wf_def Let_def)
    then show thesis using p2 pool_wf_next [OF p2(2) n] by (intro again) auto
  qed
qed

lemma set_outcome_cong:
  "canvas_owner p = canvas_owner pool \<Longrightarrow> set_outcome p own ty pool' v r = set_outcome pool own ty pool' v r"
  by (simp add: set_outcome_def cong: if_cong)

lemma continue_set_outcome:
  assumes wf: "pool_wf pool" and z: "canvas_owner pool 0 \<noteq> None" and st: "0 \<le> start" "start < 256"
  shows "\<exists>pool' v r. continue_set_loop pool own now ty start (256 - int m) = Some (pool', v, r) \<and> pool_wf pool' \<and>
    set_outcome pool own ty pool' v r"
  using wf z
proof (induction m arbitrary: pool)
  case 0
  show ?case
    by (rule continue_set_step [OF 0 st, of own now ty "256 - int 0"])
      (auto simp: set_outcome_def Let_def)
next
  case (Suc m)
  show ?case
  proof (rule continue_set_step [OF Suc.prems st, of own now ty "256 - int (Suc m)"], goal_cases)
    case (1 pool' v)
    then show ?case by blast
  next
    case (2 pool')
    have "256 - int (Suc m) + 1 = 256 - int m" by simp
    moreover obtain p v r where "continue_set_loop pool' own now ty start (256 - int m) = Some (p, v, r)" "pool_wf p"
      "set_outcome pool' own ty p v r"
      using Suc.IH [OF 2(1)] 2(2) Suc.prems(2) by auto
    ultimately show ?case using 2 set_outcome_cong [OF 2(2)] by auto
  qed
qed

section \<open>Tables of canvases\<close>

text \<open>The four bytes of an entry.\<close>

definition entry_bytes :: "u32 \<Rightarrow> nat set" where
  "entry_bytes t = {unat (t AND 0xff), unat (drop_bit 8 t AND 0xff), unat (drop_bit 16 t AND 0xff), unat (drop_bit 24 t AND 0xff)}"

lemma byte_bound: "unat ((t :: u32) AND 0xff) < 256"
proof -
  have "t AND 0xff \<le> 0xff" by (rule word_and_le1)
  then show ?thesis by (simp add: word_le_nat_alt)
qed

lemma free_opt_spec:
  assumes "pool_wf pool" and "i < 256"
  shows "\<exists>pool'. map_option fst (canvas_pool_map_free_canvas_in pool (int i)) = Some pool' \<and> pool_wf pool' \<and>
    canvas_owner pool' = (canvas_owner pool)(i := None)"
  using free_canvas_spec [OF assms] by force

lemma free_unless_spec:
  assumes "pool_wf pool" and "i < 256" and "\<not> P \<Longrightarrow> canvas_owner pool i = None"
  shows "\<exists>pool'. (if P then map_option fst (canvas_pool_map_free_canvas_in pool (int i)) else Some pool) = Some pool' \<and>
    pool_wf pool' \<and> canvas_owner pool' = (canvas_owner pool)(i := None)"
  using free_opt_spec [OF assms(1,2)] assms by (cases P) (auto simp: fun_eq_iff)

lemma free_entry_spec:
  assumes wf: "pool_wf pool"
  shows "\<exists>pool'. free_canvas_entry t pool = Some pool' \<and> pool_wf pool' \<and>
    canvas_owner pool' = (\<lambda>i. if i \<in> entry_bytes t then None else canvas_owner pool i)"
proof -
  define a where "a = unat (t AND 0xff)"
  define b where "b = unat (drop_bit 8 t AND 0xff)"
  define c where "c = unat (drop_bit 16 t AND 0xff)"
  define d where "d = unat (drop_bit 24 t AND 0xff)"
  note D = a_def b_def c_def d_def
  have l: "a < 256" "b < 256" "c < 256" "d < 256" unfolding D by (rule byte_bound)+
  obtain p1 where 1: "map_option fst (canvas_pool_map_free_canvas_in pool (int a)) = Some p1" "pool_wf p1"
    "canvas_owner p1 = (canvas_owner pool)(a := None)" using free_opt_spec [OF wf l(1)] by blast
  obtain p2 where 2: "(if b \<noteq> a then map_option fst (canvas_pool_map_free_canvas_in p1 (int b)) else Some p1) = Some p2"
    "pool_wf p2" "canvas_owner p2 = (canvas_owner p1)(b := None)"
    using free_unless_spec [OF 1(2) l(2), of "b \<noteq> a"] 1(3) by auto
  have h3: "canvas_owner p2 c = None" if "\<not> (c \<noteq> b \<and> c \<noteq> a)" using that 2(3) 1(3) by auto
  obtain p3 where 3: "(if c \<noteq> b \<and> c \<noteq> a then map_option fst (canvas_pool_map_free_canvas_in p2 (int c)) else Some p2) = Some p3"
    "pool_wf p3" "canvas_owner p3 = (canvas_owner p2)(c := None)"
    using free_unless_spec [OF 2(2) l(3) h3] by blast
  have h4: "canvas_owner p3 d = None" if "\<not> (d \<noteq> c \<and> d \<noteq> b \<and> d \<noteq> a)" using that 3(3) 2(3) 1(3) by auto
  obtain p4 where 4: "(if d \<noteq> c \<and> d \<noteq> b \<and> d \<noteq> a then map_option fst (canvas_pool_map_free_canvas_in p3 (int d)) else Some p3) = Some p4"
    "pool_wf p4" "canvas_owner p4 = (canvas_owner p3)(d := None)"
    using free_unless_spec [OF 3(2) l(4) h4] by blast
  have u: "uint (t AND 0xff) = int a" "uint (drop_bit 8 t AND 0xff) = int b" "uint (drop_bit 16 t AND 0xff) = int c"
    "uint (drop_bit 24 t AND 0xff) = int d" unfolding D by simp_all
  have "free_canvas_entry t pool = Some p4"
    unfolding free_canvas_entry_def u Let_def by (simp add: 1(1) 2(1) 3(1) 4(1) del: map_option_eq_Some)
  moreover have "entry_bytes t = {a, b, c, d}" by (simp add: entry_bytes_def D)
  ultimately show ?thesis using 4(2,3) 3(3) 2(3) 1(3) by auto
qed

lemma and_ff: "x AND 0xff = take_bit 8 (x :: u32)"
  by (simp add: take_bit_eq_mask mask_eq_exp_minus_1)

lemma byte_bits:
  assumes "(x :: u32) < 256" and "8 \<le> n"
  shows "\<not> bit x n"
proof -
  have "unat x < 2 ^ 8" using assms(1) by (simp add: word_less_nat_alt)
  also have "(2 :: nat) ^ 8 \<le> 2 ^ n" using assms(2) by (rule power_increasing) simp
  finally have "\<not> bit (unat x) n" by (simp add: bit_iff_odd)
  then show ?thesis by (simp add: bit_unsigned_iff)
qed

lemma bytes_bit:
  "bit ((a :: u32) OR push_bit 8 b OR push_bit 16 c OR push_bit 24 d) n \<longleftrightarrow>
     bit a n \<or> 8 \<le> n \<and> n < 32 \<and> bit b (n - 8) \<or> 16 \<le> n \<and> n < 32 \<and> bit c (n - 16) \<or> 24 \<le> n \<and> n < 32 \<and> bit d (n - 24)"
  by (auto simp: bit_simps)

lemma bytes_of:
  fixes a b c d :: u32
  assumes "a < 256" "b < 256" "c < 256" "d < 256" and t: "t = a OR push_bit 8 b OR push_bit 16 c OR push_bit 24 d"
  shows "t AND 0xff = a" "drop_bit 8 t AND 0xff = b" "drop_bit 16 t AND 0xff = c" "drop_bit 24 t AND 0xff = d"
proof -
  note S = byte_bits [OF assms(1)] byte_bits [OF assms(2)] byte_bits [OF assms(3)] byte_bits [OF assms(4)]
  have b8: "bit (drop_bit k t AND 0xff) n \<longleftrightarrow> n < 8 \<and> bit t (k + n)" for k n
    by (auto simp: and_ff bit_simps)
  have B: "drop_bit k t AND 0xff = x" if "\<And>n. n < 8 \<Longrightarrow> bit t (k + n) = bit x n" "x < 256" for k x
  proof (rule bit_word_eqI)
    fix n
    show "bit (drop_bit k t AND 0xff) n = bit x n"
      using that(1) [of n] byte_bits [OF that(2), of n] by (cases "n < 8") (simp_all add: b8)
  qed
  show "t AND 0xff = a" using B [of 0 a] assms(1) by (simp add: t bytes_bit)
  show "drop_bit 8 t AND 0xff = b" using assms(2) S by (intro B) (auto simp: t bytes_bit)
  show "drop_bit 16 t AND 0xff = c" using assms(3) S by (intro B) (auto simp: t bytes_bit)
  show "drop_bit 24 t AND 0xff = d" using assms(4) S by (intro B) (auto simp: t bytes_bit)
qed

lemma canvas_val_bytes:
  assumes "c + map_type_count ty \<le> 256" and "ty \<noteq> CANVAS_MAP_TYPE_MAX"
  shows "entry_bytes (canvas_val ty (map int [c ..< c + map_type_count ty])) =
    {c ..< c + map_type_count ty} \<union> (if ty = CANVAS_MAP_TYPE_4 then {} else {0})"
proof -
  have u: "unat (of_nat n :: u32) = n" "(of_nat n :: u32) < 256" if "n < 256" for n
    using that by (simp_all add: unat_of_nat32 word_less_nat_alt)
  show ?thesis
  proof (cases ty)
    case CANVAS_MAP_TYPE_1
    have e: "canvas_val ty (map int [c ..< c + map_type_count ty]) = of_nat c"
      using CANVAS_MAP_TYPE_1 by (simp add: canvas_val_def)
    have c: "c < 256" using assms(1) CANVAS_MAP_TYPE_1 by simp
    note B = bytes_of [OF u(2) [OF c] _ _ _ refl, of 0 0 0]
    show ?thesis unfolding e using B u(1) [OF c] CANVAS_MAP_TYPE_1 by (auto simp: entry_bytes_def)
  next
    case CANVAS_MAP_TYPE_NV21
    have e: "canvas_val ty (map int [c ..< c + map_type_count ty]) = of_nat c OR push_bit 8 (of_nat (c + 1)) OR push_bit 16 (of_nat (c + 1))"
      using CANVAS_MAP_TYPE_NV21 by (simp add: canvas_val_def upt_rec)
    have c: "c < 256" "c + 1 < 256" using assms(1) CANVAS_MAP_TYPE_NV21 by simp_all
    note B = bytes_of [OF u(2) [OF c(1)] u(2) [OF c(2)] u(2) [OF c(2)] _ refl, of 0]
    show ?thesis unfolding e using B u(1) [OF c(1)] u(1) [OF c(2)] CANVAS_MAP_TYPE_NV21 by (auto simp: entry_bytes_def)
  next
    case CANVAS_MAP_TYPE_YUV
    have e: "canvas_val ty (map int [c ..< c + map_type_count ty]) = of_nat c OR push_bit 8 (of_nat (c + 1)) OR push_bit 16 (of_nat (c + 2))"
      using CANVAS_MAP_TYPE_YUV by (simp add: canvas_val_def upt_rec)
    have c: "c < 256" "c + 1 < 256" "c + 2 < 256" using assms(1) CANVAS_MAP_TYPE_YUV by simp_all
    note B = bytes_of [OF u(2) [OF c(1)] u(2) [OF c(2)] u(2) [OF c(3)] _ refl, of 0]
    show ?thesis unfolding e using B u(1) [OF c(1)] u(1) [OF c(2)] u(1) [OF c(3)] CANVAS_MAP_TYPE_YUV by (auto simp: entry_bytes_def)
  next
    case CANVAS_MAP_TYPE_4
    have e: "canvas_val ty (map int [c ..< c + map_type_count ty]) =
        of_nat c OR push_bit 8 (of_nat (c + 1)) OR push_bit 16 (of_nat (c + 2)) OR push_bit 24 (of_nat (c + 3))"
      using CANVAS_MAP_TYPE_4 by (simp add: canvas_val_def upt_rec add.commute)
    have c: "c < 256" "c + 1 < 256" "c + 2 < 256" "c + 3 < 256" using assms(1) CANVAS_MAP_TYPE_4 by simp_all
    note B = bytes_of [OF u(2) [OF c(1)] u(2) [OF c(2)] u(2) [OF c(3)] u(2) [OF c(4)] refl]
    show ?thesis unfolding e using B u(1) [OF c(1)] u(1) [OF c(2)] u(1) [OF c(3)] u(1) [OF c(4)] CANVAS_MAP_TYPE_4
      by (auto simp: entry_bytes_def)
  qed (use assms in simp)
qed

text \<open>The canvases of a table whose entries start at \<open>bs\<close>, and the entries.\<close>

definition blocks :: "nat \<Rightarrow> nat list \<Rightarrow> nat list" where
  "blocks k bs = concat (map (\<lambda>c. [c ..< c + k]) bs)"

definition entry_at :: "canvas_map_type_e \<Rightarrow> nat \<Rightarrow> u32" where
  "entry_at ty c = canvas_val ty (map int [c ..< c + map_type_count ty])"

lemma blocks_simps [simp]: "blocks k [] = []" "blocks k (c # bs) = [c ..< c + k] @ blocks k bs"
  by (simp_all add: blocks_def)

lemma free_entries_view:
  assumes "pool_wf pool" and "\<forall>c \<in> set bs. c + map_type_count ty \<le> 256" and "ty \<noteq> CANVAS_MAP_TYPE_MAX"
  shows "\<exists>pool'. free_entries (map (entry_at ty) bs) pool = Some pool' \<and> pool_wf pool' \<and>
    canvas_owner pool' = (\<lambda>i. if i \<in> set (blocks (map_type_count ty) bs) \<or> (bs \<noteq> [] \<and> ty \<noteq> CANVAS_MAP_TYPE_4 \<and> i = 0)
       then None else canvas_owner pool i)"
  using assms(1,2)
proof (induction bs arbitrary: pool)
  case Nil
  then show ?case by simp
next
  case (Cons c bs)
  obtain p1 where 1: "free_canvas_entry (entry_at ty c) pool = Some p1" "pool_wf p1"
    "canvas_owner p1 = (\<lambda>i. if i \<in> entry_bytes (entry_at ty c) then None else canvas_owner pool i)"
    using free_entry_spec [OF Cons.prems(1)] by blast
  have b: "entry_bytes (entry_at ty c) = {c ..< c + map_type_count ty} \<union> (if ty = CANVAS_MAP_TYPE_4 then {} else {0})"
    unfolding entry_at_def using Cons.prems(2) assms(3) by (intro canvas_val_bytes) auto
  obtain p2 where 2: "free_entries (map (entry_at ty) bs) p1 = Some p2" "pool_wf p2"
    "canvas_owner p2 = (\<lambda>i. if i \<in> set (blocks (map_type_count ty) bs) \<or> (bs \<noteq> [] \<and> ty \<noteq> CANVAS_MAP_TYPE_4 \<and> i = 0)
       then None else canvas_owner p1 i)"
    using Cons.IH [OF 1(2)] Cons.prems(2) by auto
  have "canvas_owner p2 i = (if i \<in> set (blocks (map_type_count ty) (c # bs)) \<or> (ty \<noteq> CANVAS_MAP_TYPE_4 \<and> i = 0)
       then None else canvas_owner pool i)" for i
    using 2(3) 1(3) b by (auto split: if_splits)
  then show ?case using 1(1) 2(1,2) by auto
qed

definition entries_outcome ::
    "canvas_pool \<Rightarrow> cstr option \<Rightarrow> canvas_map_type_e \<Rightarrow> canvas_pool \<Rightarrow> nat list \<Rightarrow> bool" where
  "entries_outcome pool own ty pool' bs \<longleftrightarrow>
     (let k = map_type_count ty in
      (\<forall>c \<in> set bs. 0 < c \<and> c + k \<le> 256) \<and> distinct (blocks k bs) \<and>
      (\<forall>i \<in> set (blocks k bs). canvas_owner pool i = None) \<and>
      canvas_owner pool' = (\<lambda>i. if i \<in> set (blocks k bs) then Some own else canvas_owner pool i))"

lemma alloc_entries_outcome:
  assumes "pool_wf pool" and "canvas_owner pool 0 \<noteq> None"
  shows "\<exists>pool' bs err. alloc_entries n pool own now ty = Some (pool', map (entry_at ty) bs, err) \<and> pool_wf pool' \<and>
    entries_outcome pool own ty pool' bs \<and> (err = 0 \<and> length bs = n \<or> err = -1 \<and> length bs < n)"
  using assms
proof (induction n arbitrary: pool)
  case 0
  then show ?case by (auto simp: entries_outcome_def)
next
  case (Suc n)
  let ?k = "map_type_count ty"
  have st: "0 \<le> next_alloced_index pool" "next_alloced_index pool < 256" using Suc.prems(1) by (auto simp: pool_wf_def)
  obtain p1 v r where 1: "canvas_pool_map_alloc_canvas_continue_set pool own now ty = Some (p1, v, r)" "pool_wf p1"
    "set_outcome pool own ty p1 v r"
    using continue_set_outcome [OF Suc.prems st, of own now ty 256] by (auto simp: canvas_pool_map_alloc_canvas_continue_set_def)
  show ?case
  proof (cases "r = 0")
    case False
    then have "r = -1" "canvas_owner p1 = canvas_owner pool" using 1(3) by (auto simp: set_outcome_def Let_def)
    then show ?thesis using 1 by (auto simp: entries_outcome_def intro!: exI [of _ "[]"])
  next
    case True
    then obtain c where c: "0 < ?k" "0 < c" "c + ?k \<le> 256" "\<forall>i. c \<le> i \<and> i < c + ?k \<longrightarrow> canvas_owner pool i = None"
      "v = entry_at ty c" "canvas_owner p1 = (\<lambda>i. if c \<le> i \<and> i < c + ?k then Some own else canvas_owner pool i)"
      using 1(3) by (auto simp: set_outcome_def Let_def entry_at_def)
    have z: "canvas_owner p1 0 \<noteq> None" using c(2,6) Suc.prems(2) by auto
    obtain p2 bs err where 2: "alloc_entries n p1 own now ty = Some (p2, map (entry_at ty) bs, err)" "pool_wf p2"
      "entries_outcome p1 own ty p2 bs" "err = 0 \<and> length bs = n \<or> err = -1 \<and> length bs < n"
      using Suc.IH [OF 1(2) z] by blast
    have fresh: "\<not> (c \<le> i \<and> i < c + ?k)" "canvas_owner pool i = None" if "i \<in> set (blocks ?k bs)" for i
      using 2(3) that c(6) by (auto simp: entries_outcome_def Let_def split: if_splits)
    have "entries_outcome pool own ty p2 (c # bs)"
      using 2(3) c fresh by (auto simp: entries_outcome_def Let_def fun_eq_iff)
    then show ?thesis using 1(1) 2(1,2,4) True c(5) by (intro exI [of _ p2] exI [of _ "c # bs"] exI [of _ err]) auto
  qed
qed

section \<open>The constant canvases\<close>

lemma register_const_view:
  assumes "pool_wf pool" and "a + n \<le> 256"
  shows "\<exists>pool'. register_const_loop n (int a) own now pool = Some pool' \<and> pool_wf pool' \<and>
    next_alloced_index pool' = next_alloced_index pool \<and>
    canvas_owner pool' = (\<lambda>i. if a \<le> i \<and> i < a + n then Some own else canvas_owner pool i)"
  using assms
proof (induction n arbitrary: a pool)
  case 0
  then show ?case by (auto simp: fun_eq_iff)
next
  case (Suc n)
  let ?p = "pool\<lparr>canvas_map := (canvas_map pool)[a := True],
     pinfo := (pinfo pool)[a := (pinfo pool ! a)\<lparr>owner := own, oldowner := None, alloc_time := now, fixed_onwer := 1\<rparr>]\<rparr>"
  have wf: "pool_wf ?p" using Suc.prems(1) by (simp add: pool_wf_def)
  have o: "canvas_owner ?p = (canvas_owner pool)(a \<mapsto> own)"
    using Suc.prems by (auto simp: canvas_owner_def pool_wf_def nth_list_update fun_eq_iff)
  have e: "register_const_loop (Suc n) (int a) own now pool = register_const_loop n (int (Suc a)) own now ?p"
    using Suc.prems by (simp add: test_and_set_bit_def upd_info_def pool_wf_def add.commute)
  obtain p' where p': "register_const_loop n (int (Suc a)) own now ?p = Some p'" "pool_wf p'"
    "next_alloced_index p' = next_alloced_index ?p"
    "canvas_owner p' = (\<lambda>i. if Suc a \<le> i \<and> i < Suc a + n then Some own else canvas_owner ?p i)"
    using Suc.IH [OF wf, of "Suc a"] Suc.prems(2) by auto
  have "canvas_owner p' i = (if a \<le> i \<and> i < a + Suc n then Some own else canvas_owner pool i)" for i
    using p'(4) o by auto
  then show ?case using e p' by auto
qed

text \<open>The ranges of the configuration as a map.\<close>

fun const_owner :: "(int \<times> int \<times> string) list \<Rightarrow> (nat \<Rightarrow> cstr option option) \<Rightarrow> nat \<Rightarrow> cstr option option" where
  "const_owner [] m = m"
| "const_owner ((a, b, nm) # rs) m =
     const_owner rs (\<lambda>i. if a \<le> int i \<and> int i \<le> b then Some (Some (c_string nm)) else m i)"

lemma register_all_view:
  assumes "pool_wf pool" and "\<forall>(a, b, nm) \<in> set rs. 0 \<le> a \<and> a \<le> b \<and> b < 256"
  shows "\<exists>pool'. register_all rs now pool = Some pool' \<and> pool_wf pool' \<and>
    next_alloced_index pool' = next_alloced_index pool \<and> canvas_owner pool' = const_owner rs (canvas_owner pool)"
  using assms
proof (induction rs now pool rule: register_all.induct)
  case (1 now pool)
  then show ?case by simp
next
  case (2 a b nm rs now pool)
  have ab: "0 \<le> a" "a \<le> b" "b < 256" using "2.prems"(2) by auto
  have n: "nat a + nat (b - a + 1) \<le> 256" using ab by linarith
  obtain p1 where 1: "register_const_loop (nat (b - a + 1)) a (Some (c_string nm)) now pool = Some p1" "pool_wf p1"
    "next_alloced_index p1 = next_alloced_index pool"
    "canvas_owner p1 = (\<lambda>i. if nat a \<le> i \<and> i < nat a + nat (b - a + 1) then Some (Some (c_string nm)) else canvas_owner pool i)"
    using register_const_view [OF "2.prems"(1) n, of "Some (c_string nm)" now] ab by auto
  have o: "canvas_owner p1 = (\<lambda>i. if a \<le> int i \<and> int i \<le> b then Some (Some (c_string nm)) else canvas_owner pool i)"
    using 1(4) ab by (auto simp: fun_eq_iff nat_le_iff)
  have "canvas_pool_register_const_canvas pool a b (Some (c_string nm)) now = Some (p1, 0)"
    using 1(1) by (simp add: canvas_pool_register_const_canvas_def)
  moreover have "\<forall>(a, b, nm) \<in> set rs. 0 \<le> a \<and> a \<le> b \<and> b < 256" using "2.prems"(2) by simp
  ultimately show ?case using "2.IH" [of "(p1, 0)" p1 0] 1(2,3) o by auto
qed

definition free_canvases :: "nat set" where
  "free_canvases = {0x3a .. 0x3f} \<union> {0x49 .. 0x57} \<union> {0xd8 .. 0xe3}"

lemma pool_init_wf: "pool_wf canvas_pool_init" "canvas_owner canvas_pool_init = Map.empty"
  by (auto simp: pool_wf_def canvas_pool_init_def canvas_owner_def nth_replicate)

lemma config_owner_None:
  "const_owner const_canvases Map.empty i = None \<longleftrightarrow> i \<in> free_canvases \<or> 256 \<le> i"
  unfolding const_canvases_def free_canvases_def
  by (simp; linarith)

lemma canvas_pool_config_spec:
  "\<exists>pool. canvas_pool_config now = Some pool \<and> pool_wf pool \<and> next_alloced_index pool = 128 \<and>
     canvas_owner pool = const_owner const_canvases Map.empty"
proof -
  have "\<forall>(a, b, nm) \<in> set const_canvases. 0 \<le> a \<and> a \<le> b \<and> b < 256" by (simp add: const_canvases_def)
  moreover have "next_alloced_index canvas_pool_init = 128" by (simp add: canvas_pool_init_def)
  ultimately show ?thesis
    using register_all_view [OF pool_init_wf(1), of const_canvases now] pool_init_wf(2)
    by (simp add: canvas_pool_config_def)
qed

section \<open>Probe and removal of the driver\<close>

text \<open>\<open>meson_canvas_get\<close> and \<open>class_register\<close> are outside.  Without a provider there is no device.\<close>

definition canvas_probe ::
    "'m meson_ops \<Rightarrow> 'm option \<Rightarrow> canvas_pool \<Rightarrow> u64 \<Rightarrow> int \<Rightarrow> ('m canvas_device_info option \<times> canvas_pool \<times> int) option" where
  "canvas_probe ops provider pool now class_ret =
     (case provider of
        None \<Rightarrow> Some (None, pool, -1)
      | Some m \<Rightarrow> do {
          (info, r) \<leftarrow> alloc_canvas_range ops (zero_info m) 0 0xef;
          if r \<noteq> 0 then Some (Some info, pool, - EBUSY)
          else do {
            (pool, _) \<leftarrow> amcanvas_manager_init now class_ret;
            Some (Some info, pool, 0)
          }
        })"

definition canvas_remove :: "'m meson_ops \<Rightarrow> 'm canvas_device_info \<Rightarrow> ('m canvas_device_info \<times> int) option" where
  "canvas_remove ops info = do { info \<leftarrow> free_canvas_range ops info 0 0xef; Some (info, 0) }"

section \<open>A search that gives up\<close>

lemma alloc_canvas_at:
  assumes wf: "pool_wf pool" and n: "next_alloced_index pool = int n" and j: "n \<le> j" "j < 256" "0 < j"
    and f: "canvas_owner pool j = None" and t: "\<And>i. n \<le> i \<Longrightarrow> i < j \<Longrightarrow> canvas_owner pool i \<noteq> None"
  shows "\<exists>pool'. canvas_pool_map_alloc_canvas_in pool own now = Some (pool', int j) \<and> pool_wf pool' \<and>
    canvas_owner pool' = (canvas_owner pool)(j \<mapsto> own) \<and> next_alloced_index pool' = (if j < 255 then int j + 1 else 1)"
proof -
  have "first_free (canvas_map pool) n = Some j"
  proof -
    have b1: "\<not> canvas_map pool ! j" using f j(2) by (auto simp: canvas_owner_def split: if_splits)
    have b2: "canvas_map pool ! i" if "n \<le> i" "i < j" for i
      using t [OF that] that j(2) by (auto simp: canvas_owner_def split: if_splits)
    show ?thesis unfolding first_free_def find_Some_iff
      by (rule exI [of _ "j - n"]) (use b1 b2 j in auto)
  qed
  then have nx: "next_canvas pool = Some j" using n by (simp add: next_canvas_def)
  have "pool_wf (claim_canvas j own now pool)" using wf by (rule claim_wf)
  then show ?thesis
    using j claim_owner [OF wf j(2), of own now] nx
    by (auto simp: alloc_canvas_eq [OF wf] pool_wf_def)
qed

lemma search_round_fails:
  assumes wf: "pool_wf pool" and ow: "\<And>i. i < 256 \<Longrightarrow> canvas_owner pool i = None \<longleftrightarrow> i \<in> free_canvases"
    and n: "next_alloced_index pool = 0x3e \<or> next_alloced_index pool = 0x3f"
  shows "\<exists>pool' cs. alloc_times 4 pool own now = Some (pool', cs) \<and> \<not> canvas_found cs"
proof -
  note F = free_canvases_def
  show ?thesis
  proof (cases "next_alloced_index pool = 0x3e")
    case True
    obtain p1 where 1: "canvas_pool_map_alloc_canvas_in pool own now = Some (p1, int 0x3e)" "pool_wf p1"
      "canvas_owner p1 = (canvas_owner pool)(0x3e \<mapsto> own)" "next_alloced_index p1 = int 0x3f"
      using alloc_canvas_at [OF wf, of "0x3e" "0x3e" own now] True ow by (auto simp: F)
    obtain p2 where 2: "canvas_pool_map_alloc_canvas_in p1 own now = Some (p2, int 0x3f)" "pool_wf p2"
      "canvas_owner p2 = (canvas_owner p1)(0x3f \<mapsto> own)" "next_alloced_index p2 = int 0x40"
      using alloc_canvas_at [OF 1(2,4), of "0x3f" own now] 1(3) ow by (auto simp: F)
    have t: "canvas_owner p2 i \<noteq> None" if "0x40 \<le> i" "i < 0x49" for i
      using that 2(3) 1(3) ow [of i] by (auto simp: F)
    obtain p3 where 3: "canvas_pool_map_alloc_canvas_in p2 own now = Some (p3, int 0x49)" "pool_wf p3"
      using alloc_canvas_at [OF 2(2,4), of "0x49" own now] 2(3) 1(3) ow t by (auto simp: F)
    obtain p4 r where "canvas_pool_map_alloc_canvas_in p3 own now = Some (p4, r)"
      using alloc_canvas_spec [OF 3(2)] by blast
    then show ?thesis using 1(1) 2(1) 3(1) by (simp add: eval_nat_numeral canvas_found_def)
  next
    case False
    then have n: "next_alloced_index pool = int 0x3f" using n by simp
    obtain p1 where 1: "canvas_pool_map_alloc_canvas_in pool own now = Some (p1, int 0x3f)" "pool_wf p1"
      "canvas_owner p1 = (canvas_owner pool)(0x3f \<mapsto> own)" "next_alloced_index p1 = int 0x40"
      using alloc_canvas_at [OF wf n, of "0x3f" own now] ow by (auto simp: F)
    have t: "canvas_owner p1 i \<noteq> None" if "0x40 \<le> i" "i < 0x49" for i
      using that 1(3) ow [of i] by (auto simp: F)
    obtain p2 where 2: "canvas_pool_map_alloc_canvas_in p1 own now = Some (p2, int 0x49)" "pool_wf p2"
      using alloc_canvas_at [OF 1(2,4), of "0x49" own now] 1(3) ow t by (auto simp: F)
    obtain p3 q where 3: "canvas_pool_map_alloc_canvas_in p2 own now = Some (p3, q)" "pool_wf p3"
      using alloc_canvas_spec [OF 2(2)] by blast
    obtain p4 r where "canvas_pool_map_alloc_canvas_in p3 own now = Some (p4, r)"
      using alloc_canvas_spec [OF 3(2)] by blast
    then show ?thesis using 1(1) 2(1) 3(1) by (simp add: eval_nat_numeral canvas_found_def)
  qed
qed

lemma search_step:
  assumes wf: "pool_wf pool" and ow: "\<And>i. i < 256 \<Longrightarrow> canvas_owner pool i = None \<longleftrightarrow> i \<in> free_canvases"
    and n: "next_alloced_index pool = 0x3e \<or> next_alloced_index pool = 0x3f"
  shows "\<exists>pool'. pool_wf pool' \<and> canvas_owner pool' = canvas_owner pool \<and> next_alloced_index pool' = 0x3f \<and>
    continue_set_loop pool own now CANVAS_MAP_TYPE_4 0x3e k =
      (if k < 256 then continue_set_loop pool' own now CANVAS_MAP_TYPE_4 0x3e (k + 1) else Some (pool', 0, -1))"
proof -
  obtain p1 cs where a: "alloc_times 4 pool own now = Some (p1, cs)" "\<not> canvas_found cs"
    using search_round_fails [OF assms] by blast
  have z: "canvas_owner pool 0 \<noteq> None" using ow [of 0] by (simp add: free_canvases_def)
  obtain p2 where p2: "free_positive cs p1 = Some p2" "pool_wf p2" "canvas_owner p2 = canvas_owner pool"
    using round_not_found [OF wf z, of CANVAS_MAP_TYPE_4 own now p1 cs] a(1) by auto
  have "continue_set_loop pool own now CANVAS_MAP_TYPE_4 0x3e k =
      (if k < 256 then continue_set_loop (p2\<lparr>next_alloced_index := 0x3f\<rparr>) own now CANVAS_MAP_TYPE_4 0x3e (k + 1)
       else Some (p2\<lparr>next_alloced_index := 0x3f\<rparr>, 0, -1))"
    using a p2(1,2) by (subst continue_set_loop.simps) (simp add: pool_wf_def Let_def)
  then show ?thesis using p2 pool_wf_next [OF p2(2), of "0x3f"] by (intro exI [of _ "p2\<lparr>next_alloced_index := 0x3f\<rparr>"]) simp
qed

lemma search_gives_up:
  assumes "pool_wf pool" and "\<And>i. i < 256 \<Longrightarrow> canvas_owner pool i = None \<longleftrightarrow> i \<in> free_canvases"
    and "next_alloced_index pool = 0x3e \<or> next_alloced_index pool = 0x3f"
  shows "\<exists>pool'. continue_set_loop pool own now CANVAS_MAP_TYPE_4 0x3e (256 - int m) = Some (pool', 0, -1) \<and>
    canvas_owner pool' = canvas_owner pool"
  using assms
proof (induction m arbitrary: pool)
  case 0
  then show ?case using search_step [OF 0, of own now "256 - int 0"] by auto
next
  case (Suc m)
  obtain p where p: "pool_wf p" "canvas_owner p = canvas_owner pool" "next_alloced_index p = 0x3f"
    "continue_set_loop pool own now CANVAS_MAP_TYPE_4 0x3e (256 - int (Suc m)) =
       continue_set_loop p own now CANVAS_MAP_TYPE_4 0x3e (256 - int m)"
    using search_step [OF Suc.prems, of own now "256 - int (Suc m)"] by (auto simp: algebra_simps)
  show ?case using Suc.IH [OF p(1)] p(2,3,4) Suc.prems(2) by simp
qed

section \<open>The listing\<close>

text \<open>\<open>snprintf(buf + size, PAGE_SIZE - size, ...)\<close>: what is in the buffer and the new size.  A negative
  difference is a large unsigned number, for which the kernel writes nothing and returns 0.\<close>

definition snprintf_page :: "string \<Rightarrow> string \<times> int \<Rightarrow> string \<times> int" where
  "snprintf_page s bs =
     (case bs of (buf, sz) \<Rightarrow>
        if 4096 - sz < 0 then (buf, sz)
        else (buf @ take (nat (4096 - sz) - 1) s, sz + int (length s)))"

definition name_str :: "cstr option \<Rightarrow> string" where
  "name_str n = (case n of None \<Rightarrow> ''none'' | Some bs \<Rightarrow> map (\<lambda>b. char_of (unat b)) bs)"

definition tab :: string where "tab = [CHR 0x09]"

definition line_owner :: "nat \<Rightarrow> bool \<Rightarrow> canvas_info \<Rightarrow> string" where
  "line_owner i b info =
     ''cavas['' @ fmt_x 2 i @ ''],used='' @ fmt_d (if b then 1 else 0) @ '',fix='' @ fmt_d (fixed_onwer info) @
     tab @ ''own='' @ name_str (owner info) @ '','' @ tab @ ''oown='' @ name_str (oldowner info) @ '','' @
     tab @ ''t='' @ fmt_d (sint (alloc_time info)) @ '',''"

definition line_canvas :: "canvas_s \<Rightarrow> string" where
  "line_canvas c =
     tab @ ''addr='' @ fmt_x 8 (unat (ucast (cv_addr c) :: u32)) @ '','' @ tab @ ''s='' @ fmt_d (sint (cv_width c)) @ '' X '' @
     fmt_d (sint (cv_height c)) @ '','' @ tab @ ''rap='' @ fmt_d (sint (cv_wrap c)) @ '','' @
     tab @ ''mod='' @ fmt_d (sint (cv_blkmode c)) @ [CHR 0x0A]"

text \<open>\<open>info\<close> and \<open>c\<close> are the two local variables; \<open>c\<close> is not initialised in the source.\<close>

function map_show_loop ::
    "canvas_pool \<Rightarrow> 'm canvas_device_info \<Rightarrow> int \<Rightarrow> int \<Rightarrow> canvas_info \<Rightarrow> canvas_s \<Rightarrow> string \<times> int \<Rightarrow> (int \<times> string \<times> int) option" where
  "map_show_loop pool dev mx i info c bs =
     (if i < mx \<and> snd bs < 4096 - 256 then do {
        (info, _) \<leftarrow> canvas_pool_get_canvas_info pool i info;
        let c = canvas_read dev (of_int i) c;
        b \<leftarrow> test_bit_at i (canvas_map pool);
        map_show_loop pool dev mx (i + 1) info c
          (snprintf_page (line_canvas c) (snprintf_page (line_owner (nat i) b info) bs))
      }
      else Some (i, bs))"
  by pat_completeness auto
termination
  by (relation "measure (\<lambda>(pool, dev, mx, i, info, c, bs). nat (mx - i))") auto

declare map_show_loop.simps [simp del]

definition canvas_pool_map_show ::
    "canvas_pool \<Rightarrow> 'm canvas_device_info \<Rightarrow> u64 \<Rightarrow> u64 \<Rightarrow> canvas_s \<Rightarrow> (canvas_pool \<times> string \<times> int) option" where
  "canvas_pool_map_show pool dev now hz c =
     do {
       let mx = min (next_dump_index pool + 64) (canvas_max pool);
       let start = (if now - last_cat_map pool > 5 * hz then 0 else next_dump_index pool);
       (i, buf, sz) \<leftarrow> map_show_loop pool dev mx start
          \<lparr>owner = None, alloc_time = 0, oldowner = None, fixed_onwer = 0\<rparr> c ([], 0);
       Some (pool\<lparr>next_dump_index := (if i \<ge> canvas_max pool then 0 else i), last_cat_map := now\<rparr>, buf, sz)
     }"

definition info_short :: "canvas_info \<Rightarrow> bool" where
  "info_short c \<longleftrightarrow> length (name_str (owner c)) \<le> 54 \<and> length (name_str (oldowner c)) \<le> 54 \<and> fixed_onwer c \<in> {0, 1}"

lemma line_owner_length:
  assumes "info_short info" and "i < 256"
  shows "length (line_owner i b info) \<le> 167"
proof -
  have "length (fmt_x 2 i) = 2" using assms(2) by (intro fmt_x_length) auto
  moreover have "length (fmt_d (if b then 1 else 0)) = 1" by (intro fmt_d_small) auto
  moreover have "length (fmt_d (fixed_onwer info)) = 1" using assms(1) by (intro fmt_d_small) (simp add: info_short_def)
  moreover have "length (fmt_d (sint (alloc_time info))) \<le> 20" using fmt_d_length [of 19, OF _ sint_bounds64] by simp
  ultimately show ?thesis using assms(1) by (simp add: line_owner_def info_short_def tab_def)
qed

lemma line_canvas_length: "length (line_canvas c) \<le> 78"
proof -
  have x: "length (fmt_x 8 (unat (ucast (cv_addr c) :: u32))) = 8"
    using unsigned_less [of "ucast (cv_addr c) :: u32", where 'a = nat] by (intro fmt_x_length) auto
  have d: "length (fmt_d (sint (w :: u32))) \<le> 11" for w using fmt_d_length [of 10, OF _ sint_bounds32] by simp
  show ?thesis
    using x d [of "cv_width c"] d [of "cv_height c"] d [of "cv_wrap c"] d [of "cv_blkmode c"]
    by (simp add: line_canvas_def tab_def)
qed

lemma snprintf_fits: "sz + int (length s) < 4096 \<Longrightarrow> snprintf_page s (buf, sz) = (buf @ s, sz + int (length s))"
  by (simp add: snprintf_page_def)

lemma map_show_loop_bound:
  assumes "pool_wf pool" and "list_all info_short (pinfo pool)" and "0 \<le> i" "mx \<le> 256"
    and "snd bs = int (length (fst bs))" "snd bs < 4096"
  shows "\<exists>i' buf. map_show_loop pool dev mx i info c bs = Some (i', buf, int (length buf)) \<and> length buf < 4096 \<and>
    i \<le> i' \<and> (i < mx \<and> snd bs < 3840 \<longrightarrow> i < i')"
  using assms
proof (induction pool dev mx i info c bs rule: map_show_loop.induct)
  case (1 pool dev mx i info c bs)
  obtain buf sz where bs: "bs = (buf, sz)" by (cases bs)
  show ?case
  proof (cases "i < mx \<and> snd bs < 4096 - 256")
    case False
    then show ?thesis using "1.prems"(5,6) bs by (subst map_show_loop.simps) auto
  next
    case True
    let ?info = "pinfo pool ! nat i" and ?c = "canvas_read dev (of_int i) c" and ?b = "canvas_map pool ! nat i"
    have l: "length (pinfo pool) = 256" "length (canvas_map pool) = 320" "canvas_max pool = 256"
      using "1.prems"(1) by (auto simp: pool_wf_def)
    have i: "nat i < 256" using True "1.prems"(3,4) by linarith
    have g: "canvas_pool_get_canvas_info pool i info = Some (?info, 0)" "test_bit_at i (canvas_map pool) = Some ?b"
      using l i "1.prems"(3) by (auto simp: canvas_pool_get_canvas_info_def VALID_CANVAS_def test_bit_at_def)
    have sh: "info_short ?info" using "1.prems"(2) i l by (simp add: list_all_length)
    let ?l1 = "line_owner (nat i) ?b ?info" and ?l2 = "line_canvas ?c"
    let ?bs = "snprintf_page ?l2 (snprintf_page ?l1 bs)"
    have b: "?bs = (buf @ ?l1 @ ?l2, sz + int (length ?l1) + int (length ?l2))"
      using True bs line_owner_length [OF sh i, of ?b] line_canvas_length [of ?c] by (simp add: snprintf_fits)
    have e: "map_show_loop pool dev mx i info c bs = map_show_loop pool dev mx (i + 1) ?info ?c ?bs"
      using True g by (subst map_show_loop.simps) (simp add: Let_def)
    have "\<exists>i' buf. map_show_loop pool dev mx (i + 1) ?info ?c ?bs = Some (i', buf, int (length buf)) \<and> length buf < 4096 \<and>
        i + 1 \<le> i' \<and> (i + 1 < mx \<and> snd ?bs < 3840 \<longrightarrow> i + 1 < i')"
      by (rule "1.IH" [OF True g(1) refl refl g(2) "1.prems"(1,2)])
        (use "1.prems" True b bs line_owner_length [OF sh i, of ?b] line_canvas_length [of ?c] in auto)
    then show ?thesis unfolding e by force
  qed
qed

section \<open>Properties of the canvas pool\<close>

text \<open>C19: The pool refines a map from canvases to owners.  An allocation always returns; it fails only when
  the canvases 1 to 255 are all taken, and then changes nothing; otherwise it takes a canvas that
  was free for its owner, and freeing that canvas restores the map.\<close>

theorem canvas_pool_refines_map:
  assumes "pool_wf pool"
  shows "\<exists>pool' r. canvas_pool_map_alloc_canvas_in pool own now = Some (pool', r) \<and> pool_wf pool' \<and>
    (if r < 0 then pool' = pool \<and> (\<forall>j. 0 < j \<and> j < 256 \<longrightarrow> canvas_owner pool j \<noteq> None)
     else r < 256 \<and> canvas_owner pool (nat r) = None \<and> canvas_owner pool' = (canvas_owner pool)(nat r \<mapsto> own) \<and>
       (\<exists>pool''. canvas_pool_map_free_canvas_in pool' r = Some (pool'', 0) \<and> pool_wf pool'' \<and>
          canvas_owner pool'' = canvas_owner pool))"
proof (cases "next_canvas pool")
  case None
  then show ?thesis using assms next_canvas_None [OF assms None] by (simp add: alloc_canvas_eq [OF assms])
next
  case (Some j)
  note J = next_canvas_free [OF assms Some]
  obtain pool' where p: "canvas_pool_map_alloc_canvas_in pool own now = Some (pool', int j)" "pool_wf pool'"
    "canvas_owner pool' = (canvas_owner pool)(j \<mapsto> own)"
    using alloc_canvas_spec [OF assms, of own now] Some by (auto simp: alloc_canvas_eq [OF assms])
  obtain pool'' where "canvas_pool_map_free_canvas_in pool' (int j) = Some (pool'', 0)" "pool_wf pool''"
    "canvas_owner pool'' = (canvas_owner pool')(j := None)"
    using free_canvas_spec [OF p(2) J(1)] by blast
  then show ?thesis using p J by (intro exI [of _ pool'] exI [of _ "int j"]) (auto simp: fun_eq_iff)
qed

text \<open>Freeing a table of \<open>n\<close> entries also frees canvas 0, unless the entries have four canvases.\<close>

definition zero_lost :: "canvas_map_type_e \<Rightarrow> nat \<Rightarrow> (nat \<Rightarrow> 'a option) \<Rightarrow> nat \<Rightarrow> 'a option" where
  "zero_lost ty n m = (if 0 < n \<and> ty \<noteq> CANVAS_MAP_TYPE_4 then m(0 := None) else m)"

lemma entries_freed:
  assumes out: "entries_outcome pool own ty p1 bs" and p: "pool_wf p" "canvas_owner p = canvas_owner p1"
    and ty: "ty \<noteq> CANVAS_MAP_TYPE_MAX"
  shows "\<exists>p2. free_entries (map (entry_at ty) bs) p = Some p2 \<and> pool_wf p2 \<and>
    canvas_owner p2 = zero_lost ty (length bs) (canvas_owner pool)"
proof -
  let ?B = "set (blocks (map_type_count ty) bs)"
  have c: "\<forall>c \<in> set bs. c + map_type_count ty \<le> 256" using out by (simp add: entries_outcome_def Let_def)
  have f: "canvas_owner pool i = None" if "i \<in> ?B" for i using out that by (simp add: entries_outcome_def Let_def)
  have o: "canvas_owner p i = (if i \<in> ?B then Some own else canvas_owner pool i)" for i
    using out p(2) by (simp add: entries_outcome_def Let_def)
  obtain p2 where p2: "free_entries (map (entry_at ty) bs) p = Some p2" "pool_wf p2"
    "canvas_owner p2 = (\<lambda>i. if i \<in> ?B \<or> (bs \<noteq> [] \<and> ty \<noteq> CANVAS_MAP_TYPE_4 \<and> i = 0) then None else canvas_owner p i)"
    using free_entries_view [OF p(1) c ty] by blast
  have "canvas_owner p2 i = zero_lost ty (length bs) (canvas_owner pool) i" for i
    using p2(3) o [of i] f [of i] by (auto simp: zero_lost_def)
  then show ?thesis using p2(1,2) by auto
qed

text \<open>C18: Allocating and freeing a table.  The call always returns.  When it succeeds the entries stand for sets of
  consecutive canvases that were free, do not overlap and now belong to the owner; freeing the table
  clears it and gives exactly these canvases back.  When it fails every canvas obtained on the way
  is given back.  In both cases canvas 0 is freed as well, unless the entries have four canvases.\<close>

theorem canvas_table_alloc_free:
  assumes wf: "pool_wf pool" and z: "canvas_owner pool 0 \<noteq> None" and tab: "sz \<le> length tb"
    and ty: "ty \<noteq> CANVAS_MAP_TYPE_MAX"
  shows "\<exists>pool' tb' r. canvas_pool_alloc_canvas_table pool own now tb sz ty = Some (pool', tb', r) \<and> pool_wf pool' \<and>
    (if r = 0
     then \<exists>bs. length bs = sz \<and> tb' = map (entry_at ty) bs @ drop sz tb \<and> entries_outcome pool own ty pool' bs \<and>
       (\<exists>pool''. canvas_pool_free_canvas_table pool' tb' sz = Some (pool'', replicate sz 0 @ drop sz tb) \<and>
          canvas_owner pool'' = zero_lost ty sz (canvas_owner pool))
     else r = -1 \<and> (\<exists>k < sz. tb' = replicate k 0 @ drop k tb \<and> canvas_owner pool' = zero_lost ty k (canvas_owner pool)))"
proof -
  obtain p1 bs err where 1: "alloc_entries sz pool own now ty = Some (p1, map (entry_at ty) bs, err)" "pool_wf p1"
    "entries_outcome pool own ty p1 bs" "err = 0 \<and> length bs = sz \<or> err = -1 \<and> length bs < sz"
    using alloc_entries_outcome [OF wf z] by blast
  note freed = entries_freed [OF 1(3) _ _ ty]
  show ?thesis
  proof (cases "err = 0")
    case True
    then have l: "length bs = sz" using 1(4) by simp
    let ?n = "if next_alloced_index pool + 1 \<ge> 256 then 1 else next_alloced_index pool + 1"
    let ?p = "p1\<lparr>next_alloced_index := ?n\<rparr>" and ?t = "map (entry_at ty) bs @ drop sz tb"
    have cm: "canvas_max p1 = 256" using 1(2) by (simp add: pool_wf_def)
    have wp: "pool_wf ?p" using 1(2) wf by (intro pool_wf_next) (auto simp: pool_wf_def)
    have a: "canvas_pool_alloc_canvas_table pool own now tb sz ty = Some (?p, ?t, 0)"
      using 1(1) True tab l cm by (simp add: canvas_pool_alloc_canvas_table_def)
    obtain p2 where p2: "free_entries (map (entry_at ty) bs) ?p = Some p2"
      "canvas_owner p2 = zero_lost ty (length bs) (canvas_owner pool)" using freed [OF wp] by auto
    have "canvas_pool_free_canvas_table ?p ?t sz = Some (p2, replicate sz 0 @ drop sz tb)"
      using p2(1) l tab by (simp add: canvas_pool_free_canvas_table_def)
    moreover have "entries_outcome pool own ty ?p bs" using 1(3) by (simp add: entries_outcome_def)
    ultimately show ?thesis using a wp p2(2) l by (intro exI [of _ ?p] exI [of _ ?t] exI [of _ 0]) auto
  next
    case False
    then have e: "err = -1" "length bs < sz" using 1(4) by auto
    obtain p2 where p2: "free_entries (map (entry_at ty) bs) p1 = Some p2" "pool_wf p2"
      "canvas_owner p2 = zero_lost ty (length bs) (canvas_owner pool)" using freed [OF 1(2)] by auto
    have "canvas_pool_alloc_canvas_table pool own now tb sz ty =
        Some (p2, replicate (length bs) 0 @ drop (length bs) tb, -1)"
    proof -
      have "canvas_pool_free_canvas_table p1 (map (entry_at ty) bs @ drop (length bs) tb) (length bs) =
          Some (p2, replicate (length bs) 0 @ drop (length bs) tb)"
        using p2(1) e(2) tab by (simp add: canvas_pool_free_canvas_table_def)
      then show ?thesis using 1(1) e tab p2(1) by (cases "bs = []") (simp_all add: canvas_pool_alloc_canvas_table_def)
    qed
    then show ?thesis using e(2) p2(2,3) by auto
  qed
qed

text \<open>The use of a pool: allocations, and frees of canvases that were allocated and not freed since.  The set has
  the canvases in use.\<close>

inductive pool_use :: "canvas_pool \<Rightarrow> canvas_pool \<Rightarrow> nat set \<Rightarrow> bool" for p where
  unused: "pool_use p p {}"
| take: "pool_use p q S \<Longrightarrow> canvas_pool_map_alloc_canvas_in q own now = Some (q', r) \<Longrightarrow>
    pool_use p q' (if r < 0 then S else insert (nat r) S)"
| give: "pool_use p q S \<Longrightarrow> i \<in> S \<Longrightarrow> canvas_pool_map_free_canvas_in q (int i) = Some (q', r) \<Longrightarrow> pool_use p q' (S - {i})"

lemma pool_use_owned:
  assumes "pool_use p q S" and wf: "pool_wf p" and free: "\<forall>i < 256. canvas_owner p i = None \<longleftrightarrow> i \<in> F" and F: "F \<subseteq> {..< 256}"
  shows "pool_wf q \<and> S \<subseteq> F \<and> (\<forall>i < 256. canvas_owner q i = None \<longleftrightarrow> i \<in> F - S)"
  using assms(1)
proof (induction rule: pool_use.induct)
  case unused
  then show ?case using wf free by simp
next
  case (take q S own now q' r)
  then have q: "pool_wf q" "S \<subseteq> F" "\<forall>i < 256. canvas_owner q i = None \<longleftrightarrow> i \<in> F - S" by auto
  have q': "pool_wf q'" and r: "(\<exists>i < 256. r = int i \<and> canvas_owner q i = None \<and> canvas_owner q' = (canvas_owner q)(i \<mapsto> own)) \<or>
      r = -1 \<and> canvas_owner q' = canvas_owner q"
    using alloc_canvas_spec [OF q(1), of own now] take.hyps(2) by auto
  show ?case
  proof (cases "r = -1")
    case True
    then show ?thesis using q q' r by simp
  next
    case False
    then obtain i where "i < 256" "r = int i" "canvas_owner q i = None" "canvas_owner q' = (canvas_owner q)(i \<mapsto> own)" using r by auto
    then show ?thesis using q q' by auto
  qed
next
  case (give q S i q' r)
  then have q: "pool_wf q" "S \<subseteq> F" "\<forall>i < 256. canvas_owner q i = None \<longleftrightarrow> i \<in> F - S" and i: "i < 256" using F by auto
  have "pool_wf q'" "canvas_owner q' = (canvas_owner q)(i := None)"
    using free_canvas_spec [OF q(1) i] give.hyps(3) by auto
  then show ?case using q give.hyps(2) by auto
qed

text \<open>C21: The pool and the driver fit together.  If the provider has the canvases 0 to 0xef free, the probe
  succeeds and marks them in use, and the pool has exactly the canvases 0x3a to 0x3f, 0x49 to 0x57 and
  0xd8 to 0xe3 free.  Whatever single canvases are then allocated, and freed by those that have them, every
  canvas in use is one of these and can be configured, and the others of these are free; the first
  allocation succeeds.\<close>

theorem canvas_pool_config_usable:
  assumes ok: "meson_ok ops meson_own" and fr: "meson_own m \<inter> {0 .. 0xef} = {}"
  shows "\<exists>info pool. canvas_probe ops (Some m) pool0 now cr = Some (Some info, pool, 0) \<and> pool_wf pool \<and>
    canvas_reach ops info \<and> meson_own (meson_canvas info) = meson_own m \<union> {0 .. 0xef} \<and>
    (\<forall>i < 256. canvas_owner pool i = None \<longleftrightarrow> i \<in> free_canvases) \<and>
    (\<forall>pool' S. pool_use pool pool' S \<longrightarrow> S \<subseteq> free_canvases \<and> (\<forall>i \<in> S. CANVAS_VALID info i) \<and>
        (\<forall>i < 256. canvas_owner pool' i = None \<longleftrightarrow> i \<in> free_canvases - S)) \<and>
    (\<forall>own pool' i. canvas_pool_map_alloc_canvas_in pool own now = Some (pool', i) \<longrightarrow>
        0 < i \<and> nat i \<in> free_canvases \<and> CANVAS_VALID info (nat i))"
proof -
  let ?z = "zero_info m"
  have l: "length (canvasPool ?z) = 256" by (simp add: zero_info_simps)
  have s: "marked 1 0 0 (canvasPool ?z) = canvasPool ?z" by simp
  obtain info r where A: "alloc_range_loop ops 0 0xef 0 ?z = Some (info, r)" "r = 0"
    "meson_own (meson_canvas info) = meson_own m \<union> {0 .. 0xef}" "canvasPool info = marked 1 0 240 (canvasPool ?z)"
    using alloc_range_loop_spec [OF ok l, of "0xef" 0 0 ?z "meson_own m"] fr by (auto simp: zero_info_simps)
  then have al: "alloc_canvas_range ops ?z 0 0xef = Some (info, 0)" by (simp add: alloc_canvas_range_def)
  have v: "CANVAS_VALID info i" if "i < 240" for i
    using A(4) that by (simp add: CANVAS_VALID_def marked_nth zero_info_simps)
  obtain pool where P: "canvas_pool_config now = Some pool" "pool_wf pool" "next_alloced_index pool = 128"
    "canvas_owner pool = const_owner const_canvases Map.empty" using canvas_pool_config_spec by blast
  have F: "canvas_owner pool i = None \<longleftrightarrow> i \<in> free_canvases" if "i < 256" for i
    using config_owner_None [of i] P(4) that by auto
  have use: "S \<subseteq> free_canvases \<and> (\<forall>i \<in> S. CANVAS_VALID info i) \<and> (\<forall>i < 256. canvas_owner pool' i = None \<longleftrightarrow> i \<in> free_canvases - S)"
    if u: "pool_use pool pool' S" for pool' S
  proof -
    have b: "i < 240" if "i \<in> free_canvases" for i using that by (auto simp: free_canvases_def)
    then have "free_canvases \<subseteq> {..< 256}" by fastforce
    then have "S \<subseteq> free_canvases" "\<forall>i < 256. canvas_owner pool' i = None \<longleftrightarrow> i \<in> free_canvases - S"
      using pool_use_owned [OF u P(2)] F by blast+
    then show ?thesis using v b by blast
  qed
  have alloc: "0 < i \<and> nat i \<in> free_canvases \<and> CANVAS_VALID info (nat i)"
    if a: "canvas_pool_map_alloc_canvas_in pool own now = Some (pool', i)" for own pool' i
  proof (cases "next_canvas pool")
    case None
    then show ?thesis using next_canvas_None [OF P(2) None, of "0x3a"] F [of "0x3a"] by (simp add: free_canvases_def)
  next
    case (Some j)
    then have "i = int j" using a by (simp add: alloc_canvas_eq [OF P(2)])
    moreover have "j \<in> free_canvases" using next_canvas_free [OF P(2) Some] F by blast
    ultimately show ?thesis using v [of j] by (auto simp: free_canvases_def)
  qed
  have "canvas_probe ops (Some m) pool0 now cr = Some (Some info, pool, 0)"
    using al P(1) by (simp add: canvas_probe_def amcanvas_manager_init_def)
  moreover have "canvas_reach ops info" by (rule canvas_reach.alloc [OF canvas_reach.start al])
  ultimately show ?thesis using A(3) P(2) F use alloc by (intro exI [of _ info] exI [of _ pool] conjI allI impI) simp_all
qed

text \<open>C25: The search for consecutive canvases gives up too early.  With the canvases free that the configuration
  leaves free and the next index at 0x3e, the request for four consecutive canvases fails although
  the canvases 0x49 to 0x57 are all free: each of the 256 retries starts again at the same index.\<close>

theorem canvas_search_gives_up:
  assumes "pool_wf pool" and "\<forall>i < 256. canvas_owner pool i = None \<longleftrightarrow> i \<in> free_canvases"
    and "next_alloced_index pool = 0x3e"
  shows "(\<exists>pool'. canvas_pool_map_alloc_canvas_continue_set pool own now CANVAS_MAP_TYPE_4 = Some (pool', 0, -1)) \<and>
    (\<forall>i. 0x49 \<le> i \<and> i \<le> 0x57 \<longrightarrow> canvas_owner pool i = None)"
  using search_gives_up [OF assms(1), of own now 256] assms(2,3)
  by (auto simp: canvas_pool_map_alloc_canvas_continue_set_def free_canvases_def)

text \<open>C24: The listing never exceeds its page.  With owner names of at most 54 characters the text stays below 4096
  characters and is never cut; each call makes progress or starts over, and the pool is not changed
  otherwise.\<close>

theorem canvas_pool_map_show_bounded:
  assumes "pool_wf pool" and "list_all info_short (pinfo pool)" and "0 \<le> next_dump_index pool" "next_dump_index pool < 256"
  shows "\<exists>pool' buf. canvas_pool_map_show pool dev now hz c = Some (pool', buf, int (length buf)) \<and> length buf < 4096 \<and>
    0 \<le> next_dump_index pool' \<and> next_dump_index pool' < 256 \<and> canvas_owner pool' = canvas_owner pool \<and>
    (now - last_cat_map pool \<le> 5 * hz \<longrightarrow>
       next_dump_index pool' = 0 \<or> next_dump_index pool < next_dump_index pool')"
proof -
  have cm: "canvas_max pool = 256" using assms(1) by (simp add: pool_wf_def)
  let ?mx = "min (next_dump_index pool + 64) 256"
  let ?st = "if now - last_cat_map pool > 5 * hz then 0 else next_dump_index pool"
  let ?i0 = "\<lparr>owner = None, alloc_time = 0, oldowner = None, fixed_onwer = 0\<rparr>"
  have st: "0 \<le> ?st" "?st < ?mx" using assms(3,4) by auto
  obtain i buf where l: "map_show_loop pool dev ?mx ?st ?i0 c ([], 0) = Some (i, buf, int (length buf))" "length buf < 4096" "?st < i"
    using map_show_loop_bound [OF assms(1,2) st(1), of ?mx "([], 0)" dev ?i0 c] st(2) by auto
  let ?p = "pool\<lparr>next_dump_index := (if i \<ge> 256 then 0 else i), last_cat_map := now\<rparr>"
  have "canvas_pool_map_show pool dev now hz c = Some (?p, buf, int (length buf))"
    using l(1) cm by (simp add: canvas_pool_map_show_def Let_def)
  moreover have "canvas_owner ?p = canvas_owner pool" by (simp add: canvas_owner_def fun_eq_iff)
  ultimately show ?thesis using l(2,3) st by (intro exI [of _ ?p] exI [of _ buf]) (auto split: if_splits)
qed

section \<open>Witnesses\<close>

lemma config_pool:
  obtains pool where "canvas_pool_config 0 = Some pool" "pool_wf pool" "next_alloced_index pool = 128"
    "\<forall>i < 256. canvas_owner pool i = None \<longleftrightarrow> i \<in> free_canvases"
  using canvas_pool_config_spec [of 0] config_owner_None by (metis not_le)

theorem canvas_pool_refines_map_witness:
  "\<exists>pool' r. canvas_pool_map_alloc_canvas_in canvas_pool_init (Some [0x61]) 0 = Some (pool', r) \<and> 0 \<le> r \<and>
     canvas_owner pool' = [nat r \<mapsto> Some [0x61]]"
  using canvas_pool_refines_map [OF pool_init_wf(1), of "Some [0x61]" 0] pool_init_wf(2)
  by (auto split: if_splits dest: spec [of _ 1])

theorem canvas_table_alloc_free_witness:
  "\<exists>pool pool' tb' pool'' tb''. canvas_pool_config 0 = Some pool \<and>
     canvas_pool_alloc_canvas_table pool (Some [0x61]) 0 [7] 1 CANVAS_MAP_TYPE_1 = Some (pool', tb', 0) \<and>
     canvas_pool_free_canvas_table pool' tb' 1 = Some (pool'', tb'') \<and>
     canvas_owner pool 0 \<noteq> None \<and> canvas_owner pool'' 0 = None"
proof -
  obtain pool where p: "canvas_pool_config 0 = Some pool" "pool_wf pool" "next_alloced_index pool = 128"
    "\<forall>i < 256. canvas_owner pool i = None \<longleftrightarrow> i \<in> free_canvases" by (rule config_pool)
  have z: "canvas_owner pool 0 \<noteq> None" using p(4) by (simp add: free_canvases_def)
  obtain p1 where 1: "canvas_pool_map_alloc_canvas_in pool (Some [0x61]) 0 = Some (p1, 0xd8)"
    using alloc_canvas_at [OF p(2), of 128 "0xd8" "Some [0x61]" 0] p(3,4) by (auto simp: free_canvases_def)
  have "canvas_pool_map_alloc_canvas_continue_set pool (Some [0x61]) 0 CANVAS_MAP_TYPE_1 =
      Some (p1, canvas_val CANVAS_MAP_TYPE_1 [0xd8], 0)"
    using 1 by (simp add: canvas_pool_map_alloc_canvas_continue_set_def continue_set_loop.simps canvas_found_def)
  then have r: "\<exists>x t. canvas_pool_alloc_canvas_table pool (Some [0x61]) 0 [7] 1 CANVAS_MAP_TYPE_1 = Some (x, t, 0)"
    by (simp add: canvas_pool_alloc_canvas_table_def Let_def)
  show ?thesis
    using canvas_table_alloc_free [OF p(2) z, of 1 "[7]" CANVAS_MAP_TYPE_1 "Some [0x61]" 0] r p(1) z
    by (auto simp: zero_lost_def split: if_splits)
qed

theorem canvas_pool_config_usable_witness:
  "\<exists>info pool. canvas_probe set_ops (Some {}) canvas_pool_init 0 0 = Some (Some info, pool, 0) \<and> meson_canvas info = {0 .. 0xef} \<and>
     (\<exists>pool' i. canvas_pool_map_alloc_canvas_in pool (Some [0x61]) 0 = Some (pool', i) \<and> CANVAS_VALID info (nat i))"
proof -
  obtain info pool where p: "canvas_probe set_ops (Some {}) canvas_pool_init 0 0 = Some (Some info, pool, 0)" "pool_wf pool"
    "meson_canvas info = {0 .. 0xef}" and a: "\<forall>own pool' i. canvas_pool_map_alloc_canvas_in pool own 0 = Some (pool', i) \<longrightarrow>
        0 < i \<and> nat i \<in> free_canvases \<and> CANVAS_VALID info (nat i)"
    using canvas_pool_config_usable [OF set_ops_ok, of "{}" canvas_pool_init 0 0] by auto
  then show ?thesis using alloc_canvas_spec [OF p(2), of "Some [0x61]" 0] by blast
qed

theorem canvas_search_gives_up_witness:
  "\<exists>pool. canvas_pool_config 0 = Some pool \<and>
     (\<exists>pool'. canvas_pool_map_alloc_canvas_continue_set (pool\<lparr>next_alloced_index := 0x3e\<rparr>) None 0 CANVAS_MAP_TYPE_4 =
        Some (pool', 0, -1))"
proof -
  obtain pool where p: "canvas_pool_config 0 = Some pool" "pool_wf pool"
    "\<forall>i < 256. canvas_owner pool i = None \<longleftrightarrow> i \<in> free_canvases" using config_pool by metis
  have "pool_wf (pool\<lparr>next_alloced_index := 0x3e\<rparr>)" using p(2) by (simp add: pool_wf_def)
  from canvas_search_gives_up [OF this, of None 0] p show ?thesis by auto
qed

theorem canvas_pool_map_show_bounded_witness:
  "\<exists>pool' buf. canvas_pool_map_show canvas_pool_init (zero_info ({} :: nat set)) 5 250 zero_canvas =
     Some (pool', buf, int (length buf)) \<and> length buf < 4096 \<and> canvas_owner pool' = Map.empty"
proof -
  have s: "list_all info_short (pinfo canvas_pool_init)"
    by (simp add: canvas_pool_init_def list_all_iff info_short_def name_str_def)
  have d: "next_dump_index canvas_pool_init = 0" by (simp add: canvas_pool_init_def)
  show ?thesis
    using canvas_pool_map_show_bounded [OF pool_init_wf(1) s, of "zero_info ({} :: nat set)" 5 250 zero_canvas] d
      pool_init_wf(2) by auto
qed

end
