(* ===== verification/Configs.thy ===== *)
theory Configs
  imports Kernel_Text
begin

unbundle bit_operations_syntax

text \<open>
  The tree of configuration nodes, \<open>soc/amlogic/media/common/codec_mm/configs/configs.c\<close>: nodes with reference
  counts, their registration below a parent with inherited rights, the lookup of nodes and of items by a path
  of names with dots, and the release of what a lookup holds.

  Nodes and arrays of items are objects at addresses in a store; names are strings without terminator.  The mutexes
  are not modelled: the operations run one after the other.
\<close>

section \<open>Nodes, items and their store\<close>

text \<open>A \<open>struct mconfig_node\<close> is known by its address, \<open>root_node\<close> is the static object of the source.  An array of
  items is known by its address too, and an item by the array and its index.\<close>

type_synonym nptr = nat
type_synonym cptr = "nat \<times> nat"

definition root_node :: nptr where
  "root_node = 0"

text \<open>The \<open>list\<close> member of a node: zeroed storage, initialised and linked to itself, on the list of sons of a
  node, or poisoned by \<open>list_del\<close>.\<close>

datatype list_link = Raw | Self | On nptr | Poisoned

text \<open>The union is its two 64-bit halves: pointers and \<open>u64val\<close> are the first one, \<open>u32val\<close> and \<open>ival\<close> its low half,
  \<open>f_get\<close> and \<open>f_set\<close> the first and the second.\<close>

record mconfig =
  c_type :: int
  c_id :: int
  item_name :: string
  ldata0 :: u64
  ldata1 :: u64
  c_size :: int

text \<open>\<open>nname\<close> is \<open>None\<close> for a \<open>NULL\<close> name; \<open>son_node_list\<close> is \<open>None\<close> while the list head is zeroed storage.\<close>

record mconfig_node =
  nprefix :: string
  nname :: "string option"
  active :: int
  ndepth :: int
  parent_node :: "nptr option"
  nlink :: list_link
  son_node_num :: int
  son_node_list :: "nptr list option"
  configs_num :: int
  nconfigs :: "nat option"
  ref_cnt :: u32
  rw_flags :: u32

record cfg =
  nodes :: "nptr \<Rightarrow> mconfig_node option"
  arrays :: "nat \<Rightarrow> mconfig list option"
  cmem :: "u64 \<Rightarrow> u8 option"

abbreviation (input) MAX_DEPTH :: int where "MAX_DEPTH \<equiv> 8"
abbreviation (input) MAX_ITEM_NAME :: nat where "MAX_ITEM_NAME \<equiv> 128"
abbreviation (input) MAX_PREFIX_NAME :: nat where "MAX_PREFIX_NAME \<equiv> 128"
abbreviation (input) CONFIG_FOR_R :: u32 where "CONFIG_FOR_R \<equiv> 1"
abbreviation (input) CONFIG_FOR_W :: u32 where "CONFIG_FOR_W \<equiv> 2"
abbreviation (input) CONFIG_FOR_T :: u32 where "CONFIG_FOR_T \<equiv> 4"
abbreviation (input) CONFIG_FOR_RW :: u32 where "CONFIG_FOR_RW \<equiv> 3"
abbreviation (input) ENOENT :: int where "ENOENT \<equiv> 2"
abbreviation (input) EIO :: int where "EIO \<equiv> 5"

definition linked :: "mconfig_node \<Rightarrow> bool" where
  "linked n = (case nlink n of On _ \<Rightarrow> True | _ \<Rightarrow> False)"

definition set_node :: "nptr \<Rightarrow> mconfig_node \<Rightarrow> cfg \<Rightarrow> cfg" where
  "set_node a n s = s\<lparr>nodes := (nodes s)(a \<mapsto> n)\<rparr>"

definition configs_inc_node_ref :: "cfg \<Rightarrow> nptr \<Rightarrow> (cfg \<times> int) option" where
  "configs_inc_node_ref s a =
     do { n \<leftarrow> nodes s a; Some (set_node a (n\<lparr>ref_cnt := ref_cnt n + 1\<rparr>) s, sint (ref_cnt n + 1)) }"

definition configs_dec_node_ref :: "cfg \<Rightarrow> nptr \<Rightarrow> (cfg \<times> int) option" where
  "configs_dec_node_ref s a =
     do { n \<leftarrow> nodes s a; Some (set_node a (n\<lparr>ref_cnt := ref_cnt n - 1\<rparr>) s, sint (ref_cnt n - 1)) }"

text \<open>The loop over the ancestors ends at \<open>NULL\<close> or at the node given as root; on a cycle of parents it does
  not end, and has no value.\<close>

partial_function (option) put_parents :: "cfg \<Rightarrow> nptr option \<Rightarrow> nptr option \<Rightarrow> cfg option" where
  "put_parents s pnode root =
     (case pnode of
        None \<Rightarrow> Some s
      | Some p \<Rightarrow>
          if pnode = root then Some s
          else do {
            (s, _) \<leftarrow> configs_dec_node_ref s p;
            n \<leftarrow> nodes s p;
            put_parents s (parent_node n) root
          })"

text \<open>It returns 0 always.\<close>

definition configs_put_node :: "cfg \<Rightarrow> nptr option \<Rightarrow> bool \<Rightarrow> nptr option \<Rightarrow> cfg option" where
  "configs_put_node s node del_parent_ref root =
     (case node of
        None \<Rightarrow> Some s
      | Some a \<Rightarrow> do {
          (s, _) \<leftarrow> configs_dec_node_ref s a;
          n \<leftarrow> nodes s a;
          if \<not> del_parent_ref then Some s else put_parents s (parent_node n) root
        })"

section \<open>Paths\<close>

text \<open>The results are \<open>node_size\<close>, the name and whether it was the last one.  The empty string gives size 0, and
  the name is not written then.\<close>

definition blank :: "char \<Rightarrow> bool" where
  "blank c = (c = CHR '' '' \<or> c = CHR 0x0D \<or> c = CHR 0x0A)"

definition configs_parser_first_node :: "string \<Rightarrow> nat \<times> string \<times> bool" where
  "configs_parser_first_node root_str =
     (if root_str = [] then (0, [], False)
      else let dot = (CHR ''.'' \<in> set root_str);
               k = length (takeWhile (\<lambda>c. c \<noteq> (if dot then CHR ''.'' else CHR ''='')) root_str);
               node_size = (if MAX_ITEM_NAME - 1 \<le> k then MAX_ITEM_NAME - 1 else k)
           in (node_size, takeWhile (\<lambda>c. \<not> blank c) (take node_size root_str), \<not> dot))"

definition configs_parser_str_valstr :: "string \<Rightarrow> string option" where
  "configs_parser_str_valstr root_str =
     (if CHR ''='' \<in> set root_str then Some (tl (dropWhile (\<lambda>c. c \<noteq> CHR ''='') root_str)) else None)"

section \<open>Looking up nodes\<close>

fun find_son :: "cfg \<Rightarrow> nptr list \<Rightarrow> string option \<Rightarrow> (cfg \<times> nptr option) option" where
  "find_son s [] node_name = Some (s, None)"
| "find_son s (a # as) node_name = do {
     n \<leftarrow> nodes s a;
     sname \<leftarrow> nname n;
     wanted \<leftarrow> node_name;
     if sname = wanted then
       (if active n \<le> 0 then Some (s, None)
        else do {
          (s, r) \<leftarrow> configs_inc_node_ref s a;
          Some (s, if r < 0 then None else Some a)
        })
     else find_son s as node_name
   }"

definition configs_get_node_with_name :: "cfg \<Rightarrow> nptr option \<Rightarrow> string option \<Rightarrow> (cfg \<times> nptr option) option" where
  "configs_get_node_with_name s rootnode node_name = do {
     r \<leftarrow> nodes s (case rootnode of None \<Rightarrow> root_node | Some a \<Rightarrow> a);
     sons \<leftarrow> son_node_list r;
     find_son s sons node_name
   }"

function end_node_loop :: "cfg \<Rightarrow> nptr option \<Rightarrow> nptr \<Rightarrow> string \<Rightarrow> (cfg \<times> nptr option) option" where
  "end_node_loop s root node path =
     (let (i, sub, end') = configs_parser_first_node path
      in if i = 0 \<or> sub = [] then Some (s, None)
         else do {
           n \<leftarrow> nodes s node;
           is_top \<leftarrow> (if end' \<and> root = None \<and> node = root_node then do { nm \<leftarrow> nname n; Some (nm = sub) }
                  else Some False);
           if is_top then Some (s, Some node)
           else do {
             (s, r) \<leftarrow> configs_get_node_with_name s (Some node) (Some sub);
             case r of
               None \<Rightarrow> Some (s, None)
             | Some a \<Rightarrow> if end' then Some (s, Some a) else end_node_loop s root a (drop (i + 1) path)
           }
         })"
  by pat_completeness auto
termination
  by (relation "measure (\<lambda>(s, root, node, path). length path)")
    (auto simp: configs_parser_first_node_def Let_def split: if_splits)

declare end_node_loop.simps [simp del]

definition configs_get_node_path_end_node :: "cfg \<Rightarrow> nptr option \<Rightarrow> string option \<Rightarrow> (cfg \<times> nptr option) option" where
  "configs_get_node_path_end_node s root path =
     (case path of
        None \<Rightarrow> Some (s, None)
      | Some p \<Rightarrow> end_node_loop s root (case root of None \<Rightarrow> root_node | Some a \<Rightarrow> a) p)"

section \<open>Registering and deleting nodes\<close>

text \<open>Initialising again a node that is on a list, or has sons, leaves lists that are no longer linked: this
  has no meaning here.  The parent is not reset.\<close>

definition configs_init_new_node :: "cfg \<Rightarrow> nptr \<Rightarrow> string \<Rightarrow> u32 \<Rightarrow> cfg option" where
  "configs_init_new_node s a name rw = do {
     n \<leftarrow> nodes s a;
     if linked n \<or> son_node_list n \<notin> {None, Some []} then None
     else Some (set_node a (n\<lparr>nconfigs := None, configs_num := 0, son_node_num := 0, nname := Some name,
       rw_flags := rw, ndepth := 0, active := 1, nprefix := [], ref_cnt := 0, nlink := Self,
       son_node_list := Some []\<rparr>) s)
   }"

text \<open>The prefix that \<open>strcpy\<close> and \<open>strcat\<close> leave in the 128 bytes of the new node.\<close>

definition son_prefix :: "mconfig_node \<Rightarrow> string \<Rightarrow> mconfig_node \<Rightarrow> string option" where
  "son_prefix p pname n =
     (if 2 \<le> ndepth p + 1 then
        let px = (if nprefix p \<noteq> [] then nprefix p @ ''.'' else nprefix n) @ pname
        in if length px < MAX_PREFIX_NAME then Some px else None
      else Some (nprefix n))"

text \<open>Linking the new node into the tree.  Adding to a list a node that is on one already would damage both
  lists: no meaning here.\<close>

definition link_node :: "cfg \<Rightarrow> nptr \<Rightarrow> string \<Rightarrow> nptr \<Rightarrow> cfg option" where
  "link_node s pa pname new = do {
     p \<leftarrow> nodes s pa;
     n \<leftarrow> nodes s new;
     px \<leftarrow> son_prefix p pname n;
     sons \<leftarrow> son_node_list p;
     if linked n then None
     else Some (set_node pa (p\<lparr>son_node_list := Some (sons @ [new]), son_node_num := son_node_num p + 1\<rparr>)
       (set_node new (n\<lparr>ndepth := ndepth p + 1, nprefix := px, parent_node := Some pa, nlink := On pa,
          rw_flags := rw_flags p AND rw_flags n, active := 1\<rparr>) s))
   }"

definition configs_register_node :: "cfg \<Rightarrow> nptr option \<Rightarrow> nptr \<Rightarrow> (cfg \<times> int) option" where
  "configs_register_node s parent new = (
     let pa = (case parent of None \<Rightarrow> root_node | Some a \<Rightarrow> a)
     in if new = pa then Some (s, 0)
     else do {
       p \<leftarrow> nodes s pa;
       if MAX_DEPTH \<le> ndepth p then Some (s, -1)
       else do {
         pname \<leftarrow> nname p;
         if MAX_PREFIX_NAME - 2 \<le> length (nprefix p) + length pname then Some (s, -2)
         else do {
           n \<leftarrow> nodes s new;
           (s, r) \<leftarrow> configs_get_node_with_name s (Some pa) (nname n);
           if r \<noteq> None then Some (s, -3)
           else do { s \<leftarrow> link_node s pa pname new; Some (s, 0) }
         }
       }
     })"

definition configs_register_path_node :: "cfg \<Rightarrow> string option \<Rightarrow> nptr \<Rightarrow> (cfg \<times> int) option" where
  "configs_register_path_node s path new =
     (if path \<noteq> None \<and> path \<noteq> Some [] then do {
        (s, parent) \<leftarrow> configs_get_node_path_end_node s None path;
        if parent = None then Some (s, -1)
        else do {
          (s, ret) \<leftarrow> configs_register_node s parent new;
          s \<leftarrow> configs_put_node s parent True None;
          Some (s, ret)
        }
      }
      else configs_register_node s None new)"

definition configs_register_configs :: "cfg \<Rightarrow> nptr option \<Rightarrow> nat \<Rightarrow> int \<Rightarrow> (cfg \<times> int) option" where
  "configs_register_configs s node configs num =
     (case node of
        None \<Rightarrow> Some (s, -1)
      | Some a \<Rightarrow> do {
          n \<leftarrow> nodes s a;
          if nconfigs n \<noteq> None \<or> 0 < configs_num n then Some (s, -2)
          else Some (set_node a (n\<lparr>nconfigs := Some configs, configs_num := num\<rparr>) s, 0)
        })"

definition configs_register_path_configs :: "cfg \<Rightarrow> string option \<Rightarrow> nat \<Rightarrow> int \<Rightarrow> (cfg \<times> int) option" where
  "configs_register_path_configs s path configs num =
     (if path \<noteq> None \<and> path \<noteq> Some [] then do {
        (s, parent) \<leftarrow> configs_get_node_path_end_node s None path;
        if parent = None then Some (s, -1)
        else do {
          (s, ret) \<leftarrow> configs_register_configs s parent configs num;
          s \<leftarrow> configs_put_node s parent True None;
          Some (s, ret)
        }
      }
      else Some (s, -1))"

text \<open>\<open>list_del\<close>: zeroed or poisoned links are followed to no object.\<close>

definition list_del :: "cfg \<Rightarrow> nptr \<Rightarrow> cfg option" where
  "list_del s a = do {
     n \<leftarrow> nodes s a;
     case nlink n of
       Raw \<Rightarrow> None
     | Poisoned \<Rightarrow> None
     | Self \<Rightarrow> Some (set_node a (n\<lparr>nlink := Poisoned\<rparr>) s)
     | On q \<Rightarrow> do {
         m \<leftarrow> nodes s q;
         sons \<leftarrow> son_node_list m;
         let s = set_node q (m\<lparr>son_node_list := Some (remove1 a sons)\<rparr>) s;
         n \<leftarrow> nodes s a;
         Some (set_node a (n\<lparr>nlink := Poisoned\<rparr>) s)
       }
   }"

definition configs_del_endnode :: "cfg \<Rightarrow> nptr option \<Rightarrow> nptr \<Rightarrow> (cfg \<times> int) option" where
  "configs_del_endnode s parent node = do {
     n \<leftarrow> nodes s node;
     if ref_cnt n \<noteq> 0 then Some (set_node node (n\<lparr>active := 0\<rparr>) s, -1)
     else let s = set_node node (n\<lparr>active := 0, nconfigs := None, configs_num := 0\<rparr>) s
     in if 0 < son_node_num n then Some (s, -2)
     else case parent of
       None \<Rightarrow> Some (s, 0)
     | Some pa \<Rightarrow> do {
         s \<leftarrow> list_del s node;
         p \<leftarrow> nodes s pa;
         Some (set_node pa (p\<lparr>son_node_num := son_node_num p - 1\<rparr>) s, 0)
       }
   }"

definition configs_config_system_init :: "cfg \<Rightarrow> (cfg \<times> int) option" where
  "configs_config_system_init s = do {
     s \<leftarrow> configs_init_new_node s root_node ''root'' CONFIG_FOR_RW;
     (s, _) \<leftarrow> configs_register_node s None root_node;
     Some (s, 0)
   }"

section \<open>Finding an item by path\<close>

text \<open>The scan of the items of a node: \<open>None\<close> if it leaves the array.\<close>

fun find_config :: "mconfig list \<Rightarrow> nat \<Rightarrow> nat \<Rightarrow> string \<Rightarrow> nat option option" where
  "find_config cs i 0 name = Some None"
| "find_config [] i (Suc k) name = None"
| "find_config (c # cs) i (Suc k) name =
     (if item_name c = name then Some (Some i) else find_config cs (Suc i) k name)"

definition configs_get_node_config :: "cfg \<Rightarrow> nptr \<Rightarrow> string \<Rightarrow> (cfg \<times> cptr option) option" where
  "configs_get_node_config s node name = do {
     n \<leftarrow> nodes s node;
     if configs_num n \<le> 0 then Some (s, None)
     else do {
       a \<leftarrow> nconfigs n;
       cs \<leftarrow> arrays s a;
       r \<leftarrow> find_config cs 0 (nat (configs_num n)) name;
       case r of
         None \<Rightarrow> Some (s, None)
       | Some i \<Rightarrow> do { (s, _) \<leftarrow> configs_inc_node_ref s node; Some (s, Some (a, i)) }
     }
   }"

text \<open>How the loop over the path ends: a bad name (\<open>return -1\<close>), a node that is not found (with the node to
  release and the error), or at the node that should have the item.\<close>

datatype walk_end = Bad_Name | Missing "nptr option" int | Reached nptr string

function path_walk :: "cfg \<Rightarrow> nptr \<Rightarrow> nptr \<Rightarrow> string \<Rightarrow> (cfg \<times> walk_end) option" where
  "path_walk s topn node path =
     (let (i, sub, end') = configs_parser_first_node path
      in if i = 0 \<or> sub = [] then Some (s, Bad_Name)
         else if end' then Some (s, Reached node sub)
         else do {
           (s, r) \<leftarrow> configs_get_node_with_name s (Some node) (Some sub);
           case r of
             None \<Rightarrow> Some (s, if node \<noteq> topn then Missing (Some node) (- EPERM) else Missing None (- ENOENT))
           | Some a \<Rightarrow> path_walk s topn a (drop (i + 1) path)
         })"
  by pat_completeness auto
termination
  by (relation "measure (\<lambda>(s, topn, node, path). length path)")
    (auto simp: configs_parser_first_node_def Let_def split: if_splits)

declare path_walk.simps [simp del]

text \<open>The item with the node that holds it, or the error.  Every way to \<open>out\<close> without an item releases the
  nodes from the one reached up to the top.\<close>

definition configs_get_node_path_config ::
    "cfg \<Rightarrow> nptr option \<Rightarrow> string option \<Rightarrow> bool \<Rightarrow> (cfg \<times> (int + cptr \<times> nptr)) option" where
  "configs_get_node_path_config s root path setting =
     (case path of
        None \<Rightarrow> Some (s, Inl (- EIO))
      | Some p \<Rightarrow> do {
          let topn = (case root of None \<Rightarrow> root_node | Some a \<Rightarrow> a);
          (s, w) \<leftarrow> path_walk s topn topn p;
          case w of
            Bad_Name \<Rightarrow> Some (s, Inl (-1))
          | Missing node err \<Rightarrow> do {
              s \<leftarrow> configs_put_node s node True (Some topn);
              Some (s, Inl err)
            }
          | Reached node sub \<Rightarrow> do {
              n \<leftarrow> nodes s node;
              if setting \<and> rw_flags n AND CONFIG_FOR_W = 0 then do {
                s \<leftarrow> configs_put_node s (Some node) True (Some topn);
                Some (s, Inl (- ENOENT))
              }
              else if \<not> setting \<and> rw_flags n AND CONFIG_FOR_R = 0 then do {
                s \<leftarrow> configs_put_node s (Some node) True (Some topn);
                Some (s, Inl (- EPERM))
              }
              else do {
                (s, config) \<leftarrow> configs_get_node_config s node sub;
                case config of
                  None \<Rightarrow> do {
                    s \<leftarrow> configs_put_node s (Some node) True (Some topn);
                    Some (s, Inl (- EPERM))
                  }
                | Some c \<Rightarrow> Some (s, Inr (c, node))
              }
            }
        })"

section \<open>Reference counts as functions\<close>

text \<open>Adding to the reference counts of all nodes at once.  Every lookup and every release is such an addition.\<close>

definition add_refs :: "(nptr \<Rightarrow> u32) \<Rightarrow> cfg \<Rightarrow> cfg" where
  "add_refs f s = s\<lparr>nodes := \<lambda>a. map_option (\<lambda>n. n\<lparr>ref_cnt := ref_cnt n + f a\<rparr>) (nodes s a)\<rparr>"

definition tally :: "nptr list \<Rightarrow> nptr \<Rightarrow> u32" where
  "tally as a = of_nat (count_list as a)"

named_theorems ref_simps \<open>adding to reference counts\<close>

lemma nodes_add_refs [ref_simps]:
  "nodes (add_refs f s) a = map_option (\<lambda>n. n\<lparr>ref_cnt := ref_cnt n + f a\<rparr>) (nodes s a)"
  by (simp add: add_refs_def)

lemma arrays_add_refs [simp]: "arrays (add_refs f s) = arrays s"
  by (simp add: add_refs_def)

lemma cmem_add_refs [simp]: "cmem (add_refs f s) = cmem s"
  by (simp add: add_refs_def)

lemma add_refs_add_refs: "add_refs f (add_refs g s) = add_refs (\<lambda>a. g a + f a) s"
  by (simp add: add_refs_def option.map_comp comp_def add.assoc)

lemma add_refs_0: "add_refs (\<lambda>_. 0) s = s"
  by (simp add: add_refs_def option.map_ident)

lemma tally_Nil [simp]: "tally [] a = 0"
  by (simp add: tally_def)

lemma tally_Cons: "tally (b # as) a = tally as a + (if a = b then 1 else 0)"
  by (simp add: tally_def)

lemma tally_append: "tally (as @ bs) a = tally as a + tally bs a"
  by (simp add: tally_def)

lemma add_refs_tally_Nil [simp]: "add_refs (tally []) s = s"
proof -
  have "tally [] = (\<lambda>_. 0)" by (simp add: fun_eq_iff)
  then show ?thesis by (simp add: add_refs_0)
qed

lemma add_refs_tally: "add_refs (tally as) (add_refs (tally bs) s) = add_refs (tally (as @ bs)) s"
proof -
  have "(\<lambda>x. tally bs x + tally as x) = tally (as @ bs)" by (simp add: fun_eq_iff tally_append add.commute)
  then show ?thesis by (simp add: add_refs_add_refs)
qed

lemma configs_inc_node_ref_eq:
  "configs_inc_node_ref s a =
     map_option (\<lambda>n. (add_refs (tally [a]) s, sint (ref_cnt n + 1))) (nodes s a)"
  by (cases "nodes s a") (auto simp: configs_inc_node_ref_def set_node_def add_refs_def tally_def fun_eq_iff
      option.map_ident intro!: cfg.equality)

lemma configs_dec_node_ref_eq:
  "configs_dec_node_ref s a =
     map_option (\<lambda>n. (add_refs (\<lambda>x. - tally [a] x) s, sint (ref_cnt n - 1))) (nodes s a)"
  by (cases "nodes s a") (auto simp: configs_dec_node_ref_def set_node_def add_refs_def tally_def fun_eq_iff
      option.map_ident intro!: cfg.equality)

section \<open>The chain of parents\<close>

text \<open>The nodes that the release loop visits from \<open>p\<close> on.\<close>

fun up_chain :: "cfg \<Rightarrow> nptr option \<Rightarrow> nptr option \<Rightarrow> nptr list \<Rightarrow> bool" where
  "up_chain s p stop [] = (p = None \<or> p = stop)"
| "up_chain s p stop (a # as) =
     (p = Some a \<and> p \<noteq> stop \<and> (case nodes s a of None \<Rightarrow> False | Some n \<Rightarrow> up_chain s (parent_node n) stop as))"

lemma up_chain_add_refs [ref_simps]: "up_chain (add_refs f s) p stop as = up_chain s p stop as"
  by (induction as arbitrary: p) (auto simp: nodes_add_refs split: option.splits)

lemma put_parents_chain:
  "up_chain s p stop as \<Longrightarrow> put_parents s p stop = Some (add_refs (\<lambda>x. - tally as x) s)"
proof (induction as arbitrary: s p)
  case Nil
  then show ?case by (auto simp: put_parents.simps [of s] add_refs_0 split: option.splits)
next
  case (Cons a as)
  then obtain n where n: "nodes s a = Some n" "p = Some a" "p \<noteq> stop" "up_chain s (parent_node n) stop as"
    by (auto split: option.splits)
  have "put_parents (add_refs (\<lambda>x. - tally [a] x) s) (parent_node n) stop =
      Some (add_refs (\<lambda>x. - tally as x) (add_refs (\<lambda>x. - tally [a] x) s))"
    by (rule Cons.IH) (simp add: ref_simps n)
  moreover have "(\<lambda>x. - tally [a] x + - tally as x) = (\<lambda>x. - tally (a # as) x)"
    by (simp add: fun_eq_iff tally_Cons)
  ultimately show ?case using n
    by (auto simp: put_parents.simps [of s] configs_dec_node_ref_eq nodes_add_refs add_refs_add_refs)
qed

lemma configs_put_node_all:
  assumes "nodes s a = Some n" and "up_chain s (parent_node n) stop as"
  shows "configs_put_node s (Some a) True stop = Some (add_refs (\<lambda>x. - tally (a # as) x) s)"
proof -
  have "put_parents (add_refs (\<lambda>x. - tally [a] x) s) (parent_node n) stop =
      Some (add_refs (\<lambda>x. - tally as x) (add_refs (\<lambda>x. - tally [a] x) s))"
    by (rule put_parents_chain) (simp add: ref_simps assms)
  moreover have "(\<lambda>x. - tally [a] x + - tally as x) = (\<lambda>x. - tally (a # as) x)"
    by (simp add: fun_eq_iff tally_Cons)
  ultimately show ?thesis using assms
    by (auto simp: configs_put_node_def configs_dec_node_ref_eq nodes_add_refs add_refs_add_refs)
qed

lemma configs_put_node_one:
  "nodes s a = Some n \<Longrightarrow> configs_put_node s (Some a) False stop = Some (add_refs (\<lambda>x. - tally [a] x) s)"
  by (auto simp: configs_put_node_def configs_dec_node_ref_eq nodes_add_refs)

section \<open>Well-formed trees\<close>

text \<open>\<open>b\<close> is on the list of sons of \<open>a\<close>.\<close>

definition is_son :: "cfg \<Rightarrow> nptr \<Rightarrow> nptr \<Rightarrow> bool" where
  "is_son s a b = (case nodes s a of None \<Rightarrow> False | Some n \<Rightarrow> (case son_node_list n of None \<Rightarrow> False | Some l \<Rightarrow> b \<in> set l))"

definition son_ok :: "nptr \<Rightarrow> mconfig_node \<Rightarrow> mconfig_node \<Rightarrow> bool" where
  "son_ok a n m = (nlink m = On a \<and> parent_node m = Some a \<and> ndepth m = ndepth n + 1 \<and>
     rw_flags n AND rw_flags m = rw_flags m \<and> nname m \<noteq> None \<and> son_node_list m \<noteq> None)"

definition node_ok :: "cfg \<Rightarrow> nptr \<Rightarrow> mconfig_node \<Rightarrow> bool" where
  "node_ok s a n = (0 \<le> ndepth n \<and> ndepth n \<le> MAX_DEPTH \<and>
     (son_node_list n = None \<longrightarrow> son_node_num n = 0) \<and>
     (\<forall>l. son_node_list n = Some l \<longrightarrow> distinct l \<and> son_node_num n = int (length l) \<and>
        (\<forall>b\<in>set l. \<exists>m. nodes s b = Some m \<and> son_ok a n m)) \<and>
     (\<forall>p. nlink n = On p \<longrightarrow> is_son s p a) \<and>
     (0 < configs_num n \<longrightarrow> (\<exists>arr cs. nconfigs n = Some arr \<and> arrays s arr = Some cs \<and> nat (configs_num n) \<le> length cs)))"

definition tree_ok :: "cfg \<Rightarrow> bool" where
  "tree_ok s = ((\<forall>a n. nodes s a = Some n \<longrightarrow> node_ok s a n) \<and>
     (\<exists>r. nodes s root_node = Some r \<and> parent_node r = None \<and> ndepth r = 0 \<and> nlink r = Self \<and>
        nname r = Some ''root'' \<and> son_node_list r \<noteq> None))"

text \<open>A node with the nodes above it, up to the root.\<close>

fun rooted :: "cfg \<Rightarrow> nptr list \<Rightarrow> bool" where
  "rooted s [] = False"
| "rooted s [r] = (r = root_node)"
| "rooted s (b # a # as) = (is_son s a b \<and> rooted s (a # as))"

lemma is_son_add_refs [ref_simps]: "is_son (add_refs f s) a b = is_son s a b"
  by (auto simp: is_son_def nodes_add_refs split: option.splits)

lemma rooted_add_refs [ref_simps]: "rooted (add_refs f s) as = rooted s as"
  by (induction s as rule: rooted.induct) (simp_all add: ref_simps)

lemma son_ok_ref [simp]:
  "son_ok a (n\<lparr>ref_cnt := x\<rparr>) m = son_ok a n m" "son_ok a n (m\<lparr>ref_cnt := x\<rparr>) = son_ok a n m"
  by (simp_all add: son_ok_def)

lemma node_ok_add_refs [ref_simps]: "node_ok (add_refs f s) a (n\<lparr>ref_cnt := x\<rparr>) = node_ok s a n"
proof -
  have "(\<exists>m. nodes (add_refs f s) b = Some m \<and> son_ok a (n\<lparr>ref_cnt := x\<rparr>) m) =
      (\<exists>m. nodes s b = Some m \<and> son_ok a n m)" for b
    by (auto simp: nodes_add_refs)
  then show ?thesis by (simp add: node_ok_def is_son_add_refs)
qed

lemma tree_ok_add_refs [ref_simps]: "tree_ok (add_refs f s) = tree_ok s"
proof -
  have one: "tree_ok t \<Longrightarrow> tree_ok (add_refs g t)" for g t
    by (auto simp: tree_ok_def ref_simps)
  have "add_refs (\<lambda>a. - f a) (add_refs f s) = s" by (simp add: add_refs_add_refs add_refs_0)
  then show ?thesis using one by metis
qed

lemma tree_ok_node: "tree_ok s \<Longrightarrow> nodes s a = Some n \<Longrightarrow> node_ok s a n"
  by (simp add: tree_ok_def)

lemma tree_ok_root:
  assumes "tree_ok s"
  obtains r where "nodes s root_node = Some r" "parent_node r = None" "ndepth r = 0" "nlink r = Self"
    "nname r = Some ''root''" "son_node_list r \<noteq> None"
  using assms by (auto simp: tree_ok_def)

lemma tree_ok_son:
  assumes "tree_ok s" and "is_son s a b"
  obtains n m where "nodes s a = Some n" "nodes s b = Some m" "son_ok a n m"
proof -
  obtain n l where n: "nodes s a = Some n" "son_node_list n = Some l" "b \<in> set l"
    using assms(2) by (auto simp: is_son_def split: option.splits)
  then obtain m where "nodes s b = Some m" "son_ok a n m"
    using tree_ok_node [OF assms(1) n(1)] by (auto simp: node_ok_def)
  then show ?thesis using that n by blast
qed

lemma rooted_node:
  assumes "tree_ok s" and "rooted s (a # as)"
  obtains n where "nodes s a = Some n" "up_chain s (parent_node n) None as" "ndepth n = int (length as)"
    "nname n \<noteq> None" "son_node_list n \<noteq> None"
  using assms
proof (induction as arbitrary: a thesis)
  case Nil
  then obtain r where "nodes s root_node = Some r" "parent_node r = None" "ndepth r = 0" "nname r = Some ''root''"
    "son_node_list r \<noteq> None"
    using tree_ok_root [OF Nil.prems(2)] by metis
  then show ?case using Nil by auto
next
  case (Cons b as)
  then have "is_son s b a" and r: "rooted s (b # as)" by auto
  then obtain n m where n: "nodes s b = Some n" "nodes s a = Some m" "son_ok b n m"
    using tree_ok_son [OF Cons.prems(2)] by metis
  obtain n' where "nodes s b = Some n'" "up_chain s (parent_node n') None as" "ndepth n' = int (length as)"
    using Cons.IH [OF _ Cons.prems(2) r] by metis
  then show ?case using Cons.prems(1) [of m] n by (auto simp: son_ok_def)
qed

text \<open>Along a rooted list the depths differ, so no node occurs twice.\<close>

lemma rooted_suffix: "rooted s (xs @ a # as) \<Longrightarrow> rooted s (a # as)"
proof (induction xs)
  case (Cons x xs)
  then show ?case by (cases "xs @ a # as") auto
qed simp

lemma rooted_distinct:
  assumes t: "tree_ok s" and "rooted s as"
  shows "distinct as"
  using assms(2)
proof (induction as)
  case (Cons a as)
  have "a \<notin> set as"
  proof
    assume "a \<in> set as"
    then obtain xs ys where as: "as = xs @ a # ys" by (auto simp: in_set_conv_decomp)
    have "rooted s (a # ys)" using Cons.prems rooted_suffix [of s "a # xs" a ys] as by simp
    then obtain n where "nodes s a = Some n" "ndepth n = int (length ys)" by (rule rooted_node [OF t])
    moreover obtain n' where "nodes s a = Some n'" "ndepth n' = int (length as)"
      using rooted_node [OF t Cons.prems] .
    ultimately show False using as by simp
  qed
  moreover have "as \<noteq> [] \<Longrightarrow> rooted s as" using Cons.prems by (cases as) auto
  ultimately show ?case using Cons.IH by (cases as) auto
qed simp

lemma rooted_put:
  "tree_ok s \<Longrightarrow> rooted s (a # as) \<Longrightarrow>
     configs_put_node s (Some a) True None = Some (add_refs (\<lambda>x. - tally (a # as) x) s)"
  by (elim rooted_node) (auto intro: configs_put_node_all)

text \<open>Releasing up to the root leaves the root out.\<close>

lemma up_chain_stop:
  "up_chain s p None as \<Longrightarrow> r \<notin> set as \<Longrightarrow> up_chain s p (Some r) as"
  by (induction as arbitrary: p) (auto split: option.splits)

lemma up_chain_snoc:
  "up_chain s p None (as @ [r]) \<Longrightarrow> r \<notin> set as \<Longrightarrow> up_chain s p (Some r) as"
  by (induction as arbitrary: p) (auto split: option.splits)

lemma rooted_last: "rooted s as \<Longrightarrow> last as = root_node"
  by (induction s as rule: rooted.induct) auto

lemma rooted_put_top:
  assumes t: "tree_ok s" and r: "rooted s (a # as)" and ne: "a \<noteq> root_node"
  shows "configs_put_node s (Some a) True (Some root_node) = Some (add_refs (\<lambda>x. - tally (butlast (a # as)) x) s)"
proof -
  have as: "as \<noteq> []" using r ne by (cases as) auto
  then have e: "as = butlast as @ [root_node]" using rooted_last [OF r] by (metis append_butlast_last_id last_ConsR)
  have "distinct as" using rooted_distinct [OF t r] by simp
  then have nin: "root_node \<notin> set (butlast as)" using e by (metis distinct_append disjoint_iff list.set_intros(1))
  obtain n where "nodes s a = Some n" "up_chain s (parent_node n) None as" by (rule rooted_node [OF t r])
  moreover then have "up_chain s (parent_node n) (Some root_node) (butlast as)"
    using up_chain_snoc [OF _ nin] e by metis
  ultimately show ?thesis using as configs_put_node_all by simp
qed

section \<open>What a path means\<close>

text \<open>The son that a name selects: the first one of that name, if it is active.\<close>

definition sons_of :: "cfg \<Rightarrow> nptr \<Rightarrow> nptr list" where
  "sons_of s a = (case nodes s a of None \<Rightarrow> [] | Some n \<Rightarrow> (case son_node_list n of None \<Rightarrow> [] | Some l \<Rightarrow> l))"

definition has_name :: "cfg \<Rightarrow> string \<Rightarrow> nptr \<Rightarrow> bool" where
  "has_name s nm b = (case nodes s b of None \<Rightarrow> False | Some n \<Rightarrow> nname n = Some nm)"

definition is_active :: "cfg \<Rightarrow> nptr \<Rightarrow> bool" where
  "is_active s b = (case nodes s b of None \<Rightarrow> False | Some n \<Rightarrow> 0 < active n)"

definition son_named :: "cfg \<Rightarrow> nptr \<Rightarrow> string \<Rightarrow> nptr option" where
  "son_named s a nm =
     (case List.find (has_name s nm) (sons_of s a) of
        None \<Rightarrow> None
      | Some b \<Rightarrow> if is_active s b then Some b else None)"

fun node_at :: "cfg \<Rightarrow> nptr \<Rightarrow> string list \<Rightarrow> nptr option" where
  "node_at s a [] = Some a"
| "node_at s a (nm # nms) = (case son_named s a nm of None \<Rightarrow> None | Some b \<Rightarrow> node_at s b nms)"

text \<open>Names and the text of a path: names with a dot after each, then an item, perhaps with \<open>=value\<close>.\<close>

definition name_ok :: "string \<Rightarrow> bool" where
  "name_ok nm = (nm \<noteq> [] \<and> length nm < MAX_ITEM_NAME - 1 \<and> (\<forall>c\<in>set nm. c \<noteq> CHR ''.'' \<and> c \<noteq> CHR ''='' \<and> \<not> blank c))"

definition rest_ok :: "string \<Rightarrow> bool" where
  "rest_ok v = (v = [] \<or> hd v = CHR ''='' \<and> CHR ''.'' \<notin> set v)"

fun path_str :: "string list \<Rightarrow> string \<Rightarrow> string" where
  "path_str [] item = item"
| "path_str (nm # nms) item = nm @ CHR ''.'' # path_str nms item"

lemma takeWhile_id: "(\<And>c. c \<in> set xs \<Longrightarrow> P c) \<Longrightarrow> takeWhile P xs = xs"
  by (induction xs) auto

lemma first_node_name:
  assumes "name_ok nm"
  shows "configs_parser_first_node (nm @ CHR ''.'' # rest) = (length nm, nm, False)"
proof -
  have "takeWhile (\<lambda>c. c \<noteq> CHR ''.'') (nm @ CHR ''.'' # rest) = nm"
    using assms by (subst takeWhile_append2) (auto simp: name_ok_def)
  moreover have "takeWhile (\<lambda>c. \<not> blank c) nm = nm"
    using assms by (intro takeWhile_id) (auto simp: name_ok_def)
  ultimately show ?thesis using assms by (simp add: configs_parser_first_node_def name_ok_def)
qed

lemma first_node_item:
  assumes "name_ok item" and "rest_ok v"
  shows "configs_parser_first_node (item @ v) = (length item, item, True)"
proof -
  have "CHR ''.'' \<notin> set item" using assms(1) by (auto simp: name_ok_def)
  moreover have "CHR ''.'' \<notin> set v" using assms(2) by (cases "v = []") (simp_all add: rest_ok_def)
  ultimately have nd: "CHR ''.'' \<notin> set (item @ v)" by simp
  have ne: "item @ v \<noteq> []" and len: "length item < 127" using assms(1) by (auto simp: name_ok_def)
  have "\<And>c. c \<in> set item \<Longrightarrow> c \<noteq> CHR ''=''" using assms(1) by (simp add: name_ok_def)
  then have k: "takeWhile (\<lambda>c. c \<noteq> CHR ''='') (item @ v) = item"
    using assms(2) by (cases v) (simp_all add: rest_ok_def takeWhile_id)
  have b: "takeWhile (\<lambda>c. \<not> blank c) item = item"
    using assms by (intro takeWhile_id) (simp add: name_ok_def)
  show ?thesis using nd ne len b
    by (simp add: configs_parser_first_node_def Let_def k)
qed

text \<open>None of this depends on the reference counts.\<close>

lemma sons_of_add_refs [ref_simps]: "sons_of (add_refs f s) a = sons_of s a"
  by (auto simp: sons_of_def nodes_add_refs split: option.splits)

lemma has_name_add_refs [ref_simps]: "has_name (add_refs f s) nm = has_name s nm"
  by (auto simp: has_name_def nodes_add_refs fun_eq_iff split: option.splits)

lemma is_active_add_refs [ref_simps]: "is_active (add_refs f s) a = is_active s a"
  by (auto simp: is_active_def nodes_add_refs split: option.splits)

lemma son_named_add_refs [ref_simps]: "son_named (add_refs f s) a nm = son_named s a nm"
  by (auto simp: son_named_def ref_simps split: option.splits)

lemma node_at_add_refs [ref_simps]: "node_at (add_refs f s) a nms = node_at s a nms"
  by (induction nms arbitrary: a) (auto simp: ref_simps split: option.splits)

lemma is_son_iff: "is_son s a b \<longleftrightarrow> b \<in> set (sons_of s a)"
  by (auto simp: is_son_def sons_of_def split: option.splits)

lemma son_named_is_son: "son_named s a nm = Some b \<Longrightarrow> is_son s a b"
  by (auto simp: son_named_def is_son_iff find_Some_iff split: option.splits if_splits)

lemma node_at_append: "node_at s a (xs @ ys) = (case node_at s a xs of None \<Rightarrow> None | Some b \<Rightarrow> node_at s b ys)"
  by (induction xs arbitrary: a) (auto split: option.splits)

section \<open>Lookups follow the path\<close>

text \<open>One more reference does not make the count negative.\<close>

definition can_hold :: "cfg \<Rightarrow> nptr \<Rightarrow> bool" where
  "can_hold s b = (case nodes s b of None \<Rightarrow> False | Some n \<Rightarrow> 0 \<le> sint (ref_cnt n + 1))"

lemma find_son_eq:
  assumes "\<And>b. b \<in> set l \<Longrightarrow> \<exists>m. nodes s b = Some m \<and> nname m \<noteq> None"
  shows "find_son s l (Some nm) = Some
     (case List.find (has_name s nm) l of
        None \<Rightarrow> (s, None)
      | Some b \<Rightarrow> if \<not> is_active s b then (s, None)
                 else (add_refs (tally [b]) s, if can_hold s b then Some b else None))"
  using assms
proof (induction l)
  case (Cons b l)
  then obtain m where "nodes s b = Some m" "nname m \<noteq> None" by (metis list.set_intros(1))
  then show ?case using Cons
    by (auto simp: has_name_def is_active_def can_hold_def configs_inc_node_ref_eq)
qed simp

lemma get_node_with_name_eq:
  assumes t: "tree_ok s" and r: "rooted s (a # as)"
  shows "configs_get_node_with_name s (Some a) (Some nm) = Some
     (case son_named s a nm of
        None \<Rightarrow> (s, None)
      | Some b \<Rightarrow> (add_refs (tally [b]) s, if can_hold s b then Some b else None))"
proof -
  obtain n where n: "nodes s a = Some n" "son_node_list n \<noteq> None" by (rule rooted_node [OF t r])
  then obtain l where l: "son_node_list n = Some l" by auto
  have "\<exists>m. nodes s b = Some m \<and> nname m \<noteq> None" if "b \<in> set l" for b
    using tree_ok_node [OF t n(1)] that l by (fastforce simp: node_ok_def son_ok_def)
  then have "find_son s l (Some nm) = Some
     (case List.find (has_name s nm) l of
        None \<Rightarrow> (s, None)
      | Some b \<Rightarrow> if \<not> is_active s b then (s, None)
                 else (add_refs (tally [b]) s, if can_hold s b then Some b else None))"
    by (rule find_son_eq)
  then show ?thesis using n l
    by (auto simp: configs_get_node_with_name_def son_named_def sons_of_def split: option.splits)
qed

text \<open>All nodes below a depth can take one more reference.\<close>

definition holdable :: "cfg \<Rightarrow> int \<Rightarrow> bool" where
  "holdable s d = (\<forall>b m. nodes s b = Some m \<longrightarrow> d < ndepth m \<longrightarrow> can_hold s b)"

lemma holdable_step:
  assumes "holdable s d" and "nodes s b = Some m" and "ndepth m = d + 1"
  shows "holdable (add_refs (tally [b]) s) (d + 1)"
  using assms by (auto simp: holdable_def can_hold_def nodes_add_refs tally_def)

text \<open>The end of a walk that visits the nodes \<open>ms\<close> below \<open>a # as\<close>, the last of them first.\<close>

definition walk_result :: "cfg \<Rightarrow> nptr \<Rightarrow> string list \<Rightarrow> nptr \<Rightarrow> string \<Rightarrow> walk_end" where
  "walk_result s a nms b item =
     (if node_at s a nms = None
      then if b \<noteq> root_node then Missing (Some b) (- EPERM) else Missing None (- ENOENT)
      else Reached b item)"

lemma path_walk_eq:
  assumes "tree_ok s" and "rooted s (a # as)" and "holdable s (int (length as))"
    and "\<forall>nm\<in>set nms. name_ok nm" and "name_ok item" and "rest_ok v"
  shows "\<exists>ms. rooted s (ms @ a # as) \<and>
     path_walk s root_node a (path_str nms (item @ v)) =
       Some (add_refs (tally ms) s, walk_result s a nms (hd (ms @ a # as)) item) \<and>
     (\<forall>b. node_at s a nms = Some b \<longrightarrow> b = hd (ms @ a # as) \<and> length ms = length nms)"
  using assms
proof (induction nms arbitrary: s a as)
  case Nil
  then have "item \<noteq> []" by (simp add: name_ok_def)
  then have "path_walk s root_node a (item @ v) = Some (s, Reached a item)"
    using first_node_item [OF Nil.prems(5,6)] by (simp add: path_walk.simps [of s])
  then show ?case using Nil by (intro exI [of _ "[]"]) (auto simp: add_refs_0 walk_result_def)
next
  case (Cons nm nms)
  let ?p = "path_str nms (item @ v)"
  have nm: "name_ok nm" using Cons.prems by simp
  have step: "path_walk s root_node a (nm @ CHR ''.'' # ?p) = do {
      (s, r) \<leftarrow> configs_get_node_with_name s (Some a) (Some nm);
      case r of
        None \<Rightarrow> Some (s, if a \<noteq> root_node then Missing (Some a) (- EPERM) else Missing None (- ENOENT))
      | Some b \<Rightarrow> path_walk s root_node b ?p }"
    using first_node_name [OF nm, of ?p] nm by (simp add: path_walk.simps [of s] name_ok_def)
  note get = get_node_with_name_eq [OF Cons.prems(1,2), of nm]
  show ?case
  proof (cases "son_named s a nm")
    case None
    then show ?thesis using Cons.prems step get
      by (intro exI [of _ "[]"]) (auto simp: add_refs_0 walk_result_def)
  next
    case (Some b)
    have son: "is_son s a b" by (rule son_named_is_son [OF Some])
    then have r: "rooted s (b # a # as)" using Cons.prems(2) by simp
    obtain m where m: "nodes s b = Some m" "ndepth m = int (length as) + 1"
      using rooted_node [OF Cons.prems(1) r] by (metis length_Cons of_nat_Suc add.commute)
    then have hold: "can_hold s b" using Cons.prems(3) by (auto simp: holdable_def)
    let ?s = "add_refs (tally [b]) s"
    have "\<exists>ms. rooted ?s (ms @ b # a # as) \<and>
       path_walk ?s root_node b ?p = Some (add_refs (tally ms) ?s, walk_result ?s b nms (hd (ms @ b # a # as)) item) \<and>
       (\<forall>c. node_at ?s b nms = Some c \<longrightarrow> c = hd (ms @ b # a # as) \<and> length ms = length nms)"
      by (rule Cons.IH) (use Cons.prems r holdable_step [OF Cons.prems(3) m] in \<open>auto simp: ref_simps add.commute\<close>)
    then obtain ms where ms: "rooted s (ms @ b # a # as)"
      "path_walk ?s root_node b ?p = Some (add_refs (tally ms) ?s, walk_result ?s b nms (hd (ms @ b # a # as)) item)"
      "\<forall>c. node_at s b nms = Some c \<longrightarrow> c = hd (ms @ b # a # as) \<and> length ms = length nms"
      by (auto simp: ref_simps)
    then show ?thesis using Some step get hold
      by (intro exI [of _ "ms @ [b]"]) (auto simp: walk_result_def ref_simps add_refs_tally)
  qed
qed

text \<open>The search for a node finds what the names lead to, and takes a reference to every node on the way.\<close>

lemma end_node_loop_eq:
  assumes "tree_ok s" and "rooted s (a # as)" and "holdable s (int (length as))"
    and "\<forall>nm\<in>set nms. name_ok nm" and "name_ok nm" and "as = [] \<Longrightarrow> nms = [] \<Longrightarrow> nm \<noteq> ''root''"
  shows "\<exists>ms. rooted s (ms @ a # as) \<and>
     end_node_loop s None a (path_str nms nm) = Some (add_refs (tally ms) s, node_at s a (nms @ [nm]))"
  using assms
proof (induction nms arbitrary: s a as)
  case Nil
  obtain n where n: "nodes s a = Some n" "ndepth n = int (length as)" by (rule rooted_node [OF Nil.prems(1,2)])
  obtain r where r: "nodes s root_node = Some r" "nname r = Some ''root''" "ndepth r = 0" using tree_ok_root [OF Nil.prems(1)] by metis
  have top: "\<not> (a = root_node \<and> nm = ''root'')" using n r Nil.prems(6) by auto
  have p: "configs_parser_first_node nm = (length nm, nm, True)"
    using first_node_item [OF Nil.prems(5), of "[]"] by (simp add: rest_ok_def)
  have step: "end_node_loop s None a nm = configs_get_node_with_name s (Some a) (Some nm)"
  proof -
    have "nm \<noteq> []" using Nil.prems(5) by (simp add: name_ok_def)
    moreover have "(if True \<and> None = None \<and> a = root_node then do { x \<leftarrow> nname n; Some (x = nm) } else Some False) = Some False"
      using n r top by auto
    ultimately have "end_node_loop s None a nm = do {
        (s, r) \<leftarrow> configs_get_node_with_name s (Some a) (Some nm);
        case r of None \<Rightarrow> Some (s, None) | Some b \<Rightarrow> Some (s, Some b) }"
      unfolding end_node_loop.simps [of s None a nm] p using n(1) by (simp only: Let_def prod.case if_True simp_thms) simp
    then show ?thesis
      by (cases "configs_get_node_with_name s (Some a) (Some nm)") (auto split: option.splits)
  qed
  note get = get_node_with_name_eq [OF Nil.prems(1,2), of nm]
  show ?case
  proof (cases "son_named s a nm")
    case None
    then show ?thesis using Nil.prems step get by (intro exI [of _ "[]"]) (auto simp: add_refs_0)
  next
    case (Some b)
    have r': "rooted s (b # a # as)" using Nil.prems(2) son_named_is_son [OF Some] by simp
    obtain m where m: "nodes s b = Some m" "ndepth m = int (length as) + 1"
      using rooted_node [OF Nil.prems(1) r'] by (metis length_Cons of_nat_Suc add.commute)
    then have "can_hold s b" using Nil.prems(3) by (auto simp: holdable_def)
    then show ?thesis using Some step get r' by (intro exI [of _ "[b]"]) auto
  qed
next
  case (Cons nm' nms)
  let ?p = "path_str nms nm"
  have nm': "name_ok nm'" using Cons.prems by simp
  obtain n where n: "nodes s a = Some n" by (rule rooted_node [OF Cons.prems(1,2)])
  have step: "end_node_loop s None a (nm' @ CHR ''.'' # ?p) = do {
      (s, r) \<leftarrow> configs_get_node_with_name s (Some a) (Some nm');
      case r of None \<Rightarrow> Some (s, None) | Some b \<Rightarrow> end_node_loop s None b ?p }"
    using first_node_name [OF nm', of ?p] nm' n by (simp add: end_node_loop.simps [of s] name_ok_def)
  note get = get_node_with_name_eq [OF Cons.prems(1,2), of nm']
  show ?case
  proof (cases "son_named s a nm'")
    case None
    then show ?thesis using Cons.prems step get by (intro exI [of _ "[]"]) (auto simp: add_refs_0)
  next
    case (Some b)
    have r: "rooted s (b # a # as)" using Cons.prems(2) son_named_is_son [OF Some] by simp
    obtain m where m: "nodes s b = Some m" "ndepth m = int (length as) + 1"
      using rooted_node [OF Cons.prems(1) r] by (metis length_Cons of_nat_Suc add.commute)
    then have hold: "can_hold s b" using Cons.prems(3) by (auto simp: holdable_def)
    let ?s = "add_refs (tally [b]) s"
    have "\<exists>ms. rooted ?s (ms @ b # a # as) \<and>
       end_node_loop ?s None b ?p = Some (add_refs (tally ms) ?s, node_at ?s b (nms @ [nm]))"
      by (rule Cons.IH) (use Cons.prems r holdable_step [OF Cons.prems(3) m] in \<open>auto simp: ref_simps add.commute\<close>)
    then obtain ms where "rooted s (ms @ b # a # as)"
      "end_node_loop ?s None b ?p = Some (add_refs (tally ms) ?s, node_at s b (nms @ [nm]))"
      by (auto simp: ref_simps)
    then show ?thesis using Some step get hold
      by (intro exI [of _ "ms @ [b]"]) (auto simp: ref_simps add_refs_tally)
  qed
qed

section \<open>Items follow the path\<close>

text \<open>The item of a node that a name selects, and what a request for it gives.\<close>

definition item_named :: "cfg \<Rightarrow> mconfig_node \<Rightarrow> string \<Rightarrow> cptr option" where
  "item_named s n item =
     (case nconfigs n of
        None \<Rightarrow> None
      | Some arr \<Rightarrow> (case arrays s arr of
          None \<Rightarrow> None
        | Some cs \<Rightarrow> map_option (Pair arr) (List.find (\<lambda>i. item_name (cs ! i) = item) [0..<nat (configs_num n)])))"

definition item_at :: "cfg \<Rightarrow> nptr \<Rightarrow> string \<Rightarrow> bool \<Rightarrow> int + cptr" where
  "item_at s b item setting =
     (case nodes s b of
        None \<Rightarrow> Inl (- EPERM)
      | Some n \<Rightarrow>
          if setting \<and> rw_flags n AND CONFIG_FOR_W = 0 then Inl (- ENOENT)
          else if \<not> setting \<and> rw_flags n AND CONFIG_FOR_R = 0 then Inl (- EPERM)
          else case item_named s n item of None \<Rightarrow> Inl (- EPERM) | Some c \<Rightarrow> Inr c)"

lemma item_named_ref [simp]: "item_named (add_refs f s) (n\<lparr>ref_cnt := x\<rparr>) item = item_named s n item"
  by (simp add: item_named_def split: option.split)

lemma item_at_add_refs [ref_simps]: "item_at (add_refs f s) b item w = item_at s b item w"
  by (simp add: item_at_def nodes_add_refs split: option.split)

lemma find_upt_Suc: "List.find P (map Suc [0..<k]) = map_option Suc (List.find (P \<circ> Suc) [0..<k])"
proof -
  have "List.find P (map Suc xs) = map_option Suc (List.find (P \<circ> Suc) xs)" for xs
    by (induction xs) auto
  then show ?thesis .
qed

lemma find_config_eq:
  "k \<le> length cs \<Longrightarrow> find_config cs j k item =
     Some (map_option (\<lambda>i. j + i) (List.find (\<lambda>i. item_name (cs ! i) = item) [0..<k]))"
proof (induction cs j k item rule: find_config.induct)
  case (3 c cs i k name)
  have "[0..<Suc k] = 0 # map Suc [0..<k]" by (simp add: upt_conv_Cons map_Suc_upt del: upt_Suc)
  then show ?case using 3
    by (simp add: find_upt_Suc comp_def option.map_comp del: upt_Suc)
qed auto

lemma get_node_config_eq:
  assumes "tree_ok s" and "nodes s b = Some n"
  shows "configs_get_node_config s b item = Some
     (case item_named s n item of None \<Rightarrow> (s, None) | Some c \<Rightarrow> (add_refs (tally [b]) s, Some c))"
proof (cases "configs_num n \<le> 0")
  case True
  then show ?thesis using assms
    by (auto simp: configs_get_node_config_def item_named_def split: option.splits)
next
  case False
  then obtain arr cs where a: "nconfigs n = Some arr" "arrays s arr = Some cs" "nat (configs_num n) \<le> length cs"
    using tree_ok_node [OF assms] by (auto simp: node_ok_def)
  then show ?thesis using False assms find_config_eq [OF a(3), of 0 item]
    by (auto simp: configs_get_node_config_def item_named_def configs_inc_node_ref_eq option.map_ident
        split: option.splits)
qed

definition drop_root :: "cfg \<Rightarrow> cfg" where
  "drop_root s = add_refs (\<lambda>x. - tally [root_node] x) s"

lemma rooted_root: "rooted s [root_node]"
  by simp

text \<open>Releasing what a walk has taken, up to the root, restores the counts; releasing the root itself, when
  the walk took nothing, takes one away from it.\<close>

lemma put_walked:
  assumes t: "tree_ok s" and r: "rooted s (ms @ [root_node])"
  shows "configs_put_node (add_refs (tally ms) s) (Some (hd (ms @ [root_node]))) True (Some root_node) =
     Some (if ms = [] then drop_root s else s)"
proof (cases ms)
  case Nil
  then have "rooted s [root_node]" using r by simp
  then obtain n where "nodes s root_node = Some n" "parent_node n = None"
    using tree_ok_root [OF t] by metis
  then show ?thesis using Nil configs_put_node_all [of s root_node n "Some root_node" "[]"]
    by (simp add: drop_root_def add_refs_0)
next
  case (Cons b bs)
  have "b \<noteq> root_node" using rooted_distinct [OF t r] Cons by auto
  moreover have "(\<lambda>x. tally ms x + - tally ms x) = (\<lambda>x. 0)" by simp
  ultimately show ?thesis
    using rooted_put_top [of "add_refs (tally ms) s" b "bs @ [root_node]"] t r Cons
    by (simp add: ref_simps add_refs_add_refs add_refs_0 butlast_append)
qed

lemma path_config_missing:
  assumes t: "tree_ok s" and h: "holdable s 0" and nms: "\<forall>nm\<in>set nms. name_ok nm" "name_ok item" "rest_ok v"
    and none: "node_at s root_node nms = None"
  shows "configs_get_node_path_config s None (Some (path_str nms (item @ v))) setting \<in>
     {Some (s, Inl (- EPERM)), Some (s, Inl (- ENOENT))}"
proof -
  have h0: "holdable s (int (length ([] :: nptr list)))" using h by simp
  obtain ms where ms: "rooted s (ms @ [root_node])"
    "path_walk s root_node root_node (path_str nms (item @ v)) =
       Some (add_refs (tally ms) s, walk_result s root_node nms (hd (ms @ [root_node])) item)"
    using path_walk_eq [OF t rooted_root h0 nms] by auto
  show ?thesis
  proof (cases ms)
    case Nil
    then show ?thesis using ms none
      by (simp add: configs_get_node_path_config_def walk_result_def configs_put_node_def add_refs_0)
  next
    case (Cons b bs)
    have "b \<noteq> root_node" using rooted_distinct [OF t ms(1)] Cons by auto
    then show ?thesis using ms none put_walked [OF t ms(1)] Cons
      by (simp add: configs_get_node_path_config_def walk_result_def)
  qed
qed

lemma path_config_found:
  assumes t: "tree_ok s" and h: "holdable s 0" and nms: "\<forall>nm\<in>set nms. name_ok nm" "name_ok item" "rest_ok v"
    and b: "node_at s root_node nms = Some b"
  shows "\<exists>ms. rooted s (ms @ [root_node]) \<and> b = hd (ms @ [root_node]) \<and> length ms = length nms \<and>
     configs_get_node_path_config s None (Some (path_str nms (item @ v))) setting = Some
       (case item_at s b item setting of
          Inl e \<Rightarrow> (if ms = [] then drop_root s else s, Inl e)
        | Inr c \<Rightarrow> (add_refs (tally (b # ms)) s, Inr (c, b)))"
proof -
  have h0: "holdable s (int (length ([] :: nptr list)))" using h by simp
  obtain ms where ms: "rooted s (ms @ [root_node])" "b = hd (ms @ [root_node])" "length ms = length nms"
    "path_walk s root_node root_node (path_str nms (item @ v)) =
       Some (add_refs (tally ms) s, Reached b item)"
    using path_walk_eq [OF t rooted_root h0 nms] b by (auto simp: walk_result_def)
  have "rooted s (b # tl (ms @ [root_node]))" using ms by (metis hd_Cons_tl append_is_Nil_conv list.distinct(1))
  then obtain n where n: "nodes s b = Some n" using rooted_node [OF t] by metis
  let ?s = "add_refs (tally ms) s" and ?n = "n\<lparr>ref_cnt := ref_cnt n + tally ms b\<rparr>"
  have n': "nodes ?s b = Some ?n" and t': "tree_ok ?s" using n t by (simp_all add: ref_simps)
  have c: "configs_get_node_config ?s b item = Some
     (case item_named s n item of None \<Rightarrow> (?s, None) | Some c \<Rightarrow> (add_refs (tally (b # ms)) s, Some c))"
    using get_node_config_eq [OF t' n', of item] by (simp add: add_refs_tally split: option.split)
  have put: "configs_put_node ?s (Some b) True (Some root_node) = Some (if ms = [] then drop_root s else s)"
    using put_walked [OF t ms(1)] ms(2) by simp
  have "configs_get_node_path_config s None (Some (path_str nms (item @ v))) setting = Some
       (case item_at s b item setting of
          Inl e \<Rightarrow> (if ms = [] then drop_root s else s, Inl e)
        | Inr c \<Rightarrow> (add_refs (tally (b # ms)) s, Inr (c, b)))"
    using ms(4) n n' c put
    by (auto simp: configs_get_node_path_config_def item_at_def split: option.splits)
  then show ?thesis using ms by blast
qed

text \<open>The two releases after an access take what the access holds, and one reference of the root more.\<close>

lemma nodes_eq_up_chain: "nodes s = nodes s' \<Longrightarrow> up_chain s p stop as = up_chain s' p stop as"
  by (induction as arbitrary: p) (auto split: option.splits)

lemma release_item:
  assumes t: "tree_ok s" and r: "rooted s (ms @ [root_node])" and b: "b = hd (ms @ [root_node])"
    and u: "nodes u = nodes s"
  shows "do { s \<leftarrow> configs_put_node (add_refs (tally (b # ms)) u) (Some b) False None;
       configs_put_node s (Some b) True None } = Some (drop_root u)"
proof -
  let ?as = "tl (ms @ [root_node])"
  have e: "ms @ [root_node] = b # ?as" using b by simp
  obtain n where n: "nodes s b = Some n" "up_chain s (parent_node n) None ?as"
    using rooted_node [OF t] r e by metis
  let ?u = "add_refs (tally (b # ms)) u"
  let ?v = "add_refs (\<lambda>x. - tally [b] x) ?u"
  have "nodes ?u b = Some (n\<lparr>ref_cnt := ref_cnt n + tally (b # ms) b\<rparr>)" using n u by (simp add: nodes_add_refs)
  then have 1: "configs_put_node ?u (Some b) False None = Some ?v" by (rule configs_put_node_one)
  have "nodes ?v b = Some (n\<lparr>ref_cnt := ref_cnt n + tally (b # ms) b - tally [b] b\<rparr>)"
    using n u by (simp add: nodes_add_refs)
  moreover have "up_chain ?v (parent_node n) None ?as"
    using n nodes_eq_up_chain [OF u] by (simp add: up_chain_add_refs)
  ultimately have 2: "configs_put_node ?v (Some b) True None = Some (add_refs (\<lambda>x. - tally (b # ?as) x) ?v)"
    using configs_put_node_all by force
  have "tally (b # ?as) x = tally ms x + tally [root_node] x" for x
    unfolding e [symmetric] by (rule tally_append)
  then have "(\<lambda>x. tally (b # ms) x + - tally [b] x + - tally (b # ?as) x) = (\<lambda>x. - tally [root_node] x)"
    by (simp add: fun_eq_iff tally_Cons)
  then show ?thesis using 1 2 by (simp add: add_refs_add_refs drop_root_def)
qed

section \<open>Every walk returns\<close>

lemma find_son_refs:
  assumes "\<And>b. b \<in> set l \<Longrightarrow> \<exists>m. nodes s b = Some m \<and> nname m \<noteq> None"
  shows "\<exists>f r. find_son s l (Some nm) = Some (add_refs f s, r) \<and> (\<forall>b. r = Some b \<longrightarrow> b \<in> set l)"
proof -
  have r: "b \<in> set l" if "List.find (has_name s nm) l = Some b" for b
    using that by (auto simp: find_Some_iff)
  have "\<exists>f. s = add_refs f s" by (rule exI [of _ "\<lambda>_. 0"]) (simp add: add_refs_0)
  then show ?thesis using find_son_eq [OF assms, where nm = nm] r
    by (auto split: option.splits if_splits)
qed

lemma get_node_with_name_refs:
  assumes t: "tree_ok s" and "nodes s a = Some n" and "son_node_list n \<noteq> None"
  shows "\<exists>f r. configs_get_node_with_name s (Some a) (Some nm) = Some (add_refs f s, r) \<and>
     (\<forall>b. r = Some b \<longrightarrow> is_son s a b)"
proof -
  obtain l where l: "son_node_list n = Some l" using assms by auto
  have "\<exists>m. nodes s b = Some m \<and> nname m \<noteq> None" if "b \<in> set l" for b
    using tree_ok_node [OF t assms(2)] that l by (fastforce simp: node_ok_def son_ok_def)
  then have "\<exists>f r. find_son s l (Some nm) = Some (add_refs f s, r) \<and> (\<forall>b. r = Some b \<longrightarrow> b \<in> set l)"
    by (rule find_son_refs)
  then show ?thesis using assms(2) l by (auto simp: configs_get_node_with_name_def is_son_def)
qed

text \<open>Whatever the text of the path, a walk over a well-formed tree returns, changes nothing but reference counts,
  and ends at a node below the root.\<close>

lemma path_walk_returns:
  assumes "tree_ok s" and "rooted s (a # as)"
  shows "\<exists>f w. path_walk s topn a path = Some (add_refs f s, w) \<and>
     (\<forall>b item. w = Reached b item \<or> (\<exists>e. w = Missing (Some b) e) \<longrightarrow> (\<exists>bs. rooted s (b # bs)))"
  using assms
proof (induction s topn a path arbitrary: as rule: path_walk.induct)
  case (1 s topn a path)
  obtain i sub e where p: "configs_parser_first_node path = (i, sub, e)" using prod_cases3 by blast
  have id: "\<exists>f. s = add_refs f s" by (rule exI [of _ "\<lambda>_. 0"]) (simp add: add_refs_0)
  show ?case
  proof (cases "i = 0 \<or> sub = [] \<or> e")
    case True
    then show ?thesis using p id 1 by (auto simp: path_walk.simps [of s])
  next
    case False
    obtain n where "nodes s a = Some n" "son_node_list n \<noteq> None" by (rule rooted_node [OF 1(2,3)])
    then obtain f r where g: "configs_get_node_with_name s (Some a) (Some sub) = Some (add_refs f s, r)"
      "\<And>b. r = Some b \<Longrightarrow> is_son s a b"
      using get_node_with_name_refs [OF 1(2)] by metis
    show ?thesis
    proof (cases r)
      case None
      then show ?thesis using p False g 1 by (auto simp: path_walk.simps [of s])
    next
      case (Some b)
      have r: "rooted (add_refs f s) (b # a # as)" and t: "tree_ok (add_refs f s)"
        using g Some 1 by (simp_all add: ref_simps)
      have "\<exists>g w. path_walk (add_refs f s) topn b (drop (i + 1) path) = Some (add_refs g (add_refs f s), w) \<and>
         (\<forall>c item. w = Reached c item \<or> (\<exists>e. w = Missing (Some c) e) \<longrightarrow> (\<exists>bs. rooted (add_refs f s) (c # bs)))"
        by (rule 1(1) [OF p [symmetric] refl refl _ _ g(1) refl Some t r]) (use False in auto)
      then show ?thesis using p False g Some by (auto simp: path_walk.simps [of s] add_refs_add_refs ref_simps)
    qed
  qed
qed

lemma end_node_eq:
  assumes "tree_ok s" and "holdable s 0" and "\<forall>nm\<in>set (nms @ [nm]). name_ok nm" and "nms @ [nm] \<noteq> [''root'']"
  shows "\<exists>f. configs_get_node_path_end_node s None (Some (path_str nms nm)) =
     Some (add_refs f s, node_at s root_node (nms @ [nm]))"
  using end_node_loop_eq [OF assms(1) rooted_root, of nms nm] assms(2-4) by (auto simp: configs_get_node_path_end_node_def)

lemma end_node_root:
  assumes "tree_ok s"
  shows "configs_get_node_path_end_node s None (Some ''root'') = Some (s, Some root_node)"
proof -
  obtain r where "nodes s root_node = Some r" "nname r = Some ''root''" using tree_ok_root [OF assms] by metis
  moreover have "configs_parser_first_node ''root'' = (4, ''root'', True)" by code_simp
  ultimately show ?thesis by (simp add: configs_get_node_path_end_node_def end_node_loop.simps [of s None root_node "''root''"])
qed

lemma end_node_returns:
  assumes "tree_ok s" and "rooted s (a # as)"
  shows "\<exists>f r. end_node_loop s root a path = Some (add_refs f s, r) \<and> (\<forall>b. r = Some b \<longrightarrow> (\<exists>bs. rooted s (b # bs)))"
  using assms
proof (induction s root a path arbitrary: as rule: end_node_loop.induct)
  case (1 s root a path)
  obtain i sub e where p: "configs_parser_first_node path = (i, sub, e)" using prod_cases3 by blast
  have id: "\<exists>f. s = add_refs f s" by (rule exI [of _ "\<lambda>_. 0"]) (simp add: add_refs_0)
  obtain n where n: "nodes s a = Some n" "nname n \<noteq> None" "son_node_list n \<noteq> None" by (rule rooted_node [OF 1(2,3)])
  show ?case
  proof (cases "i = 0 \<or> sub = [] \<or> e \<and> root = None \<and> a = root_node \<and> nname n = Some sub")
    case True
    then show ?thesis using p id n 1 by (auto simp: end_node_loop.simps [of s])
  next
    case False
    obtain f r where g: "configs_get_node_with_name s (Some a) (Some sub) = Some (add_refs f s, r)"
      "\<And>b. r = Some b \<Longrightarrow> is_son s a b"
      using get_node_with_name_refs [OF 1(2) n(1,3)] by metis
    let ?c = "case r of None \<Rightarrow> Some (add_refs f s, None)
      | Some b \<Rightarrow> if e then Some (add_refs f s, Some b) else end_node_loop (add_refs f s) root b (drop (i + 1) path)"
    have step: "end_node_loop s root a path = ?c"
      using p False g n by (auto simp: end_node_loop.simps [of s] split: option.splits)
    show ?thesis
    proof (cases "r = None \<or> e")
      case True
      then show ?thesis using step g 1(3) by (auto split: option.splits intro: exI [of _ "a # as"])
    next
      case c: False
      then obtain b where b: "r = Some b" by auto
      have r: "rooted (add_refs f s) (b # a # as)" and t: "tree_ok (add_refs f s)"
        using g b 1 by (simp_all add: ref_simps)
      have nt: "(if e \<and> root = None \<and> a = root_node then do { nm \<leftarrow> nname n; Some (nm = sub) } else Some False) = Some False"
        using n False c by auto
      have "\<exists>g r. end_node_loop (add_refs f s) root b (drop (i + 1) path) = Some (add_refs g (add_refs f s), r) \<and>
         (\<forall>c. r = Some c \<longrightarrow> (\<exists>bs. rooted (add_refs f s) (c # bs)))"
        by (rule 1(1) [OF p [symmetric] refl refl _ n(1) nt _ g(1) refl b _ t r]) (use False c in auto)
      then show ?thesis using step b c by (auto simp: add_refs_add_refs ref_simps)
    qed
  qed
qed

section \<open>Registration keeps trees well-formed\<close>

lemma nodes_set_node [simp]: "nodes (set_node a n s) = (nodes s)(a \<mapsto> n)"
  by (simp add: set_node_def)

lemma arrays_set_node [simp]: "arrays (set_node a n s) = arrays s"
  by (simp add: set_node_def)

lemma cmem_set_node [simp]: "cmem (set_node a n s) = cmem s"
  by (simp add: set_node_def)

text \<open>The place of a node in the tree.\<close>

definition same_place :: "mconfig_node \<Rightarrow> mconfig_node \<Rightarrow> bool" where
  "same_place n n' = (ndepth n' = ndepth n \<and> parent_node n' = parent_node n \<and> nlink n' = nlink n \<and>
     son_node_num n' = son_node_num n \<and> son_node_list n' = son_node_list n \<and> rw_flags n' = rw_flags n \<and> nname n' = nname n)"

definition items_ok :: "cfg \<Rightarrow> mconfig_node \<Rightarrow> bool" where
  "items_ok s n = (0 < configs_num n \<longrightarrow>
     (\<exists>arr cs. nconfigs n = Some arr \<and> arrays s arr = Some cs \<and> nat (configs_num n) \<le> length cs))"

lemma tree_ok_same_place:
  assumes t: "tree_ok s" and n: "nodes s a = Some n" and p: "same_place n n'" and i: "items_ok s n'"
  shows "tree_ok (set_node a n' s)"
proof -
  let ?s = "set_node a n' s"
  have son: "son_ok c k n' = son_ok c k n" "son_ok c n' k = son_ok c n k" for c k
    using p by (auto simp: son_ok_def same_place_def)
  have iso: "is_son ?s c b = is_son s c b" for c b
    using n p by (auto simp: is_son_def same_place_def)
  have ex: "(\<exists>m. nodes ?s b = Some m \<and> son_ok c k m) = (\<exists>m. nodes s b = Some m \<and> son_ok c k m)" for b c k
    using n son by auto
  have "node_ok ?s b m" if "nodes ?s b = Some m" for b m
  proof (cases "b = a")
    case True
    have "node_ok ?s a n'" using p i tree_ok_node [OF t n]
      by (auto simp: node_ok_def iso ex son items_ok_def same_place_def simp del: nodes_set_node)
    then show ?thesis using True that by simp
  next
    case False
    then show ?thesis using that tree_ok_node [OF t, of b m] ex by (simp add: node_ok_def iso)
  qed
  moreover obtain r where "nodes s root_node = Some r" "parent_node r = None" "ndepth r = 0" "nlink r = Self"
    "nname r = Some ''root''" "son_node_list r \<noteq> None"
    using tree_ok_root [OF t] .
  ultimately show ?thesis using n p by (auto simp: tree_ok_def same_place_def)
qed

text \<open>A node that is on no list is nobody's son.\<close>

lemma not_son:
  assumes "tree_ok s" and "nodes s a = Some n" and "\<And>p. nlink n \<noteq> On p"
  shows "\<not> is_son s p a"
  using assms tree_ok_son [of s p a] by (auto simp: son_ok_def)

lemma not_own_son: "tree_ok s \<Longrightarrow> \<not> is_son s a a"
  using tree_ok_son [of s a a] by (auto simp: son_ok_def)

lemma son_list: "nodes s a = Some n \<Longrightarrow> son_node_list n = Some l \<Longrightarrow> is_son s a b \<longleftrightarrow> b \<in> set l"
  by (simp add: is_son_def)

lemma tree_ok_link:
  assumes t: "tree_ok s" and ne: "new \<noteq> pa" "new \<noteq> root_node"
    and p: "nodes s pa = Some p" "son_node_list p = Some l" "ndepth p < MAX_DEPTH"
    and n: "nodes s new = Some n" "\<And>q. nlink n \<noteq> On q" "son_node_list n = Some []" "nname n \<noteq> None"
    and p': "p' = p\<lparr>son_node_list := Some (l @ [new]), son_node_num := son_node_num p + 1\<rparr>"
    and n': "n' = n\<lparr>ndepth := ndepth p + 1, nprefix := px, parent_node := Some pa, nlink := On pa,
      rw_flags := rw_flags p AND rw_flags n, active := 1\<rparr>"
  shows "tree_ok (set_node pa p' (set_node new n' s))"
proof -
  let ?s = "set_node pa p' (set_node new n' s)"
  have iso: "is_son ?s c b = (is_son s c b \<or> c = pa \<and> b = new)" for c b
    using ne p n p' n' by (auto simp: is_son_def)
  have pf: "ndepth p' = ndepth p" "son_node_list p' = Some (l @ [new])" "son_node_num p' = son_node_num p + 1"
    "nlink p' = nlink p" "configs_num p' = configs_num p" "nconfigs p' = nconfigs p"
    by (simp_all add: p')
  have nf: "ndepth n' = ndepth p + 1" "son_node_list n' = son_node_list n" "son_node_num n' = son_node_num n"
    "nlink n' = On pa" "configs_num n' = configs_num n" "nconfigs n' = nconfigs n"
    by (simp_all add: n')
  have ns: "\<not> is_son s c new" for c by (rule not_son [OF t n(1,2)])
  have son_p: "son_ok c p' k = son_ok c p k" "son_ok c k p' = son_ok c k p" for c k
    unfolding p' using p by (auto simp: son_ok_def)
  have new_ok: "son_ok pa p n'" unfolding n' using n by (simp add: son_ok_def and.left_commute)
  have ex: "\<exists>m. nodes ?s b = Some m \<and> son_ok c k m"
    if "\<exists>m. nodes s b = Some m \<and> son_ok c k m" "b \<noteq> new" for b c k
    using that ne p(1) son_p by auto
  have "node_ok ?s b m" if m: "nodes ?s b = Some m" for b m
  proof -
    consider "b = pa" | "b = new" | "b \<noteq> pa" "b \<noteq> new" by blast
    then show ?thesis
    proof cases
      case 1
      have "new \<notin> set l" using ns [of pa] son_list [OF p(1,2)] by simp
      moreover have "\<exists>m. nodes ?s c = Some m \<and> son_ok pa p' m" if "c \<in> set l \<union> {new}" for c
      proof (cases "c = new")
        case True
        then show ?thesis using ne new_ok son_p by auto
      next
        case False
        then show ?thesis using that ex [of c pa p'] tree_ok_node [OF t p(1)] p(2) son_p by (auto simp: node_ok_def)
      qed
      ultimately have "node_ok ?s pa p'" using tree_ok_node [OF t p(1)] p(2,3)
        by (simp add: node_ok_def iso pf del: nodes_set_node fun_upd_apply)
      then show ?thesis using 1 m by simp
    next
      case 2
      have "node_ok ?s new n'" using n p tree_ok_node [OF t p(1)] tree_ok_node [OF t n(1)]
        by (simp add: node_ok_def iso nf del: nodes_set_node fun_upd_apply)
      then show ?thesis using 2 m ne by simp
    next
      case 3
      then have m: "nodes s b = Some m" using m by simp
      have "c \<noteq> new" if "son_node_list m = Some k" "c \<in> set k" for c k
        using ns [of b] son_list [OF m that(1)] that(2) by auto
      then show ?thesis using tree_ok_node [OF t m] ex by (fastforce simp: node_ok_def iso)
    qed
  qed
  moreover obtain r where "nodes s root_node = Some r" "parent_node r = None" "ndepth r = 0" "nlink r = Self"
    "nname r = Some ''root''" "son_node_list r \<noteq> None"
    using tree_ok_root [OF t] .
  ultimately show ?thesis using ne p p' by (cases "pa = root_node") (auto simp: tree_ok_def)
qed

text \<open>A node that has been initialised and has no sons.\<close>

definition fresh_leaf :: "cfg \<Rightarrow> nptr \<Rightarrow> bool" where
  "fresh_leaf s a = (a \<noteq> root_node \<and> (case nodes s a of None \<Rightarrow> False | Some n \<Rightarrow> nname n \<noteq> None \<and> son_node_list n = Some []))"

lemma get_node_with_name_any:
  "configs_get_node_with_name s a nm = Some (s', r) \<Longrightarrow> \<exists>f. s' = add_refs f s"
proof -
  have "find_son s l nm = Some (s', r) \<Longrightarrow> \<exists>f. s' = add_refs f s" for l
  proof (induction l)
    case Nil
    then show ?case by (auto intro: exI [of _ "\<lambda>_. 0"] simp: add_refs_0)
  next
    case (Cons b l)
    have "\<exists>f. s = add_refs f s" by (rule exI [of _ "\<lambda>_. 0"]) (simp add: add_refs_0)
    then show ?case using Cons
      by (auto simp: bind_eq_Some_conv configs_inc_node_ref_eq split: if_splits)
  qed
  then show "configs_get_node_with_name s a nm = Some (s', r) \<Longrightarrow> ?thesis"
    by (auto simp: configs_get_node_with_name_def bind_eq_Some_conv)
qed

lemma fresh_leaf_add_refs [ref_simps]: "fresh_leaf (add_refs f s) a = fresh_leaf s a"
  by (auto simp: fresh_leaf_def nodes_add_refs split: option.splits)

lemma linked_iff: "linked n \<longleftrightarrow> (\<exists>p. nlink n = On p)"
  by (simp add: linked_def split: list_link.split)

lemma link_node_ok:
  assumes t: "tree_ok s" and l: "fresh_leaf s new" and ne: "new \<noteq> pa" and d: "nodes s pa = Some p" "ndepth p < MAX_DEPTH"
    and k: "link_node s pa pname new = Some s'"
  shows "tree_ok s'"
proof -
  obtain n px sons where n: "nodes s new = Some n" "son_node_list p = Some sons" "\<not> linked n"
    "s' = set_node pa (p\<lparr>son_node_list := Some (sons @ [new]), son_node_num := son_node_num p + 1\<rparr>)
       (set_node new (n\<lparr>ndepth := ndepth p + 1, nprefix := px, parent_node := Some pa, nlink := On pa,
          rw_flags := rw_flags p AND rw_flags n, active := 1\<rparr>) s)"
    using k d by (auto simp: link_node_def bind_eq_Some_conv split: if_splits)
  have "new \<noteq> root_node" "son_node_list n = Some []" "nname n \<noteq> None" using l n(1) by (auto simp: fresh_leaf_def)
  then show ?thesis using n d unfolding n(4)
    by (intro tree_ok_link [OF t ne _ d(1) n(2) d(2) n(1)]) (auto simp: linked_iff)
qed

lemma configs_register_node_ok:
  assumes t: "tree_ok s" and l: "fresh_leaf s new" and r: "configs_register_node s parent new = Some (s', ret)"
  shows "tree_ok s'"
proof -
  define pa where "pa = (case parent of None \<Rightarrow> root_node | Some a \<Rightarrow> a)"
  show ?thesis
  proof (cases "s' = s")
    case True
    then show ?thesis using t by simp
  next
    case False
    then obtain p pname s1 r1 and n :: mconfig_node where p: "new \<noteq> pa" "nodes s pa = Some p" "ndepth p < MAX_DEPTH"
      and g: "configs_get_node_with_name s (Some pa) (nname n) = Some (s1, r1)"
      and s': "s' = s1 \<or> link_node s1 pa pname new = Some s'"
      using r unfolding configs_register_node_def pa_def [symmetric] Let_def
      by (auto simp: bind_eq_Some_conv split: if_splits) (metis not_le)
    obtain f where f: "s1 = add_refs f s" using get_node_with_name_any [OF g] by blast
    have "tree_ok s1" "fresh_leaf s1 new" "nodes s1 pa = Some (p\<lparr>ref_cnt := ref_cnt p + f pa\<rparr>)"
      using t l f p by (simp_all add: ref_simps)
    then show ?thesis using s' link_node_ok [of s1 new pa] p by auto
  qed
qed

lemma add_refs_id: "\<exists>f. s = add_refs f s"
  by (rule exI [of _ "\<lambda>_. 0"]) (simp add: add_refs_0)

text \<open>Releasing changes nothing but counts.\<close>

lemma put_parents_any: "put_parents s p r = Some s' \<Longrightarrow> \<exists>f. s' = add_refs f s"
proof (erule put_parents.raw_induct [of "\<lambda>s p r s'. \<exists>f. s' = add_refs f s", rotated])
  fix put s p r s'
  assume 1: "\<And>s p r s'. put s p r = Some s' \<Longrightarrow> \<exists>f. s' = add_refs f s"
    "(case p of None \<Rightarrow> Some s
      | Some a \<Rightarrow> if p = r then Some s
          else do { (s, _) \<leftarrow> configs_dec_node_ref s a; n \<leftarrow> nodes s a; put s (parent_node n) r }) = Some s'"
  show "\<exists>f. s' = add_refs f s"
  proof (cases "p = None \<or> p = r")
    case True
    then show ?thesis using 1(2) add_refs_id by (auto split: option.splits)
  next
    case False
    then obtain a where a: "p = Some a" by auto
    obtain n where "nodes s a = Some n" using 1(2) False a by (auto simp: configs_dec_node_ref_eq bind_eq_Some_conv)
    then have "put (add_refs (\<lambda>x. - tally [a] x) s) (parent_node n) r = Some s'"
      using 1(2) False a by (simp add: configs_dec_node_ref_eq nodes_add_refs)
    then obtain f where "s' = add_refs f (add_refs (\<lambda>x. - tally [a] x) s)" using 1(1) by blast
    then show ?thesis by (auto simp: add_refs_add_refs)
  qed
qed

lemma put_node_any: "configs_put_node s a d r = Some s' \<Longrightarrow> \<exists>f. s' = add_refs f s"
  using add_refs_id
  by (auto simp: configs_put_node_def configs_dec_node_ref_eq bind_eq_Some_conv add_refs_add_refs
      split: option.splits if_splits dest!: put_parents_any)

lemma tree_ok_put_node: "configs_put_node s a d r = Some s' \<Longrightarrow> tree_ok s' = tree_ok s"
  by (auto dest!: put_node_any simp: ref_simps)

lemma end_node_tree:
  assumes "tree_ok s" and "configs_get_node_path_end_node s None path = Some (s', r)"
  shows "\<exists>f. s' = add_refs f s" and "\<And>b. r = Some b \<Longrightarrow> \<exists>bs. rooted s (b # bs)"
  using end_node_returns [OF assms(1) rooted_root, of None "the path"] assms(2) add_refs_id [of s]
  by (auto simp: configs_get_node_path_end_node_def split: option.splits)

lemma configs_register_path_node_ok:
  assumes t: "tree_ok s" and l: "fresh_leaf s new" and r: "configs_register_path_node s path new = Some (s', ret)"
  shows "tree_ok s'"
proof (cases "path \<noteq> None \<and> path \<noteq> Some []")
  case True
  obtain s1 parent where e: "configs_get_node_path_end_node s None path = Some (s1, parent)"
    using r True by (auto simp: configs_register_path_node_def bind_eq_Some_conv)
  obtain f where f: "s1 = add_refs f s" using end_node_tree(1) [OF t e] by blast
  then have t1: "tree_ok s1" "fresh_leaf s1 new" using t l by (simp_all add: ref_simps)
  show ?thesis using r True e t1 configs_register_node_ok [OF t1]
    by (auto simp: configs_register_path_node_def bind_eq_Some_conv dest!: tree_ok_put_node split: if_splits)
next
  case False
  then show ?thesis using r configs_register_node_ok [OF t l] by (auto simp: configs_register_path_node_def)
qed

text \<open>The array that is registered has as many items as announced.\<close>

definition array_ok :: "cfg \<Rightarrow> nat \<Rightarrow> int \<Rightarrow> bool" where
  "array_ok s arr num = (0 < num \<longrightarrow> (\<exists>cs. arrays s arr = Some cs \<and> nat num \<le> length cs))"

lemma configs_register_configs_ok:
  assumes "tree_ok s" and "array_ok s arr num" and "configs_register_configs s node arr num = Some (s', ret)"
  shows "tree_ok s'"
  using assms
  by (auto simp: configs_register_configs_def bind_eq_Some_conv array_ok_def items_ok_def same_place_def
      split: option.splits if_splits intro!: tree_ok_same_place)

lemma configs_register_path_configs_ok:
  assumes t: "tree_ok s" and l: "array_ok s arr num" and r: "configs_register_path_configs s path arr num = Some (s', ret)"
  shows "tree_ok s'"
proof (cases "path \<noteq> None \<and> path \<noteq> Some []")
  case True
  obtain s1 parent where e: "configs_get_node_path_end_node s None path = Some (s1, parent)"
    using r True by (auto simp: configs_register_path_configs_def bind_eq_Some_conv)
  obtain f where f: "s1 = add_refs f s" using end_node_tree(1) [OF t e] by blast
  then have t1: "tree_ok s1" "array_ok s1 arr num" using t l by (simp_all add: ref_simps array_ok_def)
  show ?thesis using r True e t1 configs_register_configs_ok [OF t1]
    by (auto simp: configs_register_path_configs_def bind_eq_Some_conv dest!: tree_ok_put_node split: if_splits)
next
  case False
  then show ?thesis using r t by (auto simp: configs_register_path_configs_def)
qed

text \<open>Initialising a node that is in no tree.\<close>

lemma tree_ok_other:
  assumes t: "tree_ok s" and a: "a \<noteq> root_node" "\<And>p. \<not> is_son s p a"
    and n: "node_ok (set_node a n s) a n" "\<And>b. \<not> is_son (set_node a n s) a b \<and> \<not> is_son s a b"
  shows "tree_ok (set_node a n s)"
proof -
  let ?s = "set_node a n s"
  have iso: "is_son ?s c b = is_son s c b" for c b
    using n(2) by (cases "c = a") (auto simp: is_son_def)
  have "node_ok ?s b m" if m: "nodes ?s b = Some m" for b m
  proof (cases "b = a")
    case True
    then show ?thesis using m n by simp
  next
    case False
    then have m: "nodes s b = Some m" using m by simp
    have "c \<noteq> a" if "son_node_list m = Some k" "c \<in> set k" for c k
      using a(2) [of b] son_list [OF m that(1)] that(2) by auto
    then show ?thesis using tree_ok_node [OF t m] by (fastforce simp: node_ok_def iso)
  qed
  moreover obtain r where "nodes s root_node = Some r" "parent_node r = None" "ndepth r = 0" "nlink r = Self"
    "nname r = Some ''root''" "son_node_list r \<noteq> None"
    using tree_ok_root [OF t] .
  ultimately show ?thesis using a by (auto simp: tree_ok_def)
qed

lemma configs_init_new_node_ok:
  assumes t: "tree_ok s" and a: "a \<noteq> root_node" and i: "configs_init_new_node s a name rw = Some s'"
  shows "tree_ok s'" and "fresh_leaf s' a"
proof -
  obtain n n' where n: "nodes s a = Some n" "\<not> linked n" "son_node_list n \<in> {None, Some []}" "s' = set_node a n' s"
    "son_node_list n' = Some []" "son_node_num n' = 0" "nlink n' = Self" "ndepth n' = 0" "configs_num n' = 0"
    "nname n' = Some name"
    using i by (auto simp: configs_init_new_node_def bind_eq_Some_conv split: if_splits)
  have "\<not> is_son s p a" for p using not_son [OF t n(1)] n(2) by (auto simp: linked_iff)
  then show "tree_ok s'" unfolding n(4) using n a
    by (intro tree_ok_other [OF t a]) (auto simp: node_ok_def is_son_def)
  show "fresh_leaf s' a" using n a by (simp add: fresh_leaf_def)
qed

text \<open>Taking a leaf out of its list.\<close>

lemma tree_ok_unlink:
  assumes t: "tree_ok s" and n: "nodes s a = Some n" "nlink n = On p" "son_node_num n = 0"
    and m: "nodes s p = Some m" "son_node_list m = Some l"
    and n': "n' = n\<lparr>active := x, nconfigs := None, configs_num := 0, nlink := Poisoned\<rparr>"
    and m': "m' = m\<lparr>son_node_list := Some (remove1 a l), son_node_num := son_node_num m - 1\<rparr>"
  shows "tree_ok (set_node p m' (set_node a n' s))"
proof -
  let ?s = "set_node p m' (set_node a n' s)"
  have "is_son s p a" using tree_ok_node [OF t n(1)] n(2) by (simp add: node_ok_def)
  then have al: "a \<in> set l" using son_list [OF m] by simp
  have ap: "a \<noteq> p" using not_own_son [OF t, of p] \<open>is_son s p a\<close> by auto
  have ar: "a \<noteq> root_node" by (rule tree_ok_root [OF t]) (use n in auto)
  have lok: "distinct l" "son_node_num m = int (length l)" using tree_ok_node [OF t m(1)] m(2) by (auto simp: node_ok_def)
  have ne: "\<not> is_son s a b" for b
    using tree_ok_node [OF t n(1)] n by (cases "son_node_list n") (auto simp: node_ok_def is_son_def)
  have up: "q = p" if "is_son s q a" for q
    by (rule tree_ok_son [OF t that]) (use n in \<open>simp add: son_ok_def\<close>)
  have iso: "is_son ?s c b = (is_son s c b \<and> b \<noteq> a)" for c b
  proof -
    consider "c = p" | "c = a" | "c \<noteq> p" "c \<noteq> a" by blast
    then show ?thesis
    proof cases
      case 1
      then show ?thesis using m lok(1) by (simp add: is_son_def m')
    next
      case 2
      then show ?thesis using ne [of b] ap n(1) by (simp add: is_son_def n')
    next
      case 3
      then show ?thesis using up [of c] by (auto simp: is_son_def)
    qed
  qed
  have pf: "ndepth m' = ndepth m" "son_node_list m' = Some (remove1 a l)" "son_node_num m' = son_node_num m - 1"
    "nlink m' = nlink m" "configs_num m' = configs_num m" "nconfigs m' = nconfigs m"
    by (simp_all add: m')
  have nf: "ndepth n' = ndepth n" "son_node_list n' = son_node_list n" "son_node_num n' = son_node_num n"
    "nlink n' = Poisoned" "configs_num n' = 0"
    by (simp_all add: n')
  have son_m: "son_ok c m' k = son_ok c m k" "son_ok c k m' = son_ok c k m" for c k
    unfolding m' using m by (auto simp: son_ok_def)
  have ex: "\<exists>k. nodes ?s b = Some k \<and> son_ok c d k"
    if "\<exists>k. nodes s b = Some k \<and> son_ok c d k" "b \<noteq> a" for b c d
    using that m(1) son_m by auto
  have "node_ok ?s b k" if k: "nodes ?s b = Some k" for b k
  proof -
    consider "b = p" | "b = a" | "b \<noteq> p" "b \<noteq> a" by blast
    then show ?thesis
    proof cases
      case 1
      have "\<exists>k. nodes ?s c = Some k \<and> son_ok p m' k" if "c \<in> set (remove1 a l)" for c
        using ex [of c p m'] tree_ok_node [OF t m(1)] m(2) that lok son_m by (auto simp: node_ok_def)
      moreover have "int (length (remove1 a l)) = int (length l) - 1"
        using al length_pos_if_in_set [OF al] by (simp only: length_remove1 if_True)
      ultimately have "node_ok ?s p m'" using tree_ok_node [OF t m(1)] m(2) lok ap
        by (simp add: node_ok_def iso pf del: nodes_set_node fun_upd_apply)
      then show ?thesis using 1 k by simp
    next
      case 2
      have "node_ok ?s a n'" using tree_ok_node [OF t n(1)] n(3)
        by (auto simp: node_ok_def iso nf simp del: nodes_set_node fun_upd_apply)
      then show ?thesis using 2 k ap by simp
    next
      case 3
      then have k: "nodes s b = Some k" using k by simp
      have "c \<noteq> a" if "son_node_list k = Some ks" "c \<in> set ks" for c ks
        using up [of b] son_list [OF k that(1)] that(2) 3 by auto
      then show ?thesis using tree_ok_node [OF t k] ex 3 by (fastforce simp: node_ok_def iso)
    qed
  qed
  moreover obtain r where "nodes s root_node = Some r" "parent_node r = None" "ndepth r = 0" "nlink r = Self"
    "nname r = Some ''root''" "son_node_list r \<noteq> None"
    using tree_ok_root [OF t] .
  ultimately show ?thesis using ar m m' by (cases "p = root_node") (auto simp: tree_ok_def)
qed

lemma set_node_twist: "a \<noteq> b \<Longrightarrow> set_node a x (set_node b y s) = set_node b y (set_node a x s)"
  by (simp add: set_node_def fun_upd_twist)

lemma set_node_same [simp]: "set_node a x (set_node a y s) = set_node a x s"
  by (simp add: set_node_def)

lemma configs_del_endnode_ok:
  assumes t: "tree_ok s" and n: "nodes s a = Some n" "parent = None \<or> (\<exists>p. parent = Some p \<and> nlink n = On p)"
    and d: "configs_del_endnode s parent a = Some (s', ret)"
  shows "tree_ok s'"
proof -
  have off: "tree_ok (set_node a (n\<lparr>active := 0\<rparr>) s)"
    using tree_ok_node [OF t n(1)]
    by (intro tree_ok_same_place [OF t n(1)]) (auto simp: same_place_def items_ok_def node_ok_def)
  let ?n1 = "n\<lparr>active := 0, nconfigs := None, configs_num := 0\<rparr>"
  have clr: "tree_ok (set_node a ?n1 s)"
    by (rule tree_ok_same_place [OF t n(1)]) (simp_all add: same_place_def items_ok_def)
  show ?thesis
  proof (cases "ref_cnt n \<noteq> 0 \<or> 0 < son_node_num n \<or> parent = None")
    case True
    then show ?thesis using d n off clr by (auto simp: configs_del_endnode_def Let_def split: if_splits)
  next
    case False
    then obtain p where p: "parent = Some p" "nlink n = On p" using n by auto
    have sp: "is_son s p a" using tree_ok_node [OF t n(1)] p(2) by (simp add: node_ok_def)
    then obtain m l where m: "nodes s p = Some m" "son_node_list m = Some l" by (auto simp: is_son_def split: option.splits)
    have ap: "a \<noteq> p" using not_own_son [OF t, of p] sp by auto
    have "0 \<le> son_node_num n"
      using tree_ok_node [OF t n(1)] by (cases "son_node_list n") (auto simp: node_ok_def)
    then have z: "son_node_num n = 0" using False by simp
    let ?n' = "n\<lparr>active := 0, nconfigs := None, configs_num := 0, nlink := Poisoned\<rparr>"
    let ?m' = "m\<lparr>son_node_list := Some (remove1 a l), son_node_num := son_node_num m - 1\<rparr>"
    have "s' = set_node p ?m' (set_node a ?n' s)"
      using d False p m n ap z
      by (simp add: configs_del_endnode_def Let_def list_del_def set_node_twist [of p a])
    then show ?thesis using tree_ok_unlink [OF t n(1) p(2) z m refl refl] by simp
  qed
qed

section \<open>Rights and names in a well-formed tree\<close>

lemma rooted_rights:
  assumes t: "tree_ok s" and r: "rooted s (b # as)" and a: "a \<in> set (b # as)"
    and n: "nodes s a = Some n" and m: "nodes s b = Some m"
  shows "rw_flags n AND rw_flags m = rw_flags m"
  using r a m
proof (induction as arbitrary: b m)
  case Nil
  then show ?case using n by simp
next
  case (Cons c as)
  obtain k k' where k: "nodes s c = Some k" "nodes s b = Some k'" "son_ok c k k'"
    using tree_ok_son [OF t] Cons.prems(1) by (metis rooted.simps(3))
  show ?case
  proof (cases "a = b")
    case True
    then show ?thesis using n Cons.prems by simp
  next
    case False
    then have "rw_flags n AND rw_flags k = rw_flags k" using Cons k by (metis rooted.simps(3) set_ConsD)
    moreover have "rw_flags k AND rw_flags m = rw_flags m" using k Cons.prems(3) by (simp add: son_ok_def)
    ultimately show ?thesis by (metis and.assoc)
  qed
qed

lemma rooted_depth:
  assumes "tree_ok s" and "rooted s (a # as)"
  shows "length as \<le> 8"
proof -
  obtain n where "nodes s a = Some n" "ndepth n = int (length as)" by (rule rooted_node [OF assms])
  then show ?thesis using tree_ok_node [OF assms(1)] by (fastforce simp: node_ok_def)
qed

text \<open>After a node has been linked below \<open>pa\<close> everything that was found is found as before, and the new node is
  found by its name unless a son of that name, which must be inactive, stands before it.\<close>

lemma son_named_link:
  assumes t: "tree_ok s" and ne: "new \<noteq> pa" and l: "fresh_leaf s new"
    and k: "link_node s pa pname new = Some s'"
  shows "son_named s' c nm = (if c = pa \<and> has_name s nm new \<and> List.find (has_name s nm) (sons_of s pa) = None
     then Some new else son_named s c nm)"
proof -
  obtain p n px sons where p: "nodes s pa = Some p" "nodes s new = Some n" "son_node_list p = Some sons" "\<not> linked n"
    "s' = set_node pa (p\<lparr>son_node_list := Some (sons @ [new]), son_node_num := son_node_num p + 1\<rparr>)
       (set_node new (n\<lparr>ndepth := ndepth p + 1, nprefix := px, parent_node := Some pa, nlink := On pa,
          rw_flags := rw_flags p AND rw_flags n, active := 1\<rparr>) s)"
    using k by (auto simp: link_node_def bind_eq_Some_conv split: if_splits)
  have e: "son_node_list n = Some []" using l p(2) by (simp add: fresh_leaf_def)
  have ns: "\<not> is_son s q new" for q using not_son [OF t p(2)] p(4) by (auto simp: linked_iff)
  have hn: "has_name s' nm = has_name s nm"
    using p(1,2) ne unfolding p(5) by (auto simp: fun_eq_iff has_name_def)
  have so: "sons_of s' d = (if d = pa then sons_of s pa @ [new] else sons_of s d)" for d
    using p(1-3) e ne unfolding p(5) by (auto simp: sons_of_def)
  have ac: "is_active s' b = is_active s b" if "b \<noteq> new" for b
    using p(1,2) ne that unfolding p(5) by (auto simp: is_active_def)
  have new: "is_active s' new" using ne unfolding p(5) by (simp add: is_active_def)
  have fnd: "List.find P (xs @ [y]) = (case List.find P xs of None \<Rightarrow> if P y then Some y else None | Some z \<Rightarrow> Some z)"
    for P xs and y :: nptr by (induction xs) auto
  have other: "b \<noteq> new" if "List.find (has_name s nm) (sons_of s d) = Some b" for b d
    using that ns [of d] by (auto simp: find_Some_iff is_son_iff)
  show ?thesis
  proof (cases "c = pa")
    case True
    then show ?thesis using hn so new ac other by (auto simp: son_named_def fnd split: option.splits)
  next
    case False
    then show ?thesis using hn so ac other by (auto simp: son_named_def split: option.splits)
  qed
qed

lemma holdable_link:
  assumes "link_node s pa pname new = Some s'" and "new \<noteq> pa" and "holdable s d" and "can_hold s new"
  shows "holdable s' d"
  using assms by (auto simp: link_node_def bind_eq_Some_conv holdable_def can_hold_def set_node_def split: if_splits)

lemma node_at_link:
  assumes "tree_ok s" and "new \<noteq> pa" and "fresh_leaf s new" and "link_node s pa pname new = Some s'"
    and "node_at s a nms = Some b"
  shows "node_at s' a nms = Some b"
  using assms(5)
proof (induction nms arbitrary: a)
  case (Cons nm nms)
  then obtain c where c: "son_named s a nm = Some c" "node_at s c nms = Some b" by (auto split: option.splits)
  then have "List.find (has_name s nm) (sons_of s a) \<noteq> None" by (auto simp: son_named_def split: option.splits)
  then have "son_named s' a nm = Some c" using son_named_link [OF assms(1-4), of a nm] c by auto
  then show ?case using Cons.IH c by simp
qed simp

section \<open>Start\<close>

text \<open>Static storage before it is initialised.\<close>

definition zero_node :: mconfig_node where
  "zero_node = \<lparr>nprefix = [], nname = None, active = 0, ndepth = 0, parent_node = None, nlink = Raw, son_node_num = 0,
     son_node_list = None, configs_num = 0, nconfigs = None, ref_cnt = 0, rw_flags = 0\<rparr>"

definition raw_store :: "cfg \<Rightarrow> bool" where
  "raw_store s = ((\<forall>a n. nodes s a = Some n \<longrightarrow> n = zero_node) \<and> nodes s root_node = Some zero_node)"

lemma system_init_ok:
  assumes "raw_store s"
  shows "\<exists>s'. configs_config_system_init s = Some (s', 0) \<and> tree_ok s'"
proof -
  let ?r = "zero_node\<lparr>nconfigs := None, configs_num := 0, son_node_num := 0, nname := Some ''root'',
       rw_flags := CONFIG_FOR_RW, ndepth := 0, active := 1, nprefix := [], ref_cnt := 0, nlink := Self,
       son_node_list := Some []\<rparr>"
  have "configs_config_system_init s = Some (set_node root_node ?r s, 0)"
    using assms by (simp add: configs_config_system_init_def configs_init_new_node_def configs_register_node_def
        raw_store_def linked_def zero_node_def)
  moreover have "tree_ok (set_node root_node ?r s)"
  proof -
    have "node_ok (set_node root_node ?r s) a n" if "nodes (set_node root_node ?r s) a = Some n" for a n
    proof (cases "a = root_node")
      case True
      then have "n = ?r" using that by simp
      then show ?thesis by (simp add: node_ok_def zero_node_def)
    next
      case False
      then have "n = zero_node" using that assms by (simp add: raw_store_def)
      then show ?thesis by (simp add: node_ok_def zero_node_def)
    qed
    then show ?thesis unfolding tree_ok_def by (simp add: zero_node_def)
  qed
  ultimately show ?thesis by blast
qed

lemma rooted_put_any:
  assumes t: "tree_ok s" and r: "rooted s (a # as)"
  shows "\<exists>f. configs_put_node s (Some a) True (Some root_node) = Some (add_refs f s)"
proof (cases "a = root_node")
  case True
  then show ?thesis using put_walked [of s "[]"] t by (auto simp: drop_root_def)
next
  case False
  then show ?thesis using rooted_put_top [OF t r] by blast
qed

text \<open>C35: Every lookup returns.  Over a well-formed tree a request for an item by any path, whatever its text, ends
  and changes nothing but reference counts; so does the search for a node, and what it found can be released.\<close>

theorem config_lookup_returns:
  assumes t: "tree_ok s"
  shows "(\<exists>f r. configs_get_node_path_config s None path setting = Some (add_refs f s, r)) \<and>
     (\<exists>f g r. configs_get_node_path_end_node s None path = Some (add_refs f s, r) \<and>
        configs_put_node (add_refs f s) r True None = Some (add_refs g s))"
proof
  show "\<exists>f r. configs_get_node_path_config s None path setting = Some (add_refs f s, r)"
  proof (cases path)
    case None
    then show ?thesis using add_refs_id [of s] by (auto simp: configs_get_node_path_config_def)
  next
    case (Some p)
    obtain f w where w: "path_walk s root_node root_node p = Some (add_refs f s, w)"
      "\<And>b item e. w = Reached b item \<or> w = Missing (Some b) e \<Longrightarrow> \<exists>bs. rooted s (b # bs)"
      using path_walk_returns [OF t rooted_root, of root_node p] by blast
    have put: "\<exists>g. configs_put_node (add_refs f s) (Some b) True (Some root_node) = Some (add_refs g s)"
      if "rooted s (b # bs)" for b bs
      using rooted_put_any [of "add_refs f s" b bs] t that by (auto simp: ref_simps add_refs_add_refs)
    show ?thesis
    proof (cases w)
      case Bad_Name
      then show ?thesis using w Some by (auto simp: configs_get_node_path_config_def)
    next
      case (Missing b e)
      then show ?thesis using w put Some
        by (cases b) (fastforce simp: configs_get_node_path_config_def configs_put_node_def)+
    next
      case (Reached b item)
      then obtain bs where r: "rooted s (b # bs)" using w(2) by blast
      obtain g where g: "configs_put_node (add_refs f s) (Some b) True (Some root_node) = Some (add_refs g s)"
        using put [OF r] by blast
      obtain n where n: "nodes s b = Some n" by (rule rooted_node [OF t r])
      have t': "tree_ok (add_refs f s)" "nodes (add_refs f s) b = Some (n\<lparr>ref_cnt := ref_cnt n + f b\<rparr>)"
        using t n by (simp_all add: ref_simps)
      show ?thesis using w(1) Some Reached g t'(2) get_node_config_eq [OF t', of item]
        by (auto simp: configs_get_node_path_config_def add_refs_add_refs split: option.splits)
    qed
  qed
next
  show "\<exists>f g r. configs_get_node_path_end_node s None path = Some (add_refs f s, r) \<and>
        configs_put_node (add_refs f s) r True None = Some (add_refs g s)"
  proof (cases path)
    case None
    then show ?thesis using add_refs_id [of s] by (fastforce simp: configs_get_node_path_end_node_def configs_put_node_def)
  next
    case (Some p)
    obtain f r where r: "end_node_loop s None root_node p = Some (add_refs f s, r)"
      "\<And>b. r = Some b \<Longrightarrow> \<exists>bs. rooted s (b # bs)"
      using end_node_returns [OF t rooted_root, of None p] by blast
    have "\<exists>g. configs_put_node (add_refs f s) r True None = Some (add_refs g s)"
    proof (cases r)
      case (Some b)
      then obtain bs where "rooted (add_refs f s) (b # bs)" using r(2) by (auto simp: ref_simps)
      then show ?thesis using rooted_put [of "add_refs f s" b bs] t Some by (auto simp: ref_simps add_refs_add_refs)
    qed (auto simp: configs_put_node_def)
    then show ?thesis using Some r(1) by (auto simp: configs_get_node_path_end_node_def)
  qed
qed

section \<open>A small tree\<close>

text \<open>The tree used as a concrete instance: the root with one node \<open>media\<close> of four items.\<close>

definition demo_items :: "mconfig list" where
  "demo_items = [\<lparr>c_type = 2, c_id = 0, item_name = ''x'', ldata0 = 0x1000, ldata1 = 0, c_size = 0\<rparr>,
     \<lparr>c_type = 22, c_id = 0, item_name = ''z'', ldata0 = 0, ldata1 = 0, c_size = 0\<rparr>,
     \<lparr>c_type = 21, c_id = 0, item_name = ''n'', ldata0 = 5, ldata1 = 0, c_size = 0\<rparr>,
     \<lparr>c_type = 25, c_id = 0, item_name = ''b'', ldata0 = 1, ldata1 = 0, c_size = 0\<rparr>]"

definition demo_store :: cfg where
  "demo_store = \<lparr>nodes = [0 \<mapsto> zero_node, 1 \<mapsto> zero_node], arrays = [7 \<mapsto> demo_items],
     cmem = [0x1000 \<mapsto> 1, 0x1001 \<mapsto> 0, 0x1002 \<mapsto> 0, 0x1003 \<mapsto> 0]\<rparr>"

definition demo_media :: mconfig_node where
  "demo_media = \<lparr>nprefix = [], nname = Some ''media'', active = 1, ndepth = 1, parent_node = Some 0, nlink = On 0,
     son_node_num = 0, son_node_list = Some [], configs_num = 4, nconfigs = Some 7, ref_cnt = 0, rw_flags = 3\<rparr>"

definition demo_root :: mconfig_node where
  "demo_root = \<lparr>nprefix = [], nname = Some ''root'', active = 1, ndepth = 0, parent_node = None, nlink = Self,
     son_node_num = 1, son_node_list = Some [1], configs_num = 0, nconfigs = None, ref_cnt = 0, rw_flags = 3\<rparr>"

definition demo_cfg :: cfg where
  "demo_cfg = demo_store\<lparr>nodes := [0 \<mapsto> demo_root, 1 \<mapsto> demo_media]\<rparr>"

lemma demo_tree: "tree_ok demo_cfg"
  by (auto simp: tree_ok_def node_ok_def demo_cfg_def demo_store_def demo_root_def demo_media_def demo_items_def
      root_node_def son_ok_def is_son_def)

theorem config_lookup_returns_witness:
  "tree_ok demo_cfg \<and>
     (\<exists>f r. configs_get_node_path_config demo_cfg None (Some ''media..x'') True = Some (add_refs f demo_cfg, r))"
  using config_lookup_returns [OF demo_tree, of "Some ''media..x''" True] demo_tree by blast

end
