(* ===== verification/Config_Values.thy ===== *)
theory Config_Values
  imports Configs
begin

unbundle bit_operations_syntax

text \<open>
  The values of configuration items, \<open>configs.c\<close>: the union of an item with what it points to, values as text
  (\<open>configs_config2str\<close>, \<open>configs_str2config\<close>) and as numbers (\<open>configs_setget_config_value\<close>), and the exported
  functions that set and get an item by its path.

  Memory is a partial map from addresses to bytes.  The conversions of the kernel and the functions that items point
  to are parameters.
\<close>

section \<open>Memory that items point to\<close>

primrec mem_read :: "(u64 \<Rightarrow> u8 option) \<Rightarrow> u64 \<Rightarrow> nat \<Rightarrow> u8 list option" where
  "mem_read m p 0 = Some []"
| "mem_read m p (Suc k) = do { b \<leftarrow> m p; bs \<leftarrow> mem_read m (p + 1) k; Some (b # bs) }"

primrec mem_write :: "(u64 \<Rightarrow> u8 option) \<Rightarrow> u64 \<Rightarrow> u8 list \<Rightarrow> (u64 \<Rightarrow> u8 option) option" where
  "mem_write m p [] = Some m"
| "mem_write m p (b # bs) = do { _ \<leftarrow> m p; mem_write (m(p \<mapsto> b)) (p + 1) bs }"

text \<open>The C string at an address.\<close>

partial_function (option) mem_str :: "(u64 \<Rightarrow> u8 option) \<Rightarrow> u64 \<Rightarrow> u8 list option" where
  "mem_str m p = do {
     b \<leftarrow> m p;
     if b = 0 then Some [] else do { bs \<leftarrow> mem_str m (p + 1); Some (b # bs) }
   }"

text \<open>The bytes that \<open>strncpy\<close> reads from an address, up to the terminator or \<open>k\<close> of them.\<close>

primrec mem_strn :: "(u64 \<Rightarrow> u8 option) \<Rightarrow> u64 \<Rightarrow> nat \<Rightarrow> u8 list option" where
  "mem_strn m p 0 = Some []"
| "mem_strn m p (Suc k) = do {
     b \<leftarrow> m p;
     if b = 0 then Some [] else do { bs \<leftarrow> mem_strn m (p + 1) k; Some (b # bs) }
   }"

definition str_bytes :: "string \<Rightarrow> u8 list" where
  "str_bytes cs = map (\<lambda>c. of_nat (of_char c)) cs"

definition pad0 :: "nat \<Rightarrow> u8 list \<Rightarrow> u8 list" where
  "pad0 k bs = take k bs @ replicate (k - length bs) 0"

section \<open>Values of items\<close>

abbreviation (input) CONFIG_TYPE_PI32 :: int where "CONFIG_TYPE_PI32 \<equiv> 1"
abbreviation (input) CONFIG_TYPE_PU32 :: int where "CONFIG_TYPE_PU32 \<equiv> 2"
abbreviation (input) CONFIG_TYPE_PU64 :: int where "CONFIG_TYPE_PU64 \<equiv> 4"
abbreviation (input) CONFIG_TYPE_PBOOL :: int where "CONFIG_TYPE_PBOOL \<equiv> 5"
abbreviation (input) CONFIG_TYPE_PSTR :: int where "CONFIG_TYPE_PSTR \<equiv> 7"
abbreviation (input) CONFIG_TYPE_PCSTR :: int where "CONFIG_TYPE_PCSTR \<equiv> 8"
abbreviation (input) CONFIG_TYPE_I32 :: int where "CONFIG_TYPE_I32 \<equiv> 21"
abbreviation (input) CONFIG_TYPE_U32 :: int where "CONFIG_TYPE_U32 \<equiv> 22"
abbreviation (input) CONFIG_TYPE_U64 :: int where "CONFIG_TYPE_U64 \<equiv> 24"
abbreviation (input) CONFIG_TYPE_BOOL :: int where "CONFIG_TYPE_BOOL \<equiv> 25"
abbreviation (input) CONFIG_TYPE_FUN :: int where "CONFIG_TYPE_FUN \<equiv> 100"

text \<open>What the values take from outside: the conversions \<open>sscanf\<close> with \<open>-%d\<close>, \<open>0x%x\<close>, \<open>-%lld\<close> and \<open>0x%llx\<close> (the
  value if one was converted), \<open>kstrtou32\<close> and \<open>kstrtou64\<close> with base 0 (result and value), and the functions that
  items of type \<open>CONFIG_TYPE_FUN\<close> point to.  A get function gives its result and the text it leaves in the buffer,
  a set function its result and the memory.\<close>

record cfg_env =
  scan_neg32 :: "string \<Rightarrow> u32 option"
  scan_hex32 :: "string \<Rightarrow> u32 option"
  kstrtou32 :: "string \<Rightarrow> int \<times> u32"
  scan_neg64 :: "string \<Rightarrow> u64 option"
  scan_hex64 :: "string \<Rightarrow> u64 option"
  kstrtou64 :: "string \<Rightarrow> int \<times> u64"
  get_fun :: "u64 \<Rightarrow> string \<Rightarrow> int \<Rightarrow> int \<Rightarrow> (u64 \<Rightarrow> u8 option) \<Rightarrow> int \<times> string"
  set_fun :: "u64 \<Rightarrow> string \<Rightarrow> int \<Rightarrow> string \<Rightarrow> (u64 \<Rightarrow> u8 option) \<Rightarrow> int \<times> (u64 \<Rightarrow> u8 option)"

fun strstr :: "string \<Rightarrow> string \<Rightarrow> bool" where
  "strstr [] pat = (pat = [])"
| "strstr (c # cs) pat = (take (length pat) (c # cs) = pat \<or> strstr cs pat)"

text \<open>The result and the value written, if one is; a conversion that fails leaves a value that no caller uses.\<close>

definition configs_parser_value_u32 :: "cfg_env \<Rightarrow> string \<Rightarrow> int \<times> u32" where
  "configs_parser_value_u32 e str =
     (if str = [] then (0, 0)
      else let pstr = dropWhile (\<lambda>c. c = CHR '' '') str
      in if take 1 pstr = ''-'' then
           (case scan_neg32 e pstr of None \<Rightarrow> (0, 0) | Some v \<Rightarrow> (1, - v))
         else if strstr pstr ''0x'' then
           (case scan_hex32 e pstr of None \<Rightarrow> (0, 0) | Some v \<Rightarrow> (1, v))
         else (case kstrtou32 e pstr of (ret, v) \<Rightarrow> (if ret = 0 then 1 else ret, v)))"

definition configs_parser_value_u64 :: "cfg_env \<Rightarrow> string \<Rightarrow> int \<times> u64" where
  "configs_parser_value_u64 e str =
     (if str = [] then (0, 0)
      else let pstr = dropWhile (\<lambda>c. c = CHR '' '') str
      in if take 1 pstr = ''-'' then
           (case scan_neg64 e pstr of None \<Rightarrow> (0, 0) | Some v \<Rightarrow> (1, scast (- (ucast v :: u32))))
         else if strstr pstr ''0x'' then
           (case scan_hex64 e pstr of None \<Rightarrow> (0, 0) | Some v \<Rightarrow> (1, v))
         else (case kstrtou64 e pstr of (ret, v) \<Rightarrow> (if ret = 0 then 1 else ret, v)))"

text \<open>Spaces are skipped, but the tests look at the string from its start.  The test for \<open>false\<close> lacks its negation.\<close>

definition configs_parser_value_bool :: "string \<Rightarrow> int \<times> bool" where
  "configs_parser_value_bool str =
     (if str = [] then (0, False)
      else if hd str = CHR ''1'' then (1, True)
      else if hd str = CHR ''0'' then (1, False)
      else if str = ''true'' \<or> str = ''TRUE'' \<or> str = ''true'' then (1, True)
      else if str \<noteq> ''false'' \<or> str = ''FALSE'' \<or> str = ''False'' then (1, False)
      else (0, False))"

definition the_config :: "cfg \<Rightarrow> cptr \<Rightarrow> mconfig option" where
  "the_config s c = do { cs \<leftarrow> arrays s (fst c); if snd c < length cs then Some (cs ! snd c) else None }"

definition set_config :: "cptr \<Rightarrow> mconfig \<Rightarrow> cfg \<Rightarrow> cfg" where
  "set_config c v s = s\<lparr>arrays := (arrays s)(fst c := map_option (\<lambda>cs. cs[snd c := v]) (arrays s (fst c)))\<rparr>"

text \<open>Members of the union that cover only part of its first half.\<close>

definition with_u32 :: "u32 \<Rightarrow> mconfig \<Rightarrow> mconfig" where
  "with_u32 v c = c\<lparr>ldata0 := push_bit 32 (drop_bit 32 (ldata0 c)) OR ucast v\<rparr>"

definition with_bool :: "bool \<Rightarrow> mconfig \<Rightarrow> mconfig" where
  "with_bool v c = c\<lparr>ldata0 := push_bit 8 (drop_bit 8 (ldata0 c)) OR (if v then 1 else 0)\<rparr>"

definition mem_put :: "cfg \<Rightarrow> u64 \<Rightarrow> u8 list \<Rightarrow> cfg option" where
  "mem_put s p bs = do { m \<leftarrow> mem_write (cmem s) p bs; Some (s\<lparr>cmem := m\<rparr>) }"

section \<open>Values as text\<close>

text \<open>The text that is formatted for an item and the value of \<open>ret\<close> before the final adjustment; no text where
  nothing is written.  \<open>%s\<close> prints \<open>(null)\<close> for \<open>NULL\<close>.\<close>

definition config_text :: "cfg_env \<Rightarrow> cfg \<Rightarrow> mconfig \<Rightarrow> int \<Rightarrow> (int \<times> string option) option" where
  "config_text e s c size' =
     (let wr = \<lambda>t. (int (length t), Some t);
          load32 = map_option of_le32 (mem_read (cmem s) (ldata0 c) 4)
      in if c_type c = CONFIG_TYPE_PBOOL then
        do { bs \<leftarrow> mem_read (cmem s) (ldata0 c) 1; Some (wr (if bs = [0] then ''false'' else ''true'')) }
      else if c_type c = CONFIG_TYPE_PI32 then do { v \<leftarrow> load32; Some (wr (radix 10 (unat v))) }
      else if c_type c = CONFIG_TYPE_PU32 then do { v \<leftarrow> load32; Some (wr (fmt_d (sint v))) }
      else if c_type c = CONFIG_TYPE_PU64 then
        do { bs \<leftarrow> mem_read (cmem s) (ldata0 c) 8; Some (wr (radix 16 (unat (of_le64 bs)))) }
      else if c_type c = CONFIG_TYPE_PSTR \<or> c_type c = CONFIG_TYPE_PCSTR then
        (if ldata0 c = 0 then Some (wr ''(null)'')
         else do { bs \<leftarrow> mem_str (cmem s) (ldata0 c); Some (wr (cstr_str bs)) })
      else if c_type c = CONFIG_TYPE_BOOL then Some (wr (if ldata0 c \<noteq> 0 then ''true'' else ''false''))
      else if c_type c = CONFIG_TYPE_I32 then Some (wr (fmt_d (sint (ucast (ldata0 c) :: u32))))
      else if c_type c = CONFIG_TYPE_U32 then Some (wr (radix 10 (unat (ucast (ldata0 c) :: u32))))
      else if c_type c = CONFIG_TYPE_U64 then Some (wr (''0x'' @ radix 16 (unat (ldata0 c))))
      else if c_type c = CONFIG_TYPE_FUN then
        (if ldata0 c = 0 then Some (0, None)
         else case get_fun e (ldata0 c) (item_name c) (c_id c) size' (cmem s) of (ret, t) \<Rightarrow>
           if int (length t) < size' then Some (ret, Some t) else None)
      else Some (-4, None))"

text \<open>The result and the text left in the buffer, if any: \<open>snprintf\<close> cuts it to \<open>size - 1\<close> characters.\<close>

definition configs_config2str :: "cfg_env \<Rightarrow> cfg \<Rightarrow> mconfig \<Rightarrow> int \<Rightarrow> (int \<times> string option) option" where
  "configs_config2str e s c size' =
     (if size' < 1 then Some (0, None)
      else do {
        (ret, t) \<leftarrow> config_text e s c size';
        let t = map_option (take (nat size' - 1)) t;
        Some (if size' \<le> ret then size' - 1 else ret, t)
      })"

definition configs_str2config :: "cfg_env \<Rightarrow> cfg \<Rightarrow> cptr \<Rightarrow> string \<Rightarrow> (cfg \<times> int) option" where
  "configs_str2config e s cp str =
     (if str = [] then Some (s, 0)
      else do {
        c \<leftarrow> the_config s cp;
        if c_type c = CONFIG_TYPE_PBOOL \<or> c_type c = CONFIG_TYPE_BOOL then (
          let (ret, bval) = configs_parser_value_bool str
          in if ret \<le> 0 then Some (s, ret)
             else if c_type c = CONFIG_TYPE_PBOOL then
               do { s \<leftarrow> mem_put s (ldata0 c) [if bval then 1 else 0]; Some (s, ret) }
             else Some (set_config cp (with_bool bval c) s, ret))
        else if c_type c = CONFIG_TYPE_PI32 \<or> c_type c = CONFIG_TYPE_PU32 then (
          let (ret, val) = configs_parser_value_u32 e str
          in if 0 < ret then do { s \<leftarrow> mem_put s (ldata0 c) (le32 val); Some (s, ret) } else Some (s, ret))
        else if c_type c = CONFIG_TYPE_PU64 then (
          let (ret, val64) = configs_parser_value_u64 e str
          in if 0 < ret then do { s \<leftarrow> mem_put s (ldata0 c) (le64 val64); Some (s, ret) } else Some (s, ret))
        else if c_type c = CONFIG_TYPE_PSTR then
          (if c_size c < 0 then None
           else do {
             s \<leftarrow> mem_put s (ldata0 c) (pad0 (nat (c_size c)) (str_bytes str));
             bs \<leftarrow> mem_str (cmem s) (ldata0 c);
             Some (s, int (length bs))
           })
        else if c_type c = CONFIG_TYPE_I32 \<or> c_type c = CONFIG_TYPE_U32 then (
          let (ret, val) = configs_parser_value_u32 e str
          in Some (if 0 < ret then set_config cp (with_u32 val c) s else s, ret))
        else if c_type c = CONFIG_TYPE_U64 then (
          let (ret, val64) = configs_parser_value_u64 e str
          in Some (if 0 < ret then set_config cp (c\<lparr>ldata0 := val64\<rparr>) s else s, ret))
        else if c_type c = CONFIG_TYPE_FUN then
          (if ldata1 c = 0 then Some (s, -1)
           else case set_fun e (ldata1 c) (item_name c) (c_id c) str (cmem s) of (ret, m) \<Rightarrow>
             Some (s\<lparr>cmem := m\<rparr>, ret))
        else Some (s, -4)
      })"

section \<open>Values as numbers\<close>

text \<open>\<open>val\<close> is the variable of the caller, \<open>size\<close> bytes wide, that is copied to the item or from it.  The test for
  \<open>NULL\<close> looks at the union also when it holds the value itself.\<close>

definition configs_setget_config_value ::
    "cfg \<Rightarrow> cptr \<Rightarrow> u8 list \<Rightarrow> int \<Rightarrow> bool \<Rightarrow> (cfg \<times> u8 list \<times> int) option" where
  "configs_setget_config_value s cp val size' setting = do {
     c \<leftarrow> the_config s cp;
     if ldata0 c = 0 then Some (s, val, -1)
     else if c_type c = CONFIG_TYPE_PU32 \<or> c_type c = CONFIG_TYPE_PI32 then
       (if size' < 4 then Some (s, val, -2)
        else if setting then do {
          bs \<leftarrow> get_bytes val 0 4;
          s \<leftarrow> mem_put s (ldata0 c) bs;
          Some (s, val, 4)
        }
        else do {
          bs \<leftarrow> mem_read (cmem s) (ldata0 c) 4;
          val \<leftarrow> put_bytes val 0 bs;
          Some (s, val, 4)
        })
     else if c_type c = CONFIG_TYPE_PU64 then
       (if size' < 8 then Some (s, val, -2)
        else if setting then do {
          bs \<leftarrow> get_bytes val 0 8;
          s \<leftarrow> mem_put s (ldata0 c) bs;
          Some (s, val, 8)
        }
        else do {
          bs \<leftarrow> mem_read (cmem s) (ldata0 c) 8;
          val \<leftarrow> put_bytes val 0 bs;
          Some (s, val, 8)
        })
     else if c_type c = CONFIG_TYPE_PCSTR \<and> setting then Some (s, val, -3)
     else if c_type c = CONFIG_TYPE_PCSTR \<or> c_type c = CONFIG_TYPE_PSTR then (
       let n = min (size' - 1) (c_size c - 1)
       in if n \<le> 0 then Some (s, val, -3)
          else if setting then do {
            bs \<leftarrow> get_bytes val 0 (nat n);
            s \<leftarrow> mem_put s (ldata0 c) (pad0 (nat n) (takeWhile (\<lambda>b. b \<noteq> 0) bs));
            Some (s, val, n)
          }
          else do {
            bs \<leftarrow> mem_strn (cmem s) (ldata0 c) (nat n);
            val \<leftarrow> put_bytes val 0 (pad0 (nat n) bs);
            Some (s, val, n)
          })
     else if c_type c = CONFIG_TYPE_U32 \<or> c_type c = CONFIG_TYPE_I32 then
       (if size' < 4 then Some (s, val, -2)
        else if setting then do {
          v \<leftarrow> rd32 val 0;
          Some (set_config cp (with_u32 v c) s, val, 4)
        }
        else do {
          val \<leftarrow> put_bytes val 0 (le32 (ucast (ldata0 c)));
          Some (s, val, 4)
        })
     else if c_type c = CONFIG_TYPE_U64 then
       (if size' < 8 then Some (s, val, -2)
        else if setting then do {
          v \<leftarrow> rd64 val 0;
          Some (set_config cp (c\<lparr>ldata0 := v\<rparr>) s, val, 8)
        }
        else do {
          val \<leftarrow> put_bytes val 0 (le64 (ldata0 c));
          Some (s, val, 8)
        })
     else Some (s, val, -4)
   }"

section \<open>Access by path\<close>

definition configs_setget_node_path_value ::
    "cfg \<Rightarrow> nptr option \<Rightarrow> string option \<Rightarrow> u8 list \<Rightarrow> int \<Rightarrow> bool \<Rightarrow> (cfg \<times> u8 list \<times> int) option" where
  "configs_setget_node_path_value s topnode path val size' setting = do {
     (s, r) \<leftarrow> configs_get_node_path_config s topnode path setting;
     case r of
       Inl err \<Rightarrow> Some (s, val, err)
     | Inr (c, node) \<Rightarrow> do {
         (s, val, ret) \<leftarrow> configs_setget_config_value s c val size' setting;
         s \<leftarrow> configs_put_node s (Some node) False topnode;
         s \<leftarrow> configs_put_node s (Some node) True topnode;
         Some (s, val, ret)
       }
   }"

definition configs_set_node_path_str :: "cfg_env \<Rightarrow> cfg \<Rightarrow> nptr option \<Rightarrow> string option \<Rightarrow> string option \<Rightarrow> (cfg \<times> int) option" where
  "configs_set_node_path_str e s topnode path val =
     (case (path, val) of
        (Some p, Some v) \<Rightarrow>
          if p = [] \<or> v = [] then Some (s, -1)
          else do {
            (s, r) \<leftarrow> configs_get_node_path_config s topnode path True;
            case r of
              Inl err \<Rightarrow> Some (s, err)
            | Inr (c, node) \<Rightarrow> do {
                (s, ret) \<leftarrow> configs_str2config e s c v;
                s \<leftarrow> configs_put_node s (Some node) False topnode;
                s \<leftarrow> configs_put_node s (Some node) True topnode;
                Some (s, if 0 < ret then 0 else if ret = 0 then -1 else ret)
              }
          }
      | _ \<Rightarrow> Some (s, -1))"

text \<open>\<open>path + strlen(topnode->name) + 1\<close> leaves the string when the path is just the name.\<close>

definition below_name :: "string \<Rightarrow> string \<Rightarrow> string option" where
  "below_name name path = (if length name < length path then Some (drop (length name + 1) path) else None)"

definition configs_set_node_nodepath_str :: "cfg_env \<Rightarrow> cfg \<Rightarrow> nptr option \<Rightarrow> string \<Rightarrow> string option \<Rightarrow> (cfg \<times> int) option" where
  "configs_set_node_nodepath_str e s topnode path val =
     (case topnode of
        None \<Rightarrow> configs_set_node_path_str e s None (Some path) val
      | Some a \<Rightarrow> do {
          n \<leftarrow> nodes s a;
          name \<leftarrow> nname n;
          if take (length name) path \<noteq> name then Some (s, -1)
          else do { p \<leftarrow> below_name name path; configs_set_node_path_str e s topnode (Some p) val }
        })"

definition configs_set_prefix_path_str :: "cfg_env \<Rightarrow> cfg \<Rightarrow> string option \<Rightarrow> string option \<Rightarrow> string option \<Rightarrow> (cfg \<times> int) option" where
  "configs_set_prefix_path_str e s prefix' path str =
     (if prefix' \<noteq> None \<and> prefix' \<noteq> Some [] then do {
        (s, topnode) \<leftarrow> configs_get_node_path_end_node s None prefix';
        if topnode = None then Some (s, -1)
        else do {
          (s, ret) \<leftarrow> configs_set_node_path_str e s topnode path str;
          s \<leftarrow> configs_put_node s topnode True None;
          Some (s, ret)
        }
      }
      else configs_set_node_path_str e s None path str)"

definition configs_set_node_path_valonpath :: "cfg_env \<Rightarrow> cfg \<Rightarrow> nptr option \<Rightarrow> string \<Rightarrow> (cfg \<times> int) option" where
  "configs_set_node_path_valonpath e s topnode path =
     configs_set_node_path_str e s topnode (Some path) (configs_parser_str_valstr path)"

definition configs_set_prefix_path_valonpath :: "cfg_env \<Rightarrow> cfg \<Rightarrow> string option \<Rightarrow> string \<Rightarrow> (cfg \<times> int) option" where
  "configs_set_prefix_path_valonpath e s prefix' path =
     (if prefix' \<noteq> None \<and> prefix' \<noteq> Some [] then do {
        (s, topnode) \<leftarrow> configs_get_node_path_end_node s None prefix';
        if topnode = None then Some (s, -1)
        else do {
          (s, ret) \<leftarrow> configs_set_node_path_str e s topnode (Some path) (configs_parser_str_valstr path);
          s \<leftarrow> configs_put_node s topnode True None;
          Some (s, ret)
        }
      }
      else configs_set_node_path_str e s None (Some path) (configs_parser_str_valstr path))"

definition configs_get_node_path_str :: "cfg_env \<Rightarrow> cfg \<Rightarrow> nptr option \<Rightarrow> string option \<Rightarrow> int \<Rightarrow> (cfg \<times> string option \<times> int) option" where
  "configs_get_node_path_str e s topnode path size' =
     (if path = None \<or> path = Some [] then Some (s, None, -1)
      else do {
        (s, r) \<leftarrow> configs_get_node_path_config s topnode path False;
        case r of
          Inl err \<Rightarrow> Some (s, None, err)
        | Inr (cp, node) \<Rightarrow> do {
            c \<leftarrow> the_config s cp;
            (ret, t) \<leftarrow> configs_config2str e s c size';
            s \<leftarrow> configs_put_node s (Some node) False topnode;
            s \<leftarrow> configs_put_node s (Some node) True topnode;
            Some (s, t, ret)
          }
      })"

definition configs_get_node_nodepath_str :: "cfg_env \<Rightarrow> cfg \<Rightarrow> nptr option \<Rightarrow> string \<Rightarrow> int \<Rightarrow> (cfg \<times> string option \<times> int) option" where
  "configs_get_node_nodepath_str e s topnode path size' =
     (case topnode of
        None \<Rightarrow> configs_get_node_path_str e s None (Some path) size'
      | Some a \<Rightarrow> do {
          n \<leftarrow> nodes s a;
          name \<leftarrow> nname n;
          if take (length name) path \<noteq> name then Some (s, None, -1)
          else do { p \<leftarrow> below_name name path; configs_get_node_path_str e s topnode (Some p) size' }
        })"

definition configs_get_node_path_u32 :: "cfg \<Rightarrow> nptr option \<Rightarrow> string option \<Rightarrow> u32 \<Rightarrow> (cfg \<times> u32 \<times> int) option" where
  "configs_get_node_path_u32 s topnode path val = do {
     (s, v, ret) \<leftarrow> configs_setget_node_path_value s topnode path (le32 val) 4 False;
     Some (s, of_le32 v, ret)
   }"

definition configs_get_node_path_u64 :: "cfg \<Rightarrow> nptr option \<Rightarrow> string option \<Rightarrow> u64 \<Rightarrow> (cfg \<times> u64 \<times> int) option" where
  "configs_get_node_path_u64 s topnode path val = do {
     (s, v, ret) \<leftarrow> configs_setget_node_path_value s topnode path (le64 val) 8 False;
     Some (s, of_le64 v, ret)
   }"

definition configs_set_node_path_u32 :: "cfg \<Rightarrow> nptr option \<Rightarrow> string option \<Rightarrow> u32 \<Rightarrow> (cfg \<times> int) option" where
  "configs_set_node_path_u32 s topnode path val = do {
     (s, _, ret) \<leftarrow> configs_setget_node_path_value s topnode path (le32 val) 4 True;
     Some (s, ret)
   }"

definition configs_set_node_path_u64 :: "cfg \<Rightarrow> nptr option \<Rightarrow> string option \<Rightarrow> u64 \<Rightarrow> (cfg \<times> int) option" where
  "configs_set_node_path_u64 s topnode path val = do {
     (s, _, ret) \<leftarrow> configs_setget_node_path_value s topnode path (le64 val) 8 True;
     Some (s, ret)
   }"

section \<open>Values do not touch the tree\<close>

lemma the_config_add_refs [ref_simps]: "the_config (add_refs f s) c = the_config s c"
  by (simp add: the_config_def)

lemma set_config_add_refs [ref_simps]: "set_config c v (add_refs f s) = add_refs f (set_config c v s)"
  by (simp add: set_config_def add_refs_def)

lemma mem_put_add_refs [ref_simps]: "mem_put (add_refs f s) p bs = map_option (add_refs f) (mem_put s p bs)"
  by (cases "mem_write (cmem s) p bs") (auto simp: mem_put_def add_refs_def)

lemma nodes_set_config [simp]: "nodes (set_config c v s) = nodes s"
  by (simp add: set_config_def)

lemma cmem_set_config [simp]: "cmem (set_config c v s) = cmem s"
  by (simp add: set_config_def)

lemma mem_put_keeps:
  "mem_put s p bs = Some s' \<Longrightarrow> nodes s' = nodes s \<and> arrays s' = arrays s"
  by (auto simp: mem_put_def bind_eq_Some_conv)

text \<open>The two halves of an access see the same item: what one does is the same with other reference counts.\<close>

lemma option_bind_map: "(map_option g x \<bind> h) = (x \<bind> (\<lambda>y. h (g y)))"
  by (cases x) auto

lemma option_map_bind: "map_option g (x \<bind> h) = (x \<bind> (\<lambda>y. map_option g (h y)))"
  by (cases x) auto

lemma setget_add_refs:
  "configs_setget_config_value (add_refs f s) c val k w =
     map_option (\<lambda>(s, x). (add_refs f s, x)) (configs_setget_config_value s c val k w)"
  unfolding configs_setget_config_value_def Let_def
  by (simp only: the_config_add_refs mem_put_add_refs set_config_add_refs cmem_add_refs option_bind_map option_map_bind
      if_distrib [of "map_option (\<lambda>(s, x). (add_refs f s, x))"] option.map prod.case)

lemma str2config_add_refs:
  "configs_str2config e (add_refs f s) c str =
     map_option (\<lambda>(s, x). (add_refs f s, x)) (configs_str2config e s c str)"
proof -
  have cm: "(add_refs f s)\<lparr>cmem := m\<rparr> = add_refs f (s\<lparr>cmem := m\<rparr>)" for m by (simp add: add_refs_def)
  show ?thesis
    unfolding configs_str2config_def Let_def
    by (simp only: the_config_add_refs mem_put_add_refs set_config_add_refs cmem_add_refs option_bind_map option_map_bind
        if_distrib [of "map_option (\<lambda>(s, x). (add_refs f s, x))"] if_distrib [of "add_refs f"] option.map prod.case
        prod.case_distrib [of "map_option (\<lambda>(s, x). (add_refs f s, x))"] cm)
qed

text \<open>An access keeps the nodes and the names of the items.\<close>

definition keeps_items :: "cfg \<Rightarrow> cfg \<Rightarrow> bool" where
  "keeps_items s s' = (nodes s' = nodes s \<and>
     (\<forall>arr. map_option (map item_name) (arrays s' arr) = map_option (map item_name) (arrays s arr)))"

lemma keeps_items_refl [simp]: "keeps_items s s"
  by (simp add: keeps_items_def)

lemma keeps_items_mem_put: "mem_put s p bs = Some s' \<Longrightarrow> keeps_items s s'"
  using mem_put_keeps by (auto simp: keeps_items_def)

lemma keeps_items_cmem [simp]: "keeps_items s (s\<lparr>cmem := m\<rparr>)"
  by (simp add: keeps_items_def)

lemma the_config_SomeD: "the_config s c = Some d \<Longrightarrow> \<exists>cs. arrays s (fst c) = Some cs \<and> snd c < length cs \<and> cs ! snd c = d"
  by (auto simp: the_config_def bind_eq_Some_conv split: if_splits)

lemma keeps_items_set_config:
  assumes "the_config s c = Some d" and "item_name v = item_name d"
  shows "keeps_items s (set_config c v s)"
proof -
  obtain cs where cs: "arrays s (fst c) = Some cs" "snd c < length cs" "cs ! snd c = d"
    using the_config_SomeD [OF assms(1)] by blast
  have "map item_name (cs[snd c := v]) = map item_name cs"
    using cs assms(2) by (metis list_update_id map_update)
  then show ?thesis using cs by (auto simp: keeps_items_def set_config_def)
qed

lemma item_name_with [simp]:
  "item_name (with_u32 v c) = item_name c" "item_name (with_bool b c) = item_name c"
  by (simp_all add: with_u32_def with_bool_def)

lemma setget_keeps:
  "configs_setget_config_value s c val k w = Some (s', val', ret) \<Longrightarrow> keeps_items s s'"
  unfolding configs_setget_config_value_def Let_def
  by (auto simp: bind_eq_Some_conv split: if_splits intro: keeps_items_mem_put keeps_items_set_config)

lemma str2config_keeps:
  "configs_str2config e s c str = Some (s', ret) \<Longrightarrow> keeps_items s s'"
  unfolding configs_str2config_def Let_def
  by (auto simp: bind_eq_Some_conv split: if_splits prod.splits intro: keeps_items_mem_put keeps_items_set_config)

lemma keeps_length:
  assumes "keeps_items s s'" and "arrays s arr = Some cs"
  shows "\<exists>cs'. arrays s' arr = Some cs' \<and> length cs' = length cs \<and> (\<forall>i < length cs. item_name (cs' ! i) = item_name (cs ! i))"
proof -
  have "map_option (map item_name) (arrays s' arr) = Some (map item_name cs)" using assms by (simp add: keeps_items_def)
  then obtain cs' where "arrays s' arr = Some cs'" "map item_name cs' = map item_name cs" by auto
  then show ?thesis by (metis length_map nth_map)
qed

lemma son_named_nodes:
  assumes "nodes s' = nodes s"
  shows "son_named s' a nm = son_named s a nm"
proof -
  have "is_active s' = is_active s" "sons_of s' = sons_of s" "has_name s' = has_name s"
    using assms by (simp_all add: fun_eq_iff is_active_def sons_of_def has_name_def)
  then show ?thesis by (simp only: son_named_def)
qed

lemma keeps_tree:
  assumes "keeps_items s s'"
  shows "node_at s' a nms = node_at s a nms" and "rooted s' as = rooted s as" and "holdable s' d = holdable s d"
    and "is_son s' = is_son s"
proof -
  have n: "nodes s' = nodes s" using assms by (simp add: keeps_items_def)
  have "son_named s' a nm = son_named s a nm" for a nm by (rule son_named_nodes [OF n])
  then show "node_at s' a nms = node_at s a nms" by (induction nms arbitrary: a) (auto split: option.splits)
  show i: "is_son s' = is_son s" using n by (simp add: is_son_def fun_eq_iff)
  show "rooted s' as = rooted s as" by (induction as rule: induct_list012) (simp_all add: i)
  show "holdable s' d = holdable s d" using n by (simp add: holdable_def can_hold_def)
qed

lemma keeps_tree_ok:
  assumes k: "keeps_items s s'" and t: "tree_ok s"
  shows "tree_ok s'"
proof -
  have n: "nodes s' = nodes s" using k by (simp add: keeps_items_def)
  have "node_ok s' a m" if "node_ok s a m" for a m
  proof -
    have "\<exists>arr cs. nconfigs m = Some arr \<and> arrays s' arr = Some cs \<and> nat (configs_num m) \<le> length cs" if "0 < configs_num m"
      using that \<open>node_ok s a m\<close> keeps_length [OF k] by (fastforce simp: node_ok_def)
    then show ?thesis using that n keeps_tree(4) [OF k] by (simp add: node_ok_def)
  qed
  then show ?thesis using t n by (simp add: tree_ok_def)
qed

lemma keeps_item_at:
  assumes k: "keeps_items s s'" and t: "tree_ok s"
  shows "item_at s' b item w = item_at s b item w"
proof (cases "nodes s b")
  case (Some n)
  have "item_named s' n item = item_named s n item"
  proof (cases "0 < configs_num n")
    case True
    then obtain arr cs where a: "nconfigs n = Some arr" "arrays s arr = Some cs" "nat (configs_num n) \<le> length cs"
      using tree_ok_node [OF t Some] by (auto simp: node_ok_def)
    obtain cs' where c: "arrays s' arr = Some cs'" "\<forall>i < length cs. item_name (cs' ! i) = item_name (cs ! i)"
      using keeps_length [OF k a(2)] by blast
    have "List.find (\<lambda>i. item_name (cs' ! i) = item) [0..<nat (configs_num n)] =
        List.find (\<lambda>i. item_name (cs ! i) = item) [0..<nat (configs_num n)]"
      using a(3) c(2) by (intro find_cong) auto
    then show ?thesis using a c by (simp add: item_named_def)
  next
    case False
    then show ?thesis by (simp add: item_named_def split: option.splits)
  qed
  then show ?thesis using Some k by (simp add: item_at_def keeps_items_def)
qed (use k in \<open>simp add: item_at_def keeps_items_def\<close>)

section \<open>Access by path\<close>

text \<open>A path of well-formed names, from the root.\<close>

definition path_ok :: "string list \<Rightarrow> string \<Rightarrow> string \<Rightarrow> bool" where
  "path_ok nms item v = ((\<forall>nm\<in>set nms. name_ok nm) \<and> name_ok item \<and> rest_ok v)"

definition cfg_path :: "string list \<Rightarrow> string \<Rightarrow> string option" where
  "cfg_path nms item = Some (path_str nms item)"

lemma path_str_nonempty: "path_ok nms item v \<Longrightarrow> path_str nms (item @ v) \<noteq> []"
  by (cases nms) (auto simp: path_ok_def name_ok_def)

text \<open>What a request by path gives: the error, or the item.\<close>

definition lookup_item :: "cfg \<Rightarrow> string list \<Rightarrow> string \<Rightarrow> bool \<Rightarrow> int + cptr" where
  "lookup_item s nms item setting =
     (case node_at s root_node nms of None \<Rightarrow> Inl (- EPERM) | Some b \<Rightarrow> item_at s b item setting)"

lemma path_config_cases:
  assumes "tree_ok s" and "holdable s 0" and "path_ok nms item v"
  obtains (failed) err where "lookup_item s nms item w = Inl err"
      "configs_get_node_path_config s None (Some (path_str nms (item @ v))) w \<in>
         {Some (s', Inl err') | s' err'. err' < 0 \<and> s' \<in> {s, drop_root s}}"
    | (found) c b ms where "lookup_item s nms item w = Inr c" "rooted s (ms @ [root_node])" "b = hd (ms @ [root_node])"
      "configs_get_node_path_config s None (Some (path_str nms (item @ v))) w = Some (add_refs (tally (b # ms)) s, Inr (c, b))"
proof (cases "node_at s root_node nms")
  case None
  have "configs_get_node_path_config s None (Some (path_str nms (item @ v))) w \<in>
     {Some (s, Inl (- EPERM)), Some (s, Inl (- ENOENT))}"
    using assms None by (intro path_config_missing) (auto simp: path_ok_def)
  then show ?thesis using None failed by (auto simp: lookup_item_def)
next
  case (Some b)
  obtain ms where ms: "rooted s (ms @ [root_node])" "b = hd (ms @ [root_node])"
     "configs_get_node_path_config s None (Some (path_str nms (item @ v))) w = Some
       (case item_at s b item w of
          Inl e \<Rightarrow> (if ms = [] then drop_root s else s, Inl e)
        | Inr c \<Rightarrow> (add_refs (tally (b # ms)) s, Inr (c, b)))"
    using path_config_found [OF assms(1,2) _ _ _ Some, of item v w] assms(3) by (auto simp: path_ok_def)
  show ?thesis
  proof (cases "item_at s b item w")
    case (Inl e)
    then have "e < 0" by (auto simp: item_at_def split: option.splits if_splits)
    then show ?thesis using failed [of e] ms Inl Some by (auto simp: lookup_item_def)
  next
    case (Inr c)
    then show ?thesis using found [of c ms b] ms Some by (auto simp: lookup_item_def)
  qed
qed

lemma drop_root_keeps:
  "tree_ok (drop_root s) = tree_ok s" "node_at (drop_root s) a nms = node_at s a nms"
  "item_at (drop_root s) b item w = item_at s b item w" "the_config (drop_root s) c = the_config s c"
  "arrays (drop_root s) = arrays s" "cmem (drop_root s) = cmem s"
  "lookup_item (drop_root s) nms item w = lookup_item s nms item w"
  by (simp_all add: drop_root_def ref_simps lookup_item_def split: option.split)

lemma holdable_drop_root:
  assumes "tree_ok s" and "holdable s 0"
  shows "holdable (drop_root s) 0"
proof -
  obtain r where "nodes s root_node = Some r" "ndepth r = 0" using tree_ok_root [OF assms(1)] by metis
  then show ?thesis using assms(2)
    by (auto simp: holdable_def can_hold_def drop_root_def nodes_add_refs tally_def)
qed

lemma setget_path_found:
  assumes t: "tree_ok s" and h: "holdable s 0" and p: "path_ok nms item v" and c: "lookup_item s nms item w = Inr c"
  shows "configs_setget_node_path_value s None (Some (path_str nms (item @ v))) val k w =
     map_option (\<lambda>(s, x). (drop_root s, x)) (configs_setget_config_value s c val k w)"
proof (cases rule: path_config_cases [OF t h p, of w, case_names failed found])
  case (found c' b ms)
  then have [simp]: "c' = c" using c by simp
  have put: "do { s \<leftarrow> configs_put_node (add_refs (tally (b # ms)) u) (Some b) False None;
      s \<leftarrow> configs_put_node s (Some b) True None; Some (s, x, y) } = Some (drop_root u, x, y)"
    if "keeps_items s u" for u and x :: "u8 list" and y :: int
    using release_item [OF t found(2,3), of u] that by (auto simp: keeps_items_def bind_eq_Some_conv)
  show ?thesis
  proof (cases "configs_setget_config_value s c val k w")
    case None
    then show ?thesis using found by (simp add: configs_setget_node_path_value_def setget_add_refs)
  next
    case (Some r)
    obtain u x y where r: "r = (u, x, y)" using prod_cases3 by blast
    then show ?thesis using found Some put [OF setget_keeps, of c val k w u x y x y]
      by (simp add: configs_setget_node_path_value_def setget_add_refs)
  qed
qed (use c in simp)

lemma set_str_found:
  assumes t: "tree_ok s" and h: "holdable s 0" and p: "path_ok nms item v" and c: "lookup_item s nms item True = Inr c"
    and str: "str \<noteq> []"
  shows "configs_set_node_path_str e s None (Some (path_str nms (item @ v))) (Some str) =
     map_option (\<lambda>(s, ret). (drop_root s, if 0 < ret then 0 else if ret = 0 then -1 else ret)) (configs_str2config e s c str)"
proof (cases rule: path_config_cases [OF t h p, of True, case_names failed found])
  case (found c' b ms)
  then have [simp]: "c' = c" using c by simp
  have put: "do { s \<leftarrow> configs_put_node (add_refs (tally (b # ms)) u) (Some b) False None;
      s \<leftarrow> configs_put_node s (Some b) True None; Some (s, y) } = Some (drop_root u, y)"
    if "keeps_items s u" for u and y :: int
    using release_item [OF t found(2,3), of u] that by (auto simp: keeps_items_def bind_eq_Some_conv)
  note ne = path_str_nonempty [OF p]
  show ?thesis
  proof (cases "configs_str2config e s c str")
    case None
    then show ?thesis using found str ne by (simp add: configs_set_node_path_str_def str2config_add_refs)
  next
    case (Some r)
    obtain u y where r: "r = (u, y)" by (cases r)
    then show ?thesis using found str ne Some put [OF str2config_keeps, of e c str u y]
      by (simp add: configs_set_node_path_str_def str2config_add_refs)
  qed
qed (use c in simp)

lemma config2str_add_refs [ref_simps]: "configs_config2str e (add_refs f s) c k = configs_config2str e s c k"
  by (simp only: configs_config2str_def config_text_def cmem_add_refs)

lemma get_str_found:
  assumes t: "tree_ok s" and h: "holdable s 0" and p: "path_ok nms item v" and c: "lookup_item s nms item False = Inr c"
    and d: "the_config s c = Some d"
  shows "configs_get_node_path_str e s None (Some (path_str nms (item @ v))) k =
     map_option (\<lambda>(ret, text). (drop_root s, text, ret)) (configs_config2str e s d k)"
proof (cases rule: path_config_cases [OF t h p, of False, case_names failed found])
  case (found c' b ms)
  then have [simp]: "c' = c" using c by simp
  have put: "do { s \<leftarrow> configs_put_node (add_refs (tally (b # ms)) s) (Some b) False None;
      s \<leftarrow> configs_put_node s (Some b) True None; Some (s, x, y) } = Some (drop_root s, x, y)"
    for x :: "string option" and y :: int
    using release_item [OF t found(2,3), of s] by (auto simp: bind_eq_Some_conv)
  show ?thesis
    using found path_str_nonempty [OF p] put d
    by (cases "configs_config2str e s d k")
      (auto simp: configs_get_node_path_str_def config2str_add_refs the_config_add_refs)
qed (use c in simp)

section \<open>Numbers and memory\<close>

definition mapped :: "(u64 \<Rightarrow> u8 option) \<Rightarrow> u64 \<Rightarrow> nat \<Rightarrow> bool" where
  "mapped m p k = (\<forall>i<k. m (p + of_nat i) \<noteq> None)"

lemma mapped_Suc: "mapped m p (Suc k) = (m p \<noteq> None \<and> mapped m (p + 1) k)"
  unfolding mapped_def All_less_Suc2 by (simp add: add.assoc)

lemma mem_write_other:
  "mem_write m p bs = Some m' \<Longrightarrow> (\<And>i. i < length bs \<Longrightarrow> q \<noteq> p + of_nat i) \<Longrightarrow> m' q = m q"
proof (induction bs arbitrary: m p)
  case (Cons b bs)
  have "q \<noteq> p" using Cons.prems(2) [of 0] by simp
  moreover have "q \<noteq> p + 1 + of_nat i" if "i < length bs" for i
    using Cons.prems(2) [of "Suc i"] that by (simp add: add.assoc)
  moreover have w: "mem_write (m(p \<mapsto> b)) (p + 1) bs = Some m'" using Cons.prems(1) by (auto simp: bind_eq_Some_conv)
  ultimately show ?case using Cons.IH [OF w] by simp
qed simp

lemma mapped_upd: "mapped m p k \<Longrightarrow> mapped (m(q \<mapsto> b)) p k"
  by (simp add: mapped_def)

lemma mem_write_mapped: "mapped m p (length bs) \<Longrightarrow> \<exists>m'. mem_write m p bs = Some m'"
proof (induction bs arbitrary: m p)
  case (Cons b bs)
  then have "m p \<noteq> None" "mapped (m(p \<mapsto> b)) (p + 1) (length bs)" by (auto simp: mapped_Suc intro: mapped_upd)
  then show ?case using Cons.IH by auto
qed simp

lemma mem_write_keeps_mapped: "mem_write m p bs = Some m' \<Longrightarrow> mapped m q k \<Longrightarrow> mapped m' q k"
  by (induction bs arbitrary: m p) (auto simp: bind_eq_Some_conv intro: mapped_upd)

lemma word_step_neq: "Suc i < 2 ^ 64 \<Longrightarrow> (p :: u64) \<noteq> p + 1 + of_nat i"
proof
  assume i: "Suc i < 2 ^ 64" and "p = p + 1 + of_nat i"
  then have "(of_nat (Suc i) :: u64) = 0" by (simp add: add.assoc)
  then have "unat (of_nat (Suc i) :: u64) = 0" by simp
  then show False using i by (simp add: unat_of_nat take_bit_nat_eq_self del: of_nat_Suc)
qed

lemma mem_read_write:
  "mem_write m p bs = Some m' \<Longrightarrow> length bs < 2 ^ 64 \<Longrightarrow> mem_read m' p (length bs) = Some bs"
proof (induction bs arbitrary: m p)
  case (Cons b bs)
  then have w: "mem_write (m(p \<mapsto> b)) (p + 1) bs = Some m'" by (auto simp: bind_eq_Some_conv)
  have "p \<noteq> p + 1 + of_nat i" if "i < length bs" for i
    by (rule word_step_neq) (use that Cons.prems(2) in simp)
  then have "m' p = Some b" using mem_write_other [OF w, of p] by simp
  then show ?case using Cons.IH [OF w] Cons.prems(2) by simp
qed simp

lemma mem_put_read:
  assumes "mapped (cmem s) p (length bs)" and "length bs < 2 ^ 64"
  shows "\<exists>s'. mem_put s p bs = Some s' \<and> mem_read (cmem s') p (length bs) = Some bs \<and> keeps_items s s' \<and>
    arrays s' = arrays s \<and> (\<forall>q k. mapped (cmem s) q k \<longrightarrow> mapped (cmem s') q k)"
proof -
  obtain m where m: "mem_write (cmem s) p bs = Some m" using mem_write_mapped [OF assms(1)] by blast
  then show ?thesis using mem_read_write [OF m assms(2)] mem_write_keeps_mapped [OF m] by (simp add: mem_put_def)
qed

lemma u32_with_u32 [simp]: "ucast (ldata0 (with_u32 v c)) = (v :: u32)"
  unfolding with_u32_def by (rule bit_word_eqI) (auto simp: bit_simps)

lemma c_type_with [simp]:
  "c_type (with_u32 v c) = c_type c" "c_type (with_bool b c) = c_type c"
  by (simp_all add: with_u32_def with_bool_def)

lemma the_config_set [simp]: "the_config s c = Some d \<Longrightarrow> the_config (set_config c v s) c = Some v"
  using the_config_SomeD [of s c d] by (auto simp: the_config_def set_config_def)

section \<open>The number interface\<close>

text \<open>An item that can be read and written by its path.\<close>

definition access_ok :: "cfg \<Rightarrow> string list \<Rightarrow> string \<Rightarrow> cptr \<Rightarrow> bool" where
  "access_ok s nms item c =
     (tree_ok s \<and> holdable s 0 \<and> path_ok nms item [] \<and> lookup_item s nms item True = Inr c \<and> lookup_item s nms item False = Inr c)"

lemma access_ok_keeps:
  assumes "access_ok s nms item c" and "keeps_items s s'"
  shows "access_ok s' nms item c" and "access_ok (drop_root s') nms item c"
proof -
  have t: "tree_ok s" using assms(1) by (simp add: access_ok_def)
  have "lookup_item s' nms item w = lookup_item s nms item w" for w
    unfolding lookup_item_def using keeps_tree(1) [OF assms(2)] keeps_item_at [OF assms(2) t] by (simp split: option.split)
  then show "access_ok s' nms item c" using assms keeps_tree_ok [OF assms(2) t] keeps_tree(3) [OF assms(2)] by (simp add: access_ok_def)
  then show "access_ok (drop_root s') nms item c" by (simp add: access_ok_def drop_root_keeps holdable_drop_root)
qed

lemma set_u32_eq:
  assumes "access_ok s nms item c"
  shows "configs_set_node_path_u32 s None (cfg_path nms item) v =
     map_option (\<lambda>(s, x, ret). (drop_root s, ret)) (configs_setget_config_value s c (le32 v) 4 True)"
proof -
  have "configs_setget_node_path_value s None (Some (path_str nms (item @ []))) (le32 v) 4 True =
     map_option (\<lambda>(s, x). (drop_root s, x)) (configs_setget_config_value s c (le32 v) 4 True)"
    using assms unfolding access_ok_def by (intro setget_path_found) auto
  then show ?thesis by (simp add: configs_set_node_path_u32_def cfg_path_def option_bind_map map_conv_bind_option case_prod_unfold comp_def)
qed

lemma get_u32_eq:
  assumes "access_ok s nms item c"
  shows "configs_get_node_path_u32 s None (cfg_path nms item) y =
     map_option (\<lambda>(s, x, ret). (drop_root s, of_le32 x, ret)) (configs_setget_config_value s c (le32 y) 4 False)"
proof -
  have "configs_setget_node_path_value s None (Some (path_str nms (item @ []))) (le32 y) 4 False =
     map_option (\<lambda>(s, x). (drop_root s, x)) (configs_setget_config_value s c (le32 y) 4 False)"
    using assms unfolding access_ok_def by (intro setget_path_found) auto
  then show ?thesis by (simp add: configs_get_node_path_u32_def cfg_path_def option_bind_map map_conv_bind_option case_prod_unfold comp_def)
qed

lemma put_le32: "put_bytes (le32 y) 0 (le32 x) = Some (le32 x)"
  by (simp add: put_bytes_def)

lemma put_le64: "put_bytes (le64 y) 0 (le64 x) = Some (le64 x)"
  by (simp add: put_bytes_def)

lemma set_u64_eq:
  assumes "access_ok s nms item c"
  shows "configs_set_node_path_u64 s None (cfg_path nms item) v =
     map_option (\<lambda>(s, x, ret). (drop_root s, ret)) (configs_setget_config_value s c (le64 v) 8 True)"
proof -
  have "configs_setget_node_path_value s None (Some (path_str nms (item @ []))) (le64 v) 8 True =
     map_option (\<lambda>(s, x). (drop_root s, x)) (configs_setget_config_value s c (le64 v) 8 True)"
    using assms unfolding access_ok_def by (intro setget_path_found) auto
  then show ?thesis by (simp add: configs_set_node_path_u64_def cfg_path_def option_bind_map map_conv_bind_option case_prod_unfold comp_def)
qed

lemma get_u64_eq:
  assumes "access_ok s nms item c"
  shows "configs_get_node_path_u64 s None (cfg_path nms item) y =
     map_option (\<lambda>(s, x, ret). (drop_root s, of_le64 x, ret)) (configs_setget_config_value s c (le64 y) 8 False)"
proof -
  have "configs_setget_node_path_value s None (Some (path_str nms (item @ []))) (le64 y) 8 False =
     map_option (\<lambda>(s, x). (drop_root s, x)) (configs_setget_config_value s c (le64 y) 8 False)"
    using assms unfolding access_ok_def by (intro setget_path_found) auto
  then show ?thesis by (simp add: configs_get_node_path_u64_def cfg_path_def option_bind_map map_conv_bind_option case_prod_unfold comp_def)
qed

text \<open>Setting a pointer item changes the memory it points to, and a later get finds the bytes there.\<close>

lemma pointer_roundtrip:
  assumes a: "access_ok s nms item c" and d: "the_config s c = Some d" "ldata0 d \<noteq> 0"
    and m: "mapped (cmem s) (ldata0 d) (length bs)"
    and ty: "c_type d \<in> {CONFIG_TYPE_PI32, CONFIG_TYPE_PU32} \<and> length bs = 4 \<or> c_type d = CONFIG_TYPE_PU64 \<and> length bs = 8"
  obtains u where "configs_setget_config_value s c bs (int (length bs)) True = Some (u, bs, int (length bs))"
    and "access_ok (drop_root u) nms item c" and "nodes (drop_root u) = nodes (drop_root s)" and "arrays u = arrays s"
    and "\<And>x. length x = length bs \<Longrightarrow>
      configs_setget_config_value (drop_root u) c x (int (length bs)) False = Some (drop_root u, bs, int (length bs))"
proof -
  obtain u where u: "mem_put s (ldata0 d) bs = Some u" "mem_read (cmem u) (ldata0 d) (length bs) = Some bs"
    "keeps_items s u" "arrays u = arrays s"
    using mem_put_read [of s "ldata0 d" bs] m ty by auto
  have d': "the_config (drop_root u) c = Some d" using d(1) u(4) by (simp add: drop_root_keeps the_config_def)
  show ?thesis
  proof (rule that [of u])
    show "configs_setget_config_value s c bs (int (length bs)) True = Some (u, bs, int (length bs))"
      using d ty u by (auto simp: configs_setget_config_value_def get_bytes_def)
    show "access_ok (drop_root u) nms item c" by (rule access_ok_keeps(2) [OF a u(3)])
    show "nodes (drop_root u) = nodes (drop_root s)"
      using u(3) by (simp add: drop_root_def fun_eq_iff nodes_add_refs keeps_items_def)
    show "arrays u = arrays s" by (rule u(4))
    show "configs_setget_config_value (drop_root u) c x (int (length bs)) False = Some (drop_root u, bs, int (length bs))"
      if "length x = length bs" for x
      using d(2) ty u d' that by (auto simp: configs_setget_config_value_def put_bytes_def drop_root_keeps)
  qed
qed

text \<open>C36: Numbers written by path are read back where the item points to its number.  For an item that points to a mapped
  32-bit variable the 32-bit set call returns 4, for one that points to a mapped 64-bit variable the 64-bit set call returns
  8, and every later get call of that width returns the value written; of the nodes only the reference count of the root
  changes, which each call lowers by one.\<close>

theorem config_number_roundtrip:
  assumes a: "access_ok s nms item c" and d: "the_config s c = Some d" "ldata0 d \<noteq> 0"
    and ty: "c_type d \<in> {CONFIG_TYPE_PI32, CONFIG_TYPE_PU32} \<and> mapped (cmem s) (ldata0 d) 4 \<or>
      c_type d = CONFIG_TYPE_PU64 \<and> mapped (cmem s) (ldata0 d) 8"
  shows "if c_type d = CONFIG_TYPE_PU64
     then \<exists>s'. configs_set_node_path_u64 s None (cfg_path nms item) w = Some (s', 8) \<and>
       (\<forall>y. configs_get_node_path_u64 s' None (cfg_path nms item) y = Some (drop_root s', w, 8)) \<and>
       nodes s' = nodes (drop_root s) \<and> arrays s' = arrays s
     else \<exists>s'. configs_set_node_path_u32 s None (cfg_path nms item) v = Some (s', 4) \<and>
       (\<forall>y. configs_get_node_path_u32 s' None (cfg_path nms item) y = Some (drop_root s', v, 4)) \<and>
       nodes s' = nodes (drop_root s) \<and> arrays s' = arrays s"
proof (cases "c_type d = CONFIG_TYPE_PU64")
  case True
  then have m: "mapped (cmem s) (ldata0 d) (length (le64 w))" using ty by auto
  obtain u where u: "configs_setget_config_value s c (le64 w) 8 True = Some (u, le64 w, 8)" "access_ok (drop_root u) nms item c"
    "nodes (drop_root u) = nodes (drop_root s)" "arrays u = arrays s"
    "\<And>y. configs_setget_config_value (drop_root u) c (le64 y) 8 False = Some (drop_root u, le64 w, 8)"
    by (rule pointer_roundtrip [OF a d m]) (use True in auto)
  then show ?thesis using True by (auto simp: set_u64_eq [OF a] get_u64_eq [OF u(2)] drop_root_keeps)
next
  case False
  then have m: "mapped (cmem s) (ldata0 d) (length (le32 v))" using ty by auto
  obtain u where u: "configs_setget_config_value s c (le32 v) 4 True = Some (u, le32 v, 4)" "access_ok (drop_root u) nms item c"
    "nodes (drop_root u) = nodes (drop_root s)" "arrays u = arrays s"
    "\<And>y. configs_setget_config_value (drop_root u) c (le32 y) 4 False = Some (drop_root u, le32 v, 4)"
    by (rule pointer_roundtrip [OF a d m]) (use False ty in auto)
  then show ?thesis using False by (auto simp: set_u32_eq [OF a] get_u32_eq [OF u(2)] drop_root_keeps)
qed

section \<open>The text interface\<close>

text \<open>What the conversions do with numbers as \<open>printf\<close> writes them.\<close>

definition conv_ok :: "cfg_env \<Rightarrow> bool" where
  "conv_ok e = ((\<forall>n < 2 ^ 32. kstrtou32 e (radix 10 n) = (0, of_nat n)) \<and>
     (\<forall>n \<le> 2 ^ 31. scan_neg32 e (CHR ''-'' # radix 10 n) = Some (of_nat n)) \<and>
     (\<forall>n < 2 ^ 64. scan_hex64 e (''0x'' @ radix 16 n) = Some (of_nat n)))"

lemma radix_nonempty [simp]: "radix b n \<noteq> []"
  by (subst radix.simps) simp

lemma radix10_digits: "set (radix 10 n) \<subseteq> set ''0123456789''"
proof (induction n rule: less_induct)
  case (less n)
  have d: "''0123456789abcdef'' ! k \<in> set ''0123456789''" if "k < 10" for k :: nat
  proof -
    have "k \<in> {0, 1, 2, 3, 4, 5, 6, 7, 8, 9}" using that by auto
    then show ?thesis by (elim insertE) auto
  qed
  show ?case
  proof (cases "n < 10")
    case True
    then show ?thesis using d [of n] by (simp add: radix.simps [of 10 n] mod_less)
  next
    case False
    then have "set (radix 10 (n div 10)) \<subseteq> set ''0123456789''" by (intro less) auto
    moreover have "''0123456789abcdef'' ! (n mod 10 mod 16) \<in> set ''0123456789''"
      using d [of "n mod 10"] by simp
    ultimately show ?thesis using False by (simp add: radix.simps [of 10 n])
  qed
qed

lemma strstr_set: "strstr xs pat \<Longrightarrow> set pat \<subseteq> set xs"
proof (induction xs pat rule: strstr.induct)
  case (2 c cs pat)
  then show ?case using set_take_subset [of "length pat" "c # cs"] by auto
qed simp

lemma radix10_plain:
  "dropWhile (\<lambda>c. c = CHR '' '') (radix 10 n) = radix 10 n" "take 1 (radix 10 n) \<noteq> ''-''" "\<not> strstr (radix 10 n) ''0x''"
proof -
  obtain c cs where c: "radix 10 n = c # cs" by (cases "radix 10 n") auto
  then have "c \<in> set ''0123456789''" using radix10_digits [of n] by auto
  then show "dropWhile (\<lambda>c. c = CHR '' '') (radix 10 n) = radix 10 n" "take 1 (radix 10 n) \<noteq> ''-''" using c by auto
  show "\<not> strstr (radix 10 n) ''0x''" using strstr_set [of "radix 10 n" "''0x''"] radix10_digits [of n] by auto
qed

lemma parse_u32_text: "conv_ok e \<Longrightarrow> configs_parser_value_u32 e (radix 10 (unat (v :: u32))) = (1, v)"
  using radix10_plain [of "unat v"] unat_lt32 [of v] by (simp add: configs_parser_value_u32_def conv_ok_def)

lemma parse_i32_text:
  assumes "conv_ok e"
  shows "configs_parser_value_u32 e (fmt_d (sint (v :: u32))) = (1, v)"
proof (cases "sint v < 0")
  case False
  then have "uint v = sint v" using sint_less [of v] by (simp add: uint_sint take_bit_int_eq_self)
  then have "nat (sint v) = unat v" by (simp add: unat_eq_nat_uint)
  then show ?thesis using False parse_u32_text [OF assms, of v] by (simp add: fmt_d_def)
next
  case True
  let ?n = "nat (- sint v)"
  have "?n \<le> 2 ^ 31" using sint_greater_eq [of v] by (simp add: nat_le_iff)
  then have s: "scan_neg32 e (CHR ''-'' # radix 10 ?n) = Some (of_nat ?n)" using assms by (simp add: conv_ok_def)
  have "- (of_nat ?n :: u32) = v" using True by (simp add: of_int_sint)
  then show ?thesis using True s by (simp add: configs_parser_value_u32_def fmt_d_def)
qed

lemma parse_u64_text: "conv_ok e \<Longrightarrow> configs_parser_value_u64 e (''0x'' @ radix 16 (unat (v :: u64))) = (1, v)"
proof -
  assume "conv_ok e"
  moreover have "unat v < 2 ^ 64" using unsigned_less [of v, where 'a = nat] by simp
  ultimately show ?thesis by (simp add: configs_parser_value_u64_def conv_ok_def)
qed

text \<open>An item that holds a number, in itself or in mapped memory, of any numeric type except \<open>CONFIG_TYPE_PU64\<close>, whose
  text is not read back.\<close>

definition number_item :: "cfg \<Rightarrow> mconfig \<Rightarrow> bool" where
  "number_item s d = (c_type d \<in> {CONFIG_TYPE_I32, CONFIG_TYPE_U32, CONFIG_TYPE_U64} \<or>
     c_type d \<in> {CONFIG_TYPE_PI32, CONFIG_TYPE_PU32} \<and> mapped (cmem s) (ldata0 d) 4)"

lemma number_item_cases [consumes 1, case_names I32 U32 U64 PI32 PU32]:
  assumes "number_item s d"
  obtains "c_type d = CONFIG_TYPE_I32" | "c_type d = CONFIG_TYPE_U32" | "c_type d = CONFIG_TYPE_U64"
    | "c_type d = CONFIG_TYPE_PI32" "mapped (cmem s) (ldata0 d) 4"
    | "c_type d = CONFIG_TYPE_PU32" "mapped (cmem s) (ldata0 d) 4"
  using assms by (auto simp: number_item_def)

lemma u32_text_length: "length (radix 10 (unat (v :: u32))) \<le> 10"
proof -
  have "unat v < 10 ^ 10" using unat_lt32 [of v] by simp
  then show ?thesis by (intro radix_length) auto
qed

lemma u64_text_length: "length (radix 16 (unat (v :: u64))) \<le> 16"
proof -
  have "unat v < 16 ^ 16" using unsigned_less [of v, where 'a = nat] by simp
  then show ?thesis by (intro radix_length) auto
qed

lemma i32_text_length: "length (fmt_d (sint (v :: u32))) \<le> 11"
  using fmt_d_length [OF _ sint_bounds32 [of v]] by simp

lemma mem_read_mapped: "mapped m p k \<Longrightarrow> \<exists>bs. mem_read m p k = Some bs"
  by (induction k arbitrary: p) (fastforce simp: mapped_Suc)+

text \<open>The text of a number: always complete when the buffer has 24 bytes.\<close>

lemma config2str_number:
  assumes "number_item s d" and "24 \<le> k"
  shows "\<exists>t. configs_config2str e s d k = Some (int (length t), Some t) \<and> config_text e s d k = Some (int (length t), Some t) \<and>
     0 < length t \<and> length t \<le> 18"
  using assms(1)
proof (cases rule: number_item_cases)
  case I32
  have "length (fmt_d (sint (ucast (ldata0 d) :: u32))) \<le> 11" by (rule i32_text_length)
  then show ?thesis using I32 assms(2)
    by (auto simp: configs_config2str_def config_text_def Let_def fmt_d_def)
next
  case U32
  have "length (radix 10 (unat (ucast (ldata0 d) :: u32))) \<le> 10" by (rule u32_text_length)
  then show ?thesis using U32 assms(2) by (auto simp: configs_config2str_def config_text_def Let_def)
next
  case U64
  have "length (radix 16 (unat (ldata0 d))) \<le> 16" by (rule u64_text_length)
  then show ?thesis using U64 assms(2) by (auto simp: configs_config2str_def config_text_def Let_def)
next
  case PI32
  obtain bs where "mem_read (cmem s) (ldata0 d) 4 = Some bs" using mem_read_mapped [OF PI32(2)] by blast
  moreover have "length (radix 10 (unat (of_le32 bs))) \<le> 10" by (rule u32_text_length)
  ultimately show ?thesis using PI32(1) assms(2) by (auto simp: configs_config2str_def config_text_def Let_def)
next
  case PU32
  obtain bs where "mem_read (cmem s) (ldata0 d) 4 = Some bs" using mem_read_mapped [OF PU32(2)] by blast
  moreover have "length (fmt_d (sint (of_le32 bs))) \<le> 11" by (rule i32_text_length)
  ultimately show ?thesis using PU32(1) assms(2) by (auto simp: configs_config2str_def config_text_def Let_def fmt_d_def)
qed

text \<open>That text, given to an item of the same kind, makes it print the same text.\<close>

lemma text_back:
  assumes e: "conv_ok e" and d: "number_item s d" "config_text e s d k = Some (ret, Some t)"
    and d2: "the_config u c = Some d2" "c_type d2 = c_type d" "number_item u d2"
  shows "\<exists>u' d3. configs_str2config e u c t = Some (u', 1) \<and> the_config u' c = Some d3 \<and> keeps_items u u' \<and>
     config_text e u' d3 k = Some (ret, Some t) \<and> number_item u' d3"
proof -
  have mem: "\<exists>u'. mem_put u (ldata0 d2) (le32 v) = Some u' \<and> mem_read (cmem u') (ldata0 d2) 4 = Some (le32 v) \<and>
      keeps_items u u' \<and> the_config u' c = Some d2 \<and> mapped (cmem u') (ldata0 d2) 4"
    if "mapped (cmem u) (ldata0 d2) 4" for v
    using mem_put_read [of u "ldata0 d2" "le32 v"] that d2(1) by (auto simp: the_config_def)
  show ?thesis using d(1)
  proof (cases rule: number_item_cases)
    case I32
    let ?v = "ucast (ldata0 d) :: u32" and ?d = "with_u32 (ucast (ldata0 d)) d2"
    have t: "t = fmt_d (sint ?v)" "ret = int (length t)" using d(2) I32 by (auto simp: config_text_def Let_def)
    have "configs_str2config e u c t = Some (set_config c ?d u, 1)"
      using I32 d2 parse_i32_text [OF e, of ?v] t(1) by (auto simp: configs_str2config_def fmt_d_def)
    then show ?thesis using I32 d2 t keeps_items_set_config [OF d2(1), of ?d]
      by (auto simp: config_text_def Let_def number_item_def)
  next
    case U32
    let ?v = "ucast (ldata0 d) :: u32" and ?d = "with_u32 (ucast (ldata0 d)) d2"
    have t: "t = radix 10 (unat ?v)" "ret = int (length t)" using d(2) U32 by (auto simp: config_text_def Let_def)
    have "configs_str2config e u c t = Some (set_config c ?d u, 1)"
      using U32 d2 parse_u32_text [OF e, of ?v] t(1) by (auto simp: configs_str2config_def)
    then show ?thesis using U32 d2 t keeps_items_set_config [OF d2(1), of ?d]
      by (auto simp: config_text_def Let_def number_item_def)
  next
    case U64
    let ?d = "d2\<lparr>ldata0 := ldata0 d\<rparr>"
    have t: "t = ''0x'' @ radix 16 (unat (ldata0 d))" "ret = int (length t)" using d(2) U64 by (auto simp: config_text_def Let_def)
    have "configs_str2config e u c t = Some (set_config c ?d u, 1)"
      using U64 d2 parse_u64_text [OF e, of "ldata0 d"] t(1) by (auto simp: configs_str2config_def)
    then show ?thesis using U64 d2 t keeps_items_set_config [OF d2(1), of ?d]
      by (auto simp: config_text_def Let_def number_item_def)
  next
    case PI32
    obtain v where v: "t = radix 10 (unat (v :: u32))" "ret = int (length t)" using d(2) PI32(1)
      by (auto simp: config_text_def Let_def bind_eq_Some_conv)
    have "mapped (cmem u) (ldata0 d2) 4" using d2(2,3) PI32(1) by (auto simp: number_item_def)
    then obtain u' where u': "mem_put u (ldata0 d2) (le32 v) = Some u'" "mem_read (cmem u') (ldata0 d2) 4 = Some (le32 v)"
      "keeps_items u u'" "the_config u' c = Some d2" "mapped (cmem u') (ldata0 d2) 4" using mem by blast
    have "configs_str2config e u c t = Some (u', 1)"
      using PI32(1) d2 u' parse_u32_text [OF e, of v] v(1) by (auto simp: configs_str2config_def)
    then show ?thesis using PI32(1) d2 u' v by (auto simp: config_text_def Let_def number_item_def)
  next
    case PU32
    obtain v where v: "t = fmt_d (sint (v :: u32))" "ret = int (length t)" using d(2) PU32(1)
      by (auto simp: config_text_def Let_def bind_eq_Some_conv)
    have "mapped (cmem u) (ldata0 d2) 4" using d2(2,3) PU32(1) by (auto simp: number_item_def)
    then obtain u' where u': "mem_put u (ldata0 d2) (le32 v) = Some u'" "mem_read (cmem u') (ldata0 d2) 4 = Some (le32 v)"
      "keeps_items u u'" "the_config u' c = Some d2" "mapped (cmem u') (ldata0 d2) 4" using mem by blast
    have "configs_str2config e u c t = Some (u', 1)"
      using PU32(1) d2 u' parse_i32_text [OF e, of v] v(1) by (auto simp: configs_str2config_def fmt_d_def)
    then show ?thesis using PU32(1) d2 u' v by (auto simp: config_text_def Let_def number_item_def)
  qed
qed

lemma config_text_drop_root [simp]: "config_text e (drop_root s) d k = config_text e s d k"
  by (simp only: config_text_def drop_root_keeps)

lemma number_item_drop_root [simp]: "number_item (drop_root s) d = number_item s d"
  by (simp add: number_item_def drop_root_keeps)

lemma get_str_eq:
  assumes "access_ok s nms item c" and "the_config s c = Some d"
  shows "configs_get_node_path_str e s None (cfg_path nms item) k =
     map_option (\<lambda>(ret, text). (drop_root s, text, ret)) (configs_config2str e s d k)"
  using get_str_found [of s nms item "[]" c d] assms by (simp add: access_ok_def cfg_path_def)

lemma set_str_eq:
  assumes "access_ok s nms item c" and "str \<noteq> []"
  shows "configs_set_node_path_str e s None (cfg_path nms item) (Some str) =
     map_option (\<lambda>(s, ret). (drop_root s, if 0 < ret then 0 else if ret = 0 then -1 else ret)) (configs_str2config e s c str)"
  using set_str_found [of s nms item "[]" c str] assms by (simp add: access_ok_def cfg_path_def)

text \<open>C37: Numbers as text.  With conversions that read what \<open>printf\<close> writes, the text that the get call gives for an
  item of type I32, U32, U64, PI32 or PU32 (all numeric types but PU64) is complete in a buffer of 24 bytes; and in any
  other state where the path leads to the same item, of the same type, setting it to that text succeeds and makes it give
  the same text, whatever number it held.\<close>

theorem config_text_roundtrip:
  assumes "conv_ok e" and "24 \<le> k"
    and "access_ok s nms item c" and "the_config s c = Some d" and "number_item s d"
    and "access_ok u nms item c" and "the_config u c = Some d2" and "number_item u d2" and "c_type d2 = c_type d"
  shows "\<exists>t u'. configs_get_node_path_str e s None (cfg_path nms item) k = Some (drop_root s, Some t, int (length t)) \<and>
     configs_set_node_path_str e u None (cfg_path nms item) (Some t) = Some (u', 0) \<and>
     configs_get_node_path_str e u' None (cfg_path nms item) k = Some (drop_root u', Some t, int (length t))"
proof -
  obtain t where t: "configs_config2str e s d k = Some (int (length t), Some t)"
    "config_text e s d k = Some (int (length t), Some t)" "0 < length t"
    using config2str_number [OF assms(5,2)] by blast
  obtain v d3 where v: "configs_str2config e u c t = Some (v, 1)" "the_config v c = Some d3" "keeps_items u v"
    "config_text e v d3 k = Some (int (length t), Some t)" "number_item v d3"
    using text_back [OF assms(1,5) t(2) assms(7,9,8)] by blast
  have 3: "configs_config2str e (drop_root v) d3 k = Some (int (length t), Some t)"
    using config2str_number [of "drop_root v" d3 k e] v(4,5) assms(2) by auto
  have "configs_get_node_path_str e (drop_root v) None (cfg_path nms item) k =
      Some (drop_root (drop_root v), Some t, int (length t))"
    using get_str_eq [OF access_ok_keeps(2) [OF assms(6) v(3)], of d3] v(2) 3 by (simp add: drop_root_keeps)
  then show ?thesis using t v get_str_eq [OF assms(3,4)] set_str_eq [OF assms(6), of t] by auto
qed

text \<open>Items of type \<open>CONFIG_TYPE_PU64\<close> are the exception: 16 is printed as \<open>10\<close>, which is then read as ten.\<close>

lemma config_pu64_text_changes:
  assumes a: "access_ok s nms item c" and d: "the_config s c = Some d" "c_type d = CONFIG_TYPE_PU64"
    and m: "mapped (cmem s) (ldata0 d) 8" "mem_read (cmem s) (ldata0 d) 8 = Some (le64 16)"
    and e: "kstrtou64 e ''10'' = (0, 10)" and k: "3 \<le> k"
  shows "\<exists>s'. configs_get_node_path_str e s None (cfg_path nms item) k = Some (drop_root s, Some ''10'', 2) \<and>
     configs_set_node_path_str e s None (cfg_path nms item) (Some ''10'') = Some (s', 0) \<and>
     mem_read (cmem s') (ldata0 d) 8 = Some (le64 10)"
proof -
  have "radix 16 16 = ''10''" by code_simp
  then have t: "configs_config2str e s d k = Some (2, Some ''10'')"
    using d(2) m(2) k by (simp add: configs_config2str_def config_text_def)
  obtain u where u: "mem_put s (ldata0 d) (le64 10) = Some u" "mem_read (cmem u) (ldata0 d) 8 = Some (le64 10)"
    using mem_put_read [of s "ldata0 d" "le64 10"] m(1) by auto
  have "\<not> strstr ''10'' ''0x''" by code_simp
  then have "configs_parser_value_u64 e ''10'' = (1, 10)" using e by (simp add: configs_parser_value_u64_def)
  then have "configs_str2config e s c ''10'' = Some (u, 1)" using d u(1) by (simp add: configs_str2config_def)
  then show ?thesis using t u(2) get_str_eq [OF a d(1)] set_str_eq [OF a, of "''10''"] by (auto simp: drop_root_keeps)
qed

text \<open>C40: An item that holds its number in itself is lost to the number calls once the number is zero.  The get and the set
  call test the union for \<open>NULL\<close> first: while the number is not zero they deliver and store it, and when it is zero both
  return -1, nothing is delivered and nothing is set; so it is for 32-bit items and the 32-bit calls and for 64-bit items and
  the 64-bit calls.  A text that is a number still sets the item.\<close>

theorem config_zero_stuck:
  assumes a: "access_ok s nms item c" and d: "the_config s c = Some d"
    and ty: "c_type d \<in> {CONFIG_TYPE_I32, CONFIG_TYPE_U32, CONFIG_TYPE_U64}"
  shows "if c_type d = CONFIG_TYPE_U64
     then configs_get_node_path_u64 s None (cfg_path nms item) z =
         Some (drop_root s, if ldata0 d = 0 then (z, -1) else (ldata0 d, 8)) \<and>
       configs_set_node_path_u64 s None (cfg_path nms item) w =
         Some (if ldata0 d = 0 then (drop_root s, -1) else (drop_root (set_config c (d\<lparr>ldata0 := w\<rparr>) s), 8)) \<and>
       (\<forall>str r x. str \<noteq> [] \<and> configs_parser_value_u64 e str = (r, x) \<and> 0 < r \<longrightarrow>
          configs_set_node_path_str e s None (cfg_path nms item) (Some str) = Some (drop_root (set_config c (d\<lparr>ldata0 := x\<rparr>) s), 0))
     else configs_get_node_path_u32 s None (cfg_path nms item) y =
         Some (drop_root s, if ldata0 d = 0 then (y, -1) else (ucast (ldata0 d), 4)) \<and>
       configs_set_node_path_u32 s None (cfg_path nms item) v =
         Some (if ldata0 d = 0 then (drop_root s, -1) else (drop_root (set_config c (with_u32 v d) s), 4)) \<and>
       (\<forall>str r x. str \<noteq> [] \<and> configs_parser_value_u32 e str = (r, x) \<and> 0 < r \<longrightarrow>
          configs_set_node_path_str e s None (cfg_path nms item) (Some str) = Some (drop_root (set_config c (with_u32 x d) s), 0))"
proof -
  have r: "rd32 (le32 v) 0 = Some v" "rd64 (le64 w) 0 = Some w"
    using f32.fetch_start [of v "[]"] f64.fetch_start [of w "[]"] by simp_all
  show ?thesis
  proof (cases "c_type d = CONFIG_TYPE_U64")
    case True
    then show ?thesis using d r
      by (auto simp: get_u64_eq [OF a] set_u64_eq [OF a] set_str_eq [OF a] configs_setget_config_value_def configs_str2config_def put_le64)
  next
    case False
    then have "c_type d = CONFIG_TYPE_I32 \<or> c_type d = CONFIG_TYPE_U32" using ty by blast
    then show ?thesis using d r
      by (elim disjE) (auto simp: get_u32_eq [OF a] set_u32_eq [OF a] set_str_eq [OF a] configs_setget_config_value_def
          configs_str2config_def put_le32)
  qed
qed

text \<open>The word \<open>false\<close> does not set a boolean item to false.  Of the words that start with neither 0 nor 1 and are not
  \<open>true\<close> or \<open>TRUE\<close>, exactly \<open>false\<close> is refused with -1 and changes nothing; every other word sets the item to
  false and returns 0.\<close>

theorem config_bool_false_rejected:
  assumes "access_ok s nms item c" and "the_config s c = Some d" and "c_type d = CONFIG_TYPE_BOOL"
    and "str \<noteq> []" and "hd str \<notin> {CHR ''0'', CHR ''1''}" and "str \<notin> {''true'', ''TRUE''}"
  shows "configs_set_node_path_str e s None (cfg_path nms item) (Some str) =
     Some (if str = ''false'' then (drop_root s, -1) else (drop_root (set_config c (with_bool False d) s), 0))"
  using assms by (auto simp: set_str_eq [OF assms(1)] configs_str2config_def configs_parser_value_bool_def)

section \<open>Access through a prefix\<close>

lemma end_node_son:
  assumes t: "tree_ok s" and nm: "name_ok nm" "nm \<noteq> ''root''" and b: "son_named s root_node nm = Some b"
  shows "configs_get_node_path_end_node s None (Some nm) =
     Some (add_refs (tally [b]) s, if can_hold s b then Some b else None)"
proof -
  obtain r where r: "nodes s root_node = Some r" "nname r = Some ''root''" using tree_ok_root [OF t] by metis
  have p: "configs_parser_first_node nm = (length nm, nm, True)"
    using first_node_item [OF nm(1), of "[]"] by (simp add: rest_ok_def)
  have "end_node_loop s None root_node nm = Some (add_refs (tally [b]) s, if can_hold s b then Some b else None)"
    using get_node_with_name_eq [OF t rooted_root, of nm] p r nm b
    by (simp add: end_node_loop.simps [of s] name_ok_def)
  then show ?thesis by (simp add: configs_get_node_path_end_node_def)
qed

text \<open>Access to an item of the top node itself: the release loop does not stop at that node, as it starts above it.\<close>

lemma set_item_below_son:
  assumes t: "tree_ok s" and b: "is_son s root_node b" and i: "name_ok item"
    and c: "item_at s b item True = Inr c" and str: "str \<noteq> []" "configs_str2config e s c str = Some (u, ret)"
  shows "configs_set_node_path_str e s (Some b) (Some item) (Some str) =
     Some (add_refs (\<lambda>x. - tally [b, root_node] x) u, if 0 < ret then 0 else if ret = 0 then -1 else ret)"
proof -
  have ne: "item \<noteq> []" using i by (simp add: name_ok_def)
  have p: "configs_parser_first_node item = (length item, item, True)"
    using first_node_item [OF i, of "[]"] by (simp add: rest_ok_def)
  have r: "rooted s [b, root_node]" using b by simp
  obtain n where n: "nodes s b = Some n" "up_chain s (parent_node n) None [root_node]" by (rule rooted_node [OF t r])
  have br: "b \<noteq> root_node" using rooted_distinct [OF t r] by simp
  have w: "path_walk s b b item = Some (s, Reached b item)" using p ne by (simp add: path_walk.simps [of s])
  have g: "configs_get_node_path_config s (Some b) (Some item) True = Some (add_refs (tally [b]) s, Inr (c, b))"
    using w n c get_node_config_eq [OF t n(1), of item]
    by (auto simp: configs_get_node_path_config_def item_at_def split: option.splits if_splits)
  have k: "nodes u = nodes s" using str2config_keeps [OF str(2)] by (simp add: keeps_items_def)
  let ?u = "add_refs (tally [b]) u"
  have z: "add_refs (\<lambda>x. - tally [b] x) ?u = u" by (simp add: add_refs_add_refs add_refs_0)
  have "nodes ?u b = Some (n\<lparr>ref_cnt := ref_cnt n + tally [b] b\<rparr>)" using n k by (simp add: nodes_add_refs)
  then have 1: "configs_put_node ?u (Some b) False (Some b) = Some u" using configs_put_node_one z by metis
  have "up_chain u (parent_node n) (Some b) [root_node]"
    using n(2) br by (intro up_chain_stop) (simp_all add: nodes_eq_up_chain [OF k] del: up_chain.simps)
  then have 2: "configs_put_node u (Some b) True (Some b) = Some (add_refs (\<lambda>x. - tally [b, root_node] x) u)"
    using n(1) k configs_put_node_all by metis
  show ?thesis using g 1 2 ne str by (simp add: configs_set_node_path_str_def str2config_add_refs)
qed

lemma set_prefix_step:
  assumes t: "tree_ok s" and nm: "name_ok nm" "nm \<noteq> ''root''" and b: "son_named s root_node nm = Some b" "can_hold s b"
    and i: "name_ok item" and c: "item_at s b item True = Inr c"
    and str: "str \<noteq> []" "configs_str2config e s c str = Some (u, ret)"
  shows "configs_set_prefix_path_str e s (Some nm) (Some item) (Some str) =
     Some (add_refs (\<lambda>x. - tally [b, root_node, root_node] x) u, if 0 < ret then 0 else if ret = 0 then -1 else ret)"
proof -
  let ?s = "add_refs (tally [b]) s"
  have son: "is_son s root_node b" by (rule son_named_is_son [OF b(1)])
  have k: "nodes u = nodes s" using str2config_keeps [OF str(2)] by (simp add: keeps_items_def)
  have nn: "nm \<noteq> []" using nm by (simp add: name_ok_def)
  let ?v = "add_refs (\<lambda>x. - tally [b, root_node] x) (add_refs (tally [b]) u)"
  have st: "configs_str2config e ?s c str = Some (add_refs (tally [b]) u, ret)"
    using str(2) by (simp add: str2config_add_refs)
  have 1: "configs_set_node_path_str e ?s (Some b) (Some item) (Some str) =
      Some (?v, if 0 < ret then 0 else if ret = 0 then -1 else ret)"
    by (rule set_item_below_son [OF _ _ i _ str(1) st]) (use t son c in \<open>simp_all add: ref_simps\<close>)
  have r: "rooted s [b, root_node]" using son by simp
  obtain n where n: "nodes s b = Some n" "up_chain s (parent_node n) None [root_node]" by (rule rooted_node [OF t r])
  have "nodes ?v b = Some (n\<lparr>ref_cnt := ref_cnt n + tally [b] b - tally [b, root_node] b\<rparr>)"
    using n k by (simp add: nodes_add_refs)
  moreover have "up_chain ?v (parent_node n) None [root_node]"
    using n(2) by (simp add: up_chain_add_refs nodes_eq_up_chain [OF k] del: up_chain.simps)
  ultimately have 2: "configs_put_node ?v (Some b) True None = Some (add_refs (\<lambda>x. - tally [b, root_node] x) ?v)"
    using configs_put_node_all by force
  have "(\<lambda>x. tally [b] x + - tally [b, root_node] x + - tally [b, root_node] x) = (\<lambda>x. - tally [b, root_node, root_node] x)"
    by (simp add: fun_eq_iff tally_Cons)
  then show ?thesis using 1 2 end_node_son [OF t nm b(1)] b(2) nn
    by (simp add: configs_set_prefix_path_str_def add_refs_add_refs)
qed

text \<open>C39: Setting an item through the prefix of its node locks the node out.  Each call releases the node twice but takes
  it once: of three calls in a row on a node with no references the first two succeed and the third returns -1,
  because the reference count has become negative and the node is no longer found.\<close>

theorem config_prefix_locks_out:
  assumes t: "tree_ok s" and nm: "name_ok nm" "nm \<noteq> ''root''" and b: "son_named s root_node nm = Some b"
    and n: "nodes s b = Some n" "ref_cnt n = 0" and i: "name_ok item" and c: "item_at s b item True = Inr c"
    and d: "the_config s c = Some d" "c_type d \<in> {CONFIG_TYPE_I32, CONFIG_TYPE_U32}"
    and str: "str \<noteq> []" "configs_parser_value_u32 e str = (1, v)"
  shows "\<exists>s1 s2 s3. configs_set_prefix_path_str e s (Some nm) (Some item) (Some str) = Some (s1, 0) \<and>
     configs_set_prefix_path_str e s1 (Some nm) (Some item) (Some str) = Some (s2, 0) \<and>
     configs_set_prefix_path_str e s2 (Some nm) (Some item) (Some str) = Some (s3, -1)"
proof -
  let ?g = "\<lambda>x. - tally [b, root_node, root_node] x"
  have br: "b \<noteq> root_node" using not_own_son [OF t] son_named_is_son [OF b] by auto
  have gb: "?g b = -1" using br by (simp add: tally_def)
  have conv: "configs_str2config e u c str = Some (set_config c (with_u32 v d') u, 1)"
    if "the_config u c = Some d'" "c_type d' = c_type d" for u d'
    using that d(2) str by (auto simp: configs_str2config_def)
  let ?u1 = "set_config c (with_u32 v d) s"
  let ?s1 = "add_refs ?g ?u1"
  have k1: "keeps_items s ?u1" by (rule keeps_items_set_config [OF d(1)]) simp
  have "can_hold s b" using n by (simp add: can_hold_def)
  then have 1: "configs_set_prefix_path_str e s (Some nm) (Some item) (Some str) = Some (?s1, 0)"
    using set_prefix_step [OF t nm b _ i c str(1) conv [OF d(1)]] by simp
  let ?d1 = "with_u32 v d"
  let ?u2 = "set_config c (with_u32 v ?d1) ?s1"
  let ?s2 = "add_refs ?g ?u2"
  have t1: "tree_ok ?s1" using keeps_tree_ok [OF k1 t] by (simp add: ref_simps)
  have b1: "son_named ?s1 root_node nm = Some b" using b son_named_nodes [of ?u1 s] by (simp add: ref_simps)
  have c1: "item_at ?s1 b item True = Inr c" using keeps_item_at [OF k1 t] c by (simp add: ref_simps)
  have d1: "the_config ?s1 c = Some ?d1" using d(1) by (simp add: ref_simps)
  have "can_hold ?s1 b" using n gb by (simp add: can_hold_def nodes_add_refs)
  then have 2: "configs_set_prefix_path_str e ?s1 (Some nm) (Some item) (Some str) = Some (?s2, 0)"
    using set_prefix_step [OF t1 nm b1 _ i c1 str(1) conv [OF d1]] by simp
  have k2: "keeps_items ?s1 ?u2" by (rule keeps_items_set_config [OF d1]) simp
  have t2: "tree_ok ?s2" using keeps_tree_ok [OF k2 t1] by (simp add: ref_simps)
  have b2: "son_named ?s2 root_node nm = Some b"
    using b1 son_named_nodes [of ?u2 ?s1] by (simp add: son_named_add_refs)
  have "\<not> can_hold ?s2 b" using n gb by (simp add: can_hold_def nodes_add_refs)
  then have "configs_set_prefix_path_str e ?s2 (Some nm) (Some item) (Some str) = Some (add_refs (tally [b]) ?s2, -1)"
    using end_node_son [OF t2 nm b2] nm(1) by (simp add: configs_set_prefix_path_str_def name_ok_def)
  then show ?thesis using 1 2 by blast
qed

section \<open>Concrete accesses\<close>

lemmas demo_defs = demo_cfg_def demo_store_def demo_root_def demo_media_def demo_items_def root_node_def

lemma demo_holdable: "holdable demo_cfg 0"
  by (auto simp: holdable_def can_hold_def demo_defs)

lemma demo_son: "son_named demo_cfg root_node ''media'' = Some 1"
  by (simp add: son_named_def has_name_def sons_of_def is_active_def demo_defs)

lemma demo_item_at:
  "item_at demo_cfg 1 ''x'' w = Inr (7, 0)" "item_at demo_cfg 1 ''z'' w = Inr (7, 1)"
  "item_at demo_cfg 1 ''n'' w = Inr (7, 2)" "item_at demo_cfg 1 ''b'' w = Inr (7, 3)"
  by (simp_all add: item_at_def item_named_def demo_defs upt_rec)

lemma demo_names: "name_ok ''media''" "name_ok ''x''" "name_ok ''z''" "name_ok ''n''" "name_ok ''b''"
  by (simp_all add: name_ok_def blank_def)

lemma demo_access:
  "access_ok demo_cfg [''media''] ''x'' (7, 0)" "access_ok demo_cfg [''media''] ''z'' (7, 1)"
  "access_ok demo_cfg [''media''] ''n'' (7, 2)" "access_ok demo_cfg [''media''] ''b'' (7, 3)"
  using demo_son
  by (simp_all add: access_ok_def lookup_item_def path_ok_def rest_ok_def demo_tree demo_holdable demo_item_at demo_names del: One_nat_def)

lemma demo_config: "i < 4 \<Longrightarrow> the_config demo_cfg (7, i) = Some (demo_items ! i)"
  by (simp add: the_config_def demo_cfg_def demo_store_def) (simp add: demo_items_def)

theorem config_number_roundtrip_witness:
  "\<exists>s'. configs_set_node_path_u32 demo_cfg None (cfg_path [''media''] ''x'') 7 = Some (s', 4) \<and>
     (\<forall>y. configs_get_node_path_u32 s' None (cfg_path [''media''] ''x'') y = Some (drop_root s', 7, 4))"
proof -
  have m: "mapped (cmem demo_cfg) 0x1000 4"
    by (auto simp: mapped_def demo_cfg_def demo_store_def less_Suc_eq eval_nat_numeral)
  have "\<exists>s'. configs_set_node_path_u32 demo_cfg None (cfg_path [''media''] ''x'') 7 = Some (s', 4) \<and>
     (\<forall>y. configs_get_node_path_u32 s' None (cfg_path [''media''] ''x'') y = Some (drop_root s', 7, 4)) \<and>
     nodes s' = nodes (drop_root demo_cfg) \<and> arrays s' = arrays demo_cfg"
    using config_number_roundtrip [OF demo_access(1) demo_config, where v = 7] by (auto simp: demo_items_def m)
  then show ?thesis by blast
qed

theorem config_zero_stuck_witness:
  "configs_set_node_path_u32 demo_cfg None (cfg_path [''media''] ''z'') 7 = Some (drop_root demo_cfg, -1)"
  using config_zero_stuck [OF demo_access(2) demo_config, where v = 7] by (simp add: demo_items_def)

text \<open>Conversions that satisfy the contract.\<close>

definition digit_val :: "char \<Rightarrow> nat" where
  "digit_val c = (if of_char c < (58 :: nat) then of_char c - 48 else of_char c - 87)"

definition number_val :: "nat \<Rightarrow> string \<Rightarrow> nat" where
  "number_val b cs = foldl (\<lambda>a c. b * a + digit_val c) 0 cs"

definition plain_conv :: cfg_env where
  "plain_conv = \<lparr>scan_neg32 = \<lambda>s. Some (of_nat (number_val 10 (tl s))), scan_hex32 = \<lambda>s. Some (of_nat (number_val 16 (drop 2 s))),
     kstrtou32 = \<lambda>s. (0, of_nat (number_val 10 s)), scan_neg64 = \<lambda>s. Some (of_nat (number_val 10 (tl s))),
     scan_hex64 = \<lambda>s. Some (of_nat (number_val 16 (drop 2 s))), kstrtou64 = \<lambda>s. (0, of_nat (number_val 10 s)),
     get_fun = \<lambda>_ _ _ _ _. (0, []), set_fun = \<lambda>_ _ _ _ m. (0, m)\<rparr>"

lemma number_val_radix: "b \<in> {10, 16} \<Longrightarrow> number_val b (radix b n) = n"
proof (induction n rule: less_induct)
  case (less n)
  have d: "digit_val (''0123456789abcdef'' ! k) = k" if "k < 16" for k :: nat
  proof -
    have "k = 0 \<or> k = 1 \<or> k = 2 \<or> k = 3 \<or> k = 4 \<or> k = 5 \<or> k = 6 \<or> k = 7 \<or> k = 8 \<or> k = 9 \<or> k = 10 \<or> k = 11 \<or>
      k = 12 \<or> k = 13 \<or> k = 14 \<or> k = 15" using that by arith
    then show ?thesis by (elim disjE) (simp_all add: digit_val_def)
  qed
  show ?case
  proof (cases "n < b")
    case True
    then show ?thesis using less.prems d [of n] by (auto simp: radix.simps [of b n] number_val_def)
  next
    case False
    then have "number_val b (radix b (n div b)) = n div b" using less by auto
    moreover have "digit_val (''0123456789abcdef'' ! (n mod b)) = n mod b" using less.prems d [of "n mod b"] by auto
    ultimately show ?thesis using False less.prems by (auto simp: radix.simps [of b n] number_val_def)
  qed
qed

lemma plain_conv_ok: "conv_ok plain_conv"
  by (simp add: conv_ok_def plain_conv_def number_val_radix)

theorem config_bool_false_rejected_witness:
  "configs_set_node_path_str plain_conv demo_cfg None (cfg_path [''media''] ''b'') (Some ''false'') = Some (drop_root demo_cfg, -1)"
  using config_bool_false_rejected [OF demo_access(4) demo_config, of "''false''" plain_conv] by (simp add: demo_items_def)

theorem config_text_roundtrip_witness:
  "\<exists>t u'. configs_get_node_path_str plain_conv demo_cfg None (cfg_path [''media''] ''n'') 24 =
       Some (drop_root demo_cfg, Some t, int (length t)) \<and>
     configs_set_node_path_str plain_conv demo_cfg None (cfg_path [''media''] ''n'') (Some t) = Some (u', 0) \<and>
     configs_get_node_path_str plain_conv u' None (cfg_path [''media''] ''n'') 24 = Some (drop_root u', Some t, int (length t))"
  by (rule config_text_roundtrip [OF plain_conv_ok _ demo_access(3) demo_config _ demo_access(3) demo_config])
    (simp_all add: number_item_def demo_items_def)

theorem config_prefix_locks_out_witness:
  "\<exists>s1 s2 s3. configs_set_prefix_path_str plain_conv demo_cfg (Some ''media'') (Some ''n'') (Some ''8'') = Some (s1, 0) \<and>
     configs_set_prefix_path_str plain_conv s1 (Some ''media'') (Some ''n'') (Some ''8'') = Some (s2, 0) \<and>
     configs_set_prefix_path_str plain_conv s2 (Some ''media'') (Some ''n'') (Some ''8'') = Some (s3, -1)"
proof -
  have n: "nodes demo_cfg 1 = Some demo_media" "ref_cnt demo_media = 0" by (simp_all add: demo_defs)
  have p: "configs_parser_value_u32 plain_conv ''8'' = (1, 8)"
    by (simp add: configs_parser_value_u32_def plain_conv_def number_val_def digit_val_def)
  show ?thesis
    by (rule config_prefix_locks_out [OF demo_tree demo_names(1) _ demo_son n demo_names(4) demo_item_at(3) demo_config _ _ p])
      (simp_all add: demo_items_def)
qed

end
