(* ===== verification/Config_Module.thy ===== *)
theory Config_Module
  imports Config_Values
begin

unbundle bit_operations_syntax

text \<open>
  The listing of the configuration tree (\<open>configs.c\<close>, \<open>configs_list_nodes_in\<close>) and the module that makes the tree
  available, \<open>configs_module.c\<close>: the class attributes, the table of nodes that are registered at the start, and the
  character devices with their ioctl.  The states that the operations reach are at the end.
\<close>

section \<open>Text buffers\<close>

text \<open>A buffer is the list of its characters, with the zero character as terminator.  \<open>put_text\<close> writes a text and its
  terminator at a position; a write that leaves the buffer has no meaning.\<close>

definition put_text :: "string \<Rightarrow> nat \<Rightarrow> string \<Rightarrow> string option" where
  "put_text buf pos t =
     (if pos + length t < length buf
      then Some (take pos buf @ t @ [CHR 0x00] @ drop (pos + length t + 1) buf) else None)"

text \<open>\<open>snprintf(buf + pos, n, ...)\<close>: what does not fit is cut, the result is the full length.  A negative \<open>n\<close> is
  a huge size, which the kernel refuses with the result 0.\<close>

definition snprintf_at :: "string \<Rightarrow> nat \<Rightarrow> int \<Rightarrow> string \<Rightarrow> (string \<times> int) option" where
  "snprintf_at buf pos n t =
     (if n < 0 then Some (buf, 0)
      else if n = 0 then Some (buf, int (length t))
      else do { buf \<leftarrow> put_text buf pos (take (nat n - 1) t); Some (buf, int (length t)) })"

definition strcat_at :: "string \<Rightarrow> nat \<Rightarrow> string \<Rightarrow> string option" where
  "strcat_at buf base t = put_text buf (base + length (takeWhile (\<lambda>c. c \<noteq> CHR 0x00) (drop base buf))) t"

section \<open>Listing\<close>

abbreviation (input) LIST_MODE_VAL :: u32 where "LIST_MODE_VAL \<equiv> 0x100"
abbreviation (input) LIST_MODE_CONFIGS_VAL :: u32 where "LIST_MODE_CONFIGS_VAL \<equiv> 0x300"
abbreviation (input) LIST_MODE_NODE_INFO :: u32 where "LIST_MODE_NODE_INFO \<equiv> 0x400"
abbreviation (input) LIST_MODE_PATH_PREFIX :: u32 where "LIST_MODE_PATH_PREFIX \<equiv> 0x1000"
abbreviation (input) LIST_MODE_PATH_FULLPREFIX :: u32 where "LIST_MODE_PATH_FULLPREFIX \<equiv> 0x2000"
abbreviation (input) LIST_MODE_SUB_NODES :: u32 where "LIST_MODE_SUB_NODES \<equiv> 0x8000"
abbreviation (input) LIST_MODE_NODE_CMDVAL_ALL :: u32 where "LIST_MODE_NODE_CMDVAL_ALL \<equiv> 0x9703"
abbreviation (input) PREFIX_BUF :: nat where "PREFIX_BUF \<equiv> 256"

text \<open>The prefix of the lines of a node, in a buffer of 256 characters.\<close>

definition configs_build_prefix :: "mconfig_node \<Rightarrow> string option \<Rightarrow> u32 \<Rightarrow> string option" where
  "configs_build_prefix n prefix' mode =
     (let buf = (if mode AND LIST_MODE_PATH_FULLPREFIX \<noteq> 0 then take (PREFIX_BUF - 1) (nprefix n)
                 else if mode AND LIST_MODE_PATH_PREFIX \<noteq> 0 then
                   (case prefix' of None \<Rightarrow> [] | Some p \<Rightarrow> take (PREFIX_BUF - 1) p)
                 else [])
      in if buf \<noteq> [] \<and> last buf \<noteq> CHR ''.'' then
           (if length buf + 1 < PREFIX_BUF then Some (buf @ ''.'') else None)
         else Some buf)"

definition name_text :: "mconfig_node \<Rightarrow> string" where
  "name_text n = (case nname n of None \<Rightarrow> ''(null)'' | Some nm \<Rightarrow> nm)"

text \<open>The loop over the items of a node; \<open>pn\<close> is \<open>pn_size\<close>.\<close>

primrec list_configs ::
    "cfg_env \<Rightarrow> cfg \<Rightarrow> mconfig_node \<Rightarrow> string \<Rightarrow> u32 \<Rightarrow> nat \<Rightarrow> int \<Rightarrow> mconfig list \<Rightarrow> string \<Rightarrow> int \<Rightarrow> (string \<times> int) option" where
  "list_configs e s n cprefix mode base size' [] buf pn = Some (buf, pn)"
| "list_configs e s n cprefix mode base size' (c # cs) buf pn =
     (if size' - pn \<le> 8 then Some (buf, pn)
      else do {
        (buf, ret) \<leftarrow> snprintf_at buf (base + nat pn) (size' - pn)
          ('' '' @ cprefix @ name_text n @ ''.'' @ item_name c @ (if rw_flags n AND CONFIG_FOR_R \<noteq> 0 then ''='' else []));
        let pn = pn + ret;
        if mode AND LIST_MODE_VAL \<noteq> 0 \<and> (mode AND CONFIG_FOR_T \<noteq> 0 \<or> rw_flags n AND CONFIG_FOR_T = 0) \<and>
           rw_flags n AND CONFIG_FOR_R \<noteq> 0 then do {
          (ret, t) \<leftarrow> configs_config2str e s c (size' - pn);
          buf \<leftarrow> (case t of None \<Rightarrow> Some buf | Some t \<Rightarrow> put_text buf (base + nat pn) t);
          if 0 < ret then
            (if pn + ret < size' then do {
               buf \<leftarrow> strcat_at buf base [CHR 0x0A];
               list_configs e s n cprefix mode base size' cs buf (pn + ret + 1)
             }
             else list_configs e s n cprefix mode base size' cs buf (pn + ret))
          else if ret = 0 \<and> pn < size' then do {
            buf \<leftarrow> strcat_at buf base [CHR 0x0A];
            list_configs e s n cprefix mode base size' cs buf pn
          }
          else Some (buf, pn)
        }
        else do {
          (buf, ret) \<leftarrow> snprintf_at buf (base + nat pn) (size' - pn) [CHR 0x0A];
          list_configs e s n cprefix mode base size' cs buf (pn + ret)
        }
      })"

definition configs_list_node_configs_locked ::
    "cfg_env \<Rightarrow> cfg \<Rightarrow> mconfig_node \<Rightarrow> string \<Rightarrow> u32 \<Rightarrow> nat \<Rightarrow> int \<Rightarrow> string \<Rightarrow> (string \<times> int) option" where
  "configs_list_node_configs_locked e s n cprefix mode base size' buf =
     (if size' < 8 then Some (buf, 0)
      else case nconfigs n of
        None \<Rightarrow> Some (buf, 0)
      | Some arr \<Rightarrow> do {
          cs \<leftarrow> arrays s arr;
          if nat (configs_num n) \<le> length cs
          then list_configs e s n cprefix mode base size' (take (nat (configs_num n)) cs) buf 0 else None
        })"

definition configs_list_node_configs :: "cfg_env \<Rightarrow> cfg \<Rightarrow> nptr \<Rightarrow> int \<Rightarrow> u32 \<Rightarrow> string \<Rightarrow> (string \<times> int) option" where
  "configs_list_node_configs e s a size' mode buf = do {
     n \<leftarrow> nodes s a;
     configs_list_node_configs_locked e s n [] mode 0 size' buf
   }"

definition node_line :: "mconfig_node \<Rightarrow> string \<Rightarrow> string" where
  "node_line n cprefix = ''[NODE]'' @ cprefix @ name_text n @ '':['' @
     ([''N'', ''r'', ''w'', ''rw''] ! unat (rw_flags n AND 3)) @ ''/'' @ fmt_d (sint (ref_cnt n)) @ ''/'' @
     fmt_d (configs_num n) @ ''/'' @ fmt_d (ndepth n) @ '']'' @ [CHR 0x0A]"

text \<open>The loop over the sons, with the listing of one son.\<close>

primrec list_sons :: "(nptr \<Rightarrow> string option \<Rightarrow> nat \<Rightarrow> int \<Rightarrow> string \<Rightarrow> (string \<times> int) option) \<Rightarrow>
    nptr list \<Rightarrow> string \<Rightarrow> nat \<Rightarrow> int \<Rightarrow> string \<Rightarrow> int \<Rightarrow> (string \<times> int) option" where
  "list_sons list_son [] cprefix base size' buf pn = Some (buf, pn)"
| "list_sons list_son (b # bs) cprefix base size' buf pn = do {
     (buf, ret) \<leftarrow> list_son b (Some cprefix) (base + nat pn) (size' - pn) buf;
     list_sons list_son bs cprefix base size' buf (pn + ret)
   }"

text \<open>The recursion over the tree.  The fuel bounds its depth; \<open>None\<close> when it is used up.\<close>

primrec list_nodes_in :: "nat \<Rightarrow> cfg_env \<Rightarrow> cfg \<Rightarrow> u32 \<Rightarrow> nptr \<Rightarrow> string option \<Rightarrow> nat \<Rightarrow> int \<Rightarrow> string \<Rightarrow> (string \<times> int) option" where
  "list_nodes_in 0 e s mode a prefix' base size' buf = None"
| "list_nodes_in (Suc fuel) e s mode a prefix' base size' buf =
     (if size' \<le> 0 then Some (buf, 0)
      else do {
        n \<leftarrow> nodes s a;
        if rw_flags n AND mode = 0 then Some (buf, 0)
        else do {
          cprefix \<leftarrow> configs_build_prefix n prefix' mode;
          (buf, pn) \<leftarrow> (if mode AND LIST_MODE_NODE_INFO \<noteq> 0 then snprintf_at buf base size' (node_line n cprefix)
                       else Some (buf, 0));
          (buf, ret) \<leftarrow> (if mode AND LIST_MODE_CONFIGS_VAL \<noteq> 0
                       then configs_list_node_configs_locked e s n cprefix mode (base + nat pn) (size' - pn) buf
                       else Some (buf, 0));
          let pn = pn + ret;
          if mode AND LIST_MODE_SUB_NODES \<noteq> 0 \<and> 0 < son_node_num n then do {
            cprefix \<leftarrow> (if mode AND LIST_MODE_PATH_PREFIX \<noteq> 0 \<and> 0 < ndepth n
                       then (if length cprefix + length (name_text n) < PREFIX_BUF then Some (cprefix @ name_text n) else None)
                       else Some cprefix);
            sons \<leftarrow> son_node_list n;
            list_sons (list_nodes_in fuel e s mode) sons cprefix base size' buf pn
          }
          else Some (buf, pn)
        }
      })"

text \<open>A tree of depth 8 has at most nine nodes on a path from the root.\<close>

definition configs_list_nodes :: "cfg_env \<Rightarrow> cfg \<Rightarrow> nptr option \<Rightarrow> int \<Rightarrow> u32 \<Rightarrow> string \<Rightarrow> (string \<times> int) option" where
  "configs_list_nodes e s node size' mode buf =
     list_nodes_in 9 e s mode (case node of None \<Rightarrow> root_node | Some a \<Rightarrow> a) None 0 size' buf"

definition configs_list_path_nodes :: "cfg_env \<Rightarrow> cfg \<Rightarrow> string \<Rightarrow> int \<Rightarrow> u32 \<Rightarrow> string \<Rightarrow> (cfg \<times> string \<times> int) option" where
  "configs_list_path_nodes e s prefix' size' mode buf = do {
     (s, node) \<leftarrow> configs_get_node_path_end_node s None (Some prefix');
     case node of
       None \<Rightarrow> Some (s, buf, 0)
     | Some a \<Rightarrow> do {
         (buf, ret) \<leftarrow> configs_list_nodes e s (Some a) size' mode buf;
         s \<leftarrow> configs_put_node s (Some a) True None;
         Some (s, buf, ret)
       }
   }"

section \<open>The class attributes and the character device\<close>

abbreviation (input) PAGE_SIZE :: int where "PAGE_SIZE \<equiv> 4096"
abbreviation (input) EMFILE :: int where "EMFILE \<equiv> 24"

definition all_show :: "cfg_env \<Rightarrow> cfg \<Rightarrow> string \<Rightarrow> (string \<times> int) option" where
  "all_show e s buf = do {
     (buf, r) \<leftarrow> configs_list_nodes e s None PAGE_SIZE LIST_MODE_NODE_CMDVAL_ALL buf;
     Some (buf, if 0 < r then r else - EPERM)
   }"

text \<open>The shape that the attributes of the single nodes share.\<close>

definition path_show :: "string \<Rightarrow> cfg_env \<Rightarrow> cfg \<Rightarrow> string \<Rightarrow> (cfg \<times> string \<times> int) option" where
  "path_show path e s buf = do {
     (s, buf, r) \<leftarrow> configs_list_path_nodes e s path PAGE_SIZE LIST_MODE_NODE_CMDVAL_ALL buf;
     Some (s, buf, if 0 < r then r else - EPERM)
   }"

definition media_show where "media_show = path_show ''media''"
definition video_show where "video_show = path_show ''media.video''"
definition decoder_show where "decoder_show = path_show ''media.decoder''"
definition vdec_show where "vdec_show = path_show ''media.vdec''"
definition tsync_show where "tsync_show = path_show ''media.tsync''"
definition amports_show where "amports_show = path_show ''media.amports''"
definition parser_show where "parser_show = path_show ''media.parser''"
definition audio_show where "audio_show = path_show ''media.audio''"
definition vfm_show where "vfm_show = path_show ''media.vfm''"

definition config_show :: "cfg_env \<Rightarrow> cfg \<Rightarrow> string \<Rightarrow> (string \<times> int) option" where
  "config_show e s buf = do {
     (buf, r) \<leftarrow> configs_list_nodes e s None PAGE_SIZE LIST_MODE_NODE_CMDVAL_ALL buf;
     Some (buf, if 0 < r then r else - EPERM)
   }"

definition config_store :: "cfg_env \<Rightarrow> cfg \<Rightarrow> string \<Rightarrow> int \<Rightarrow> (cfg \<times> int) option" where
  "config_store e s buf size' = do {
     (s, ret) \<leftarrow> configs_set_node_path_valonpath e s None buf;
     Some (s, if 0 \<le> ret then size' else ret)
   }"

text \<open>The table of nodes with a device: parent path, name and device name.  The node of entry \<open>i\<close> is at address
  \<open>i + 1\<close>.\<close>

definition mediaconfig_nodes :: "(string \<times> string \<times> string) list" where
  "mediaconfig_nodes = [([], ''media'', ''media''), (''media'', ''decoder'', ''media.decoder''),
     (''media'', ''parser'', ''media.parser''), (''media'', ''video'', ''media.video''),
     (''media'', ''amports'', ''media.amports''), (''media'', ''tsync'', ''media.tsync''),
     (''media'', ''codec_mm'', ''media.codec_mm''), (''media'', ''audio'', ''media.audio''), (''media'', ''vfm'', ''media.vfm'')]"

fun register_loop :: "cfg \<Rightarrow> nat \<Rightarrow> (string \<times> string \<times> string) list \<Rightarrow> (cfg \<times> int) option" where
  "register_loop s i [] = Some (s, 0)"
| "register_loop s i ((parent, name, _) # ms) = do {
     s \<leftarrow> configs_init_new_node s (i + 1) name CONFIG_FOR_RW;
     (s, r) \<leftarrow> configs_register_path_node s (Some parent) (i + 1);
     if r < 0 then Some (s, r) else register_loop s (i + 1) ms
   }"

definition media_configs_system_init :: "cfg \<Rightarrow> (cfg \<times> int) option" where
  "media_configs_system_init s = do {
     (s, _) \<leftarrow> configs_config_system_init s;
     register_loop s 0 mediaconfig_nodes
   }"

text \<open>An open file: the entry of the table and the counters that the calls keep.  Process and time stamps are
  stored by the code and never read.\<close>

record config_file_private =
  fnode :: nat
  access_get_cnt :: int
  access_set_cnt :: int
  error_cnt :: int
  f_pos :: int

record cfg_dev =
  dcfg :: cfg
  opened_cnt :: "nat \<Rightarrow> int"

definition configs_open :: "cfg_dev \<Rightarrow> nat \<Rightarrow> bool \<Rightarrow> (cfg_dev \<times> config_file_private option \<times> int) option" where
  "configs_open d i mem_ok =
     (if length mediaconfig_nodes \<le> i then None
      else if 65536 < opened_cnt d i then Some (d, None, - EMFILE)
      else if \<not> mem_ok then Some (d, None, - ENOMEM)
      else do {
        (s, _) \<leftarrow> configs_inc_node_ref (dcfg d) (i + 1);
        Some (d\<lparr>dcfg := s, opened_cnt := (opened_cnt d)(i := opened_cnt d i + 1)\<rparr>,
          Some \<lparr>fnode = i, access_get_cnt = 0, access_set_cnt = 0, error_cnt = 0, f_pos = 0\<rparr>, 0)
      })"

definition configs_close :: "cfg_dev \<Rightarrow> config_file_private \<Rightarrow> (cfg_dev \<times> int) option" where
  "configs_close d priv = do {
     (s, _) \<leftarrow> configs_dec_node_ref (dcfg d) (fnode priv + 1);
     Some (d\<lparr>dcfg := s, opened_cnt := (opened_cnt d)(fnode priv := opened_cnt d (fnode priv) - 1)\<rparr>, 0)
   }"

text \<open>The text is written through the pointer of the user.\<close>

definition configs_read :: "cfg_env \<Rightarrow> cfg_dev \<Rightarrow> config_file_private \<Rightarrow> string \<Rightarrow> int \<Rightarrow> bool \<Rightarrow> (config_file_private \<times> string \<times> int) option" where
  "configs_read e d priv buf count ok =
     (if 0 < f_pos priv then Some (priv, buf, 0)
      else if \<not> ok then Some (priv, buf, - EIO)
      else do {
        (buf, ret) \<leftarrow> configs_list_nodes e (dcfg d) (Some (fnode priv + 1)) count LIST_MODE_NODE_CMDVAL_ALL buf;
        Some (if 0 < ret then priv\<lparr>f_pos := ret\<rparr> else priv, buf, ret)
      })"

text \<open>\<open>struct media_config_io_str\<close> has 260 characters of path followed by 256 of value; a string that has no
  terminator in its array runs on into what follows.  A path that does not start with the name of the device is
  printed with the value, and the result is that of the copy, 0.\<close>

definition zstr :: "string \<Rightarrow> string option" where
  "zstr cs = (if CHR 0x00 \<in> set cs then Some (takeWhile (\<lambda>c. c \<noteq> CHR 0x00) cs) else None)"

definition dev_name_of :: "config_file_private \<Rightarrow> string" where
  "dev_name_of priv = snd (snd (mediaconfig_nodes ! fnode priv))"

definition count_error :: "int \<Rightarrow> config_file_private \<Rightarrow> config_file_private" where
  "count_error r priv = (if r < 0 then priv\<lparr>error_cnt := error_cnt priv + 1\<rparr> else priv)"

definition ioctl_set :: "cfg_env \<Rightarrow> cfg_dev \<Rightarrow> config_file_private \<Rightarrow> string \<Rightarrow> string \<Rightarrow> bool \<Rightarrow> (cfg_dev \<times> config_file_private \<times> int) option" where
  "ioctl_set e d priv cmd_path val copied = (
     let priv = priv\<lparr>access_set_cnt := access_set_cnt priv + 1\<rparr>
     in if \<not> copied then Some (d, count_error (- EIO) priv, - EIO)
     else do {
       path \<leftarrow> zstr (cmd_path @ val);
       v \<leftarrow> zstr val;
       let dn = dev_name_of priv;
       if take (length dn) path = dn then do {
         (s, r) \<leftarrow> configs_set_node_nodepath_str e (dcfg d) None path (Some v);
         Some (d\<lparr>dcfg := s\<rparr>, count_error r priv, r)
       }
       else Some (d, priv, 0)
     })"

text \<open>Results: the value copied to the user, if any, and the \<open>ret\<close> member, if written.\<close>

definition ioctl_get ::
    "cfg_env \<Rightarrow> cfg_dev \<Rightarrow> config_file_private \<Rightarrow> string \<Rightarrow> bool \<Rightarrow> bool \<Rightarrow>
     (cfg_dev \<times> config_file_private \<times> string option \<times> int option \<times> int) option" where
  "ioctl_get e d priv cmd_path copied copy_out = (
     let priv = priv\<lparr>access_get_cnt := access_get_cnt priv + 1\<rparr>
     in if \<not> copied then Some (d, count_error (- EIO) priv, None, None, - EIO)
     else do {
       path \<leftarrow> zstr (cmd_path[259 := CHR 0x00]);
       let dn = dev_name_of priv;
       if take (length dn) path = dn then do {
         (s, t, r) \<leftarrow> configs_get_node_nodepath_str e (dcfg d) None path 256;
         let d = d\<lparr>dcfg := s\<rparr>;
         if 0 < r \<and> r \<le> 255 then
           (if copy_out then Some (d, priv, t, Some r, 0) else Some (d, count_error (- EIO) priv, None, None, - EIO))
         else Some (d, count_error r priv, None, Some (-1), r)
       }
       else Some (d, priv, None, None, 0)
     })"

text \<open>\<open>MEDIA_CONFIG_SET_CMD_STR\<close> and \<open>MEDIA_CONFIG_GET_CMD_STR\<close>, and any other command.\<close>

datatype cfg_ioctl = Set_Cmd_Str string string bool | Get_Cmd_Str string bool bool | Other_Cmd

definition configs_ioctl :: "cfg_env \<Rightarrow> cfg_dev \<Rightarrow> config_file_private \<Rightarrow> cfg_ioctl \<Rightarrow>
     (cfg_dev \<times> config_file_private \<times> string option \<times> int option \<times> int) option" where
  "configs_ioctl e d priv ioc =
     (case ioc of
        Set_Cmd_Str p v ok \<Rightarrow> do { (d, priv, r) \<leftarrow> ioctl_set e d priv p v ok; Some (d, priv, None, None, r) }
      | Get_Cmd_Str p ok out \<Rightarrow> ioctl_get e d priv p ok out
      | Other_Cmd \<Rightarrow> Some (d, count_error (- EINVAL) priv, None, None, - EINVAL))"

section \<open>Whatever the accesses do, the tree stays\<close>

text \<open>An access changes reference counts and values only.\<close>

definition touches :: "cfg \<Rightarrow> cfg \<Rightarrow> bool" where
  "touches s s' = (\<exists>f u. keeps_items s u \<and> s' = add_refs f u)"

lemma touches_refs [intro]: "touches s (add_refs f s)"
  unfolding touches_def by (metis keeps_items_refl)

lemma touches_refl [simp, intro]: "touches s s"
  using touches_refs [of s "\<lambda>_. 0"] by (simp add: add_refs_0)

lemma touches_keeps [intro]: "keeps_items s u \<Longrightarrow> touches s u"
  unfolding touches_def by (rule exI [of _ "\<lambda>_. 0"]) (auto simp: add_refs_0)

lemma keeps_items_add_refs: "keeps_items (add_refs f s) u \<Longrightarrow> \<exists>v. u = add_refs f v \<and> keeps_items s v"
proof -
  assume k: "keeps_items (add_refs f s) u"
  have "keeps_items s (u\<lparr>nodes := nodes s\<rparr>)" using k by (simp add: keeps_items_def)
  moreover have "u = add_refs f (u\<lparr>nodes := nodes s\<rparr>)"
    using k by (auto simp: keeps_items_def add_refs_def intro!: cfg.equality)
  ultimately show ?thesis by blast
qed

lemma keeps_items_trans: "keeps_items s t \<Longrightarrow> keeps_items t u \<Longrightarrow> keeps_items s u"
  by (simp add: keeps_items_def)

lemma touches_trans [trans]: "touches s t \<Longrightarrow> touches t u \<Longrightarrow> touches s u"
  unfolding touches_def
proof (elim exE conjE)
  fix f v g w
  assume a: "keeps_items s v" "t = add_refs f v" "keeps_items t w" "u = add_refs g w"
  then obtain x where "w = add_refs f x" "keeps_items v x" using keeps_items_add_refs by blast
  then have "keeps_items s x" "u = add_refs (\<lambda>b. f b + g b) x"
    using a keeps_items_trans [of s v x] by (simp_all add: add_refs_add_refs)
  then show "\<exists>f u'. keeps_items s u' \<and> u = add_refs f u'" by blast
qed

lemma touches_tree_ok: "touches s s' \<Longrightarrow> tree_ok s \<Longrightarrow> tree_ok s'"
  unfolding touches_def using keeps_tree_ok by (auto simp: ref_simps)

lemma touches_put: "configs_put_node s a d r = Some s' \<Longrightarrow> touches s s'"
  using put_node_any by blast

lemma touches_inc: "configs_inc_node_ref s a = Some (s', r) \<Longrightarrow> touches s s'"
  by (auto simp: configs_inc_node_ref_eq)

lemma touches_dec: "configs_dec_node_ref s a = Some (s', r) \<Longrightarrow> touches s s'"
  by (auto simp: configs_dec_node_ref_eq)

lemma touches_named: "configs_get_node_with_name s a nm = Some (s', r) \<Longrightarrow> touches s s'"
  using get_node_with_name_any by blast

lemma touches_walk: "path_walk s t a p = Some (s', w) \<Longrightarrow> touches s s'"
proof (induction s t a p arbitrary: s' w rule: path_walk.induct)
  case (1 s t a p)
  obtain i sub e where p: "configs_parser_first_node p = (i, sub, e)" using prod_cases3 by blast
  show ?case
  proof (cases "i = 0 \<or> sub = [] \<or> e")
    case True
    then show ?thesis using 1(2) p by (auto simp: path_walk.simps [of s] split: if_splits)
  next
    case False
    then obtain s1 r where g1: "configs_get_node_with_name s (Some a) (Some sub) = Some (s1, r)"
      using 1(2) p by (auto simp: path_walk.simps [of s] bind_eq_Some_conv)
    have g2: "s' = s1 \<and> r = None \<or> (\<exists>b. r = Some b \<and> path_walk s1 t b (drop (i + 1) p) = Some (s', w))"
      using 1(2) p False g1 by (cases r) (auto simp: path_walk.simps [of s])
    note g = g1 g2
    have s1: "touches s s1" by (rule touches_named [OF g(1)])
    from g(2) show ?thesis
    proof (elim disjE conjE exE)
      fix b assume b: "r = Some b" "path_walk s1 t b (drop (i + 1) p) = Some (s', w)"
      have "touches s1 s'"
        by (rule 1(1) [OF p [symmetric] refl refl _ _ g(1) refl b]) (use False in auto)
      then show ?thesis by (rule touches_trans [OF s1])
    qed (use s1 in simp)
  qed
qed

lemma touches_end_loop: "end_node_loop s t a p = Some (s', w) \<Longrightarrow> touches s s'"
proof (induction s t a p arbitrary: s' w rule: end_node_loop.induct)
  case (1 s t a p)
  obtain i sub e where p: "configs_parser_first_node p = (i, sub, e)" using prod_cases3 by blast
  show ?case
  proof (cases "i = 0 \<or> sub = []")
    case True
    then show ?thesis using 1(2) p by (auto simp: end_node_loop.simps [of s] split: if_splits)
  next
    case False
    let ?q = "\<lambda>n. if e \<and> t = None \<and> a = root_node then do { nm \<leftarrow> nname n; Some (nm = sub) } else Some False"
    obtain n top where n: "nodes s a = Some n" "?q n = Some top"
      "(if top then Some (s, Some a) else do {
         (s, r) \<leftarrow> configs_get_node_with_name s (Some a) (Some sub);
         case r of None \<Rightarrow> Some (s, None)
         | Some a \<Rightarrow> if e then Some (s, Some a) else end_node_loop s t a (drop (i + 1) p) }) = Some (s', w)"
      using 1(2) p False unfolding end_node_loop.simps [of s t a p]
      by (simp only: p prod.case Let_def if_False de_Morgan_disj bind_eq_Some_conv) blast
    show ?thesis
    proof (cases top)
      case True
      then show ?thesis using n by auto
    next
      case nt: False
      then obtain s1 r where g: "configs_get_node_with_name s (Some a) (Some sub) = Some (s1, r)"
        "s' = s1 \<or> (\<exists>b. r = Some b \<and> \<not> e \<and> end_node_loop s1 t b (drop (i + 1) p) = Some (s', w))"
        using n(3) by (auto simp: bind_eq_Some_conv split: option.splits if_splits)
      have s1: "touches s s1" by (rule touches_named [OF g(1)])
      from g(2) show ?thesis
      proof (elim disjE exE conjE)
        fix b assume b: "r = Some b" "\<not> e" "end_node_loop s1 t b (drop (i + 1) p) = Some (s', w)"
        have "touches s1 s'"
          by (rule 1(1) [OF p [symmetric] refl refl _ n(1) n(2) nt g(1) refl b]) (use False in auto)
        then show ?thesis by (rule touches_trans [OF s1])
      qed (use s1 in simp)
    qed
  qed
qed

lemma touches_end: "configs_get_node_path_end_node s r p = Some (s', w) \<Longrightarrow> touches s s'"
  by (auto simp: configs_get_node_path_end_node_def split: option.splits dest: touches_end_loop)

lemma touches_node_config: "configs_get_node_config s a nm = Some (s', c) \<Longrightarrow> touches s s'"
  by (auto simp: configs_get_node_config_def bind_eq_Some_conv split: if_splits option.splits dest: touches_inc)

lemma touches_path_config:
  assumes "configs_get_node_path_config s r p w = Some (s', c)"
  shows "touches s s'"
proof (cases p)
  case None
  then show ?thesis using assms by (simp add: configs_get_node_path_config_def)
next
  case (Some q)
  define topn where "topn = (case r of None \<Rightarrow> root_node | Some a \<Rightarrow> a)"
  note def = configs_get_node_path_config_def [of s r p w, folded topn_def]
  obtain s1 x where x: "path_walk s topn topn q = Some (s1, x)"
    using assms Some unfolding def by (auto simp: bind_eq_Some_conv)
  have s1: "touches s s1" by (rule touches_walk [OF x])
  have put: "touches s s'" if "configs_put_node s2 a b d = Some s'" "touches s1 s2" for s2 a b d
    using touches_put [OF that(1)] that(2) s1 touches_trans by blast
  show ?thesis
  proof (cases x)
    case Bad_Name
    then show ?thesis using assms Some x s1 unfolding def by simp
  next
    case (Missing b err)
    then show ?thesis using assms Some x put [of s1] unfolding def by (auto simp: bind_eq_Some_conv)
  next
    case (Reached b item)
    obtain n where n: "nodes s1 b = Some n" using assms Some x Reached unfolding def by (auto simp: bind_eq_Some_conv)
    show ?thesis
    proof (cases "w \<and> rw_flags n AND CONFIG_FOR_W = 0 \<or> \<not> w \<and> rw_flags n AND CONFIG_FOR_R = 0")
      case True
      then show ?thesis using assms Some x Reached n put [of s1] unfolding def by (auto simp: bind_eq_Some_conv)
    next
      case False
      then obtain s2 d where d: "configs_get_node_config s1 b item = Some (s2, d)"
        using assms Some x Reached n unfolding def by (auto simp: bind_eq_Some_conv split: if_splits)
      have "touches s1 s2" by (rule touches_node_config [OF d])
      then show ?thesis using False assms Some x Reached n d put [of s2] touches_trans [OF s1] unfolding def
        by (cases d) (auto simp: bind_eq_Some_conv)
    qed
  qed
qed

lemma touches_setget:
  assumes "configs_setget_node_path_value s r p val k w = Some (s', x)"
  shows "touches s s'"
proof -
  obtain s1 c where c: "configs_get_node_path_config s r p w = Some (s1, c)"
    using assms by (auto simp: configs_setget_node_path_value_def bind_eq_Some_conv)
  show ?thesis
  proof (cases c)
    case (Inl err)
    then show ?thesis using assms touches_path_config [OF c] c by (simp add: configs_setget_node_path_value_def)
  next
    case (Inr q)
    then show ?thesis using assms c
      by (cases q) (auto simp: configs_setget_node_path_value_def bind_eq_Some_conv
          dest!: touches_path_config touches_put setget_keeps [THEN touches_keeps] intro: touches_trans)
  qed
qed

lemma touches_set_str:
  assumes "configs_set_node_path_str e s r p v = Some (s', x)"
  shows "touches s s'"
proof (cases "s' = s")
  case False
  then obtain q u where q: "p = Some q" "v = Some u" "q \<noteq> []" "u \<noteq> []"
    using assms by (auto simp: configs_set_node_path_str_def split: option.splits if_splits)
  obtain s1 c where c: "configs_get_node_path_config s r p True = Some (s1, c)"
    using assms q by (auto simp: configs_set_node_path_str_def bind_eq_Some_conv)
  show ?thesis
  proof (cases c)
    case (Inl err)
    then show ?thesis using assms q touches_path_config [OF c] c by (simp add: configs_set_node_path_str_def)
  next
    case (Inr d)
    then show ?thesis using assms q c
      by (cases d) (auto simp: configs_set_node_path_str_def bind_eq_Some_conv
          dest!: touches_path_config touches_put str2config_keeps [THEN touches_keeps] intro: touches_trans)
  qed
qed simp

lemma touches_get_str:
  assumes "configs_get_node_path_str e s r p k = Some (s', x)"
  shows "touches s s'"
proof (cases "s' = s")
  case False
  then have p: "p \<noteq> None" "p \<noteq> Some []" using assms by (auto simp: configs_get_node_path_str_def split: if_splits)
  obtain s1 c where c: "configs_get_node_path_config s r p False = Some (s1, c)"
    using assms p by (auto simp: configs_get_node_path_str_def bind_eq_Some_conv)
  show ?thesis
  proof (cases c)
    case (Inl err)
    then show ?thesis using assms p touches_path_config [OF c] c by (auto simp: configs_get_node_path_str_def)
  next
    case (Inr d)
    then show ?thesis using assms p c
      by (cases d) (auto simp: configs_get_node_path_str_def bind_eq_Some_conv
          dest!: touches_path_config touches_put intro: touches_trans)
  qed
qed simp

section \<open>The tree in every reachable state\<close>

lemma touches_nodepath_str: "configs_set_node_nodepath_str e s r p v = Some (s', x) \<Longrightarrow> touches s s'"
  by (auto simp: configs_set_node_nodepath_str_def bind_eq_Some_conv split: option.splits if_splits dest: touches_set_str)

lemma touches_get_nodepath_str: "configs_get_node_nodepath_str e s r p k = Some (s', x) \<Longrightarrow> touches s s'"
  by (auto simp: configs_get_node_nodepath_str_def bind_eq_Some_conv split: option.splits if_splits dest: touches_get_str)

lemma touches_prefix_str: "configs_set_prefix_path_str e s r p v = Some (s', x) \<Longrightarrow> touches s s'"
  by (auto simp: configs_set_prefix_path_str_def bind_eq_Some_conv split: if_splits
      dest!: touches_set_str touches_end touches_put intro: touches_trans)

lemma touches_prefix_valonpath: "configs_set_prefix_path_valonpath e s r p = Some (s', x) \<Longrightarrow> touches s s'"
  by (auto simp: configs_set_prefix_path_valonpath_def bind_eq_Some_conv split: if_splits
      dest!: touches_set_str touches_end touches_put intro: touches_trans)

lemma touches_list_path:
  assumes "configs_list_path_nodes e s p k m buf = Some (s', x)"
  shows "touches s s'"
proof -
  obtain s1 a where a: "configs_get_node_path_end_node s None (Some p) = Some (s1, a)"
    using assms by (auto simp: configs_list_path_nodes_def bind_eq_Some_conv)
  show ?thesis using assms a touches_end [OF a]
    by (cases a) (auto simp: configs_list_path_nodes_def bind_eq_Some_conv dest!: touches_put intro: touches_trans)
qed

lemma touches_ioctl: "configs_ioctl e d f ioc = Some (d', x) \<Longrightarrow> touches (dcfg d) (dcfg d')"
  by (cases ioc) (auto simp: configs_ioctl_def ioctl_set_def ioctl_get_def Let_def bind_eq_Some_conv split: if_splits
      dest!: touches_nodepath_str touches_get_nodepath_str)

lemma touches_open: "configs_open d i ok = Some (d', x) \<Longrightarrow> touches (dcfg d) (dcfg d')"
  by (auto simp: configs_open_def bind_eq_Some_conv split: if_splits dest!: touches_inc)

lemma touches_close: "configs_close d f = Some (d', x) \<Longrightarrow> touches (dcfg d) (dcfg d')"
  by (auto simp: configs_close_def bind_eq_Some_conv dest!: touches_dec)

lemma register_loop_ok: "tree_ok s \<Longrightarrow> register_loop s i ms = Some (s', r) \<Longrightarrow> tree_ok s'"
proof (induction s i ms rule: register_loop.induct)
  case (2 s i parent name dn ms)
  obtain s1 s2 q where s: "configs_init_new_node s (i + 1) name CONFIG_FOR_RW = Some s1"
    "configs_register_path_node s1 (Some parent) (i + 1) = Some (s2, q)"
    "s' = s2 \<or> register_loop s2 (i + 1) ms = Some (s', r) \<and> \<not> q < 0"
    using 2(3) by (auto simp: bind_eq_Some_conv split: if_splits)
  have "tree_ok s2"
    using configs_init_new_node_ok [OF 2(2) _ s(1)] configs_register_path_node_ok [OF _ _ s(2)] by (simp add: root_node_def)
  then show ?case using s 2(1) [OF s(1,2) refl] by auto
qed simp

lemma media_init_ok: "raw_store s \<Longrightarrow> media_configs_system_init s = Some (s', r) \<Longrightarrow> tree_ok s'"
  using system_init_ok [of s] register_loop_ok by (auto simp: media_configs_system_init_def bind_eq_Some_conv)

text \<open>The states that the start and the operations of the module reach, in any order.  New nodes are registered
  without sons, arrays with at most the items they have, and a node is deleted with its parent or with \<open>NULL\<close>.\<close>

inductive config_reach :: "cfg_env \<Rightarrow> cfg \<Rightarrow> bool" for e where
  start: "raw_store s \<Longrightarrow> configs_config_system_init s = Some (s', r) \<Longrightarrow> config_reach e s'"
| boot: "raw_store s \<Longrightarrow> media_configs_system_init s = Some (s', r) \<Longrightarrow> config_reach e s'"
| init: "config_reach e s \<Longrightarrow> a \<noteq> root_node \<Longrightarrow> configs_init_new_node s a nm rw = Some s' \<Longrightarrow> config_reach e s'"
| node: "config_reach e s \<Longrightarrow> fresh_leaf s a \<Longrightarrow> configs_register_node s p a = Some (s', r) \<Longrightarrow> config_reach e s'"
| path_node: "config_reach e s \<Longrightarrow> fresh_leaf s a \<Longrightarrow> configs_register_path_node s q a = Some (s', r) \<Longrightarrow> config_reach e s'"
| items: "config_reach e s \<Longrightarrow> array_ok s arr num \<Longrightarrow> configs_register_configs s p arr num = Some (s', r) \<Longrightarrow> config_reach e s'"
| path_items: "config_reach e s \<Longrightarrow> array_ok s arr num \<Longrightarrow> configs_register_path_configs s q arr num = Some (s', r) \<Longrightarrow>
    config_reach e s'"
| delete: "config_reach e s \<Longrightarrow> nodes s a = Some n \<Longrightarrow> p = None \<or> (\<exists>b. p = Some b \<and> nlink n = On b) \<Longrightarrow>
    configs_del_endnode s p a = Some (s', r) \<Longrightarrow> config_reach e s'"
| find: "config_reach e s \<Longrightarrow> configs_get_node_path_end_node s p q = Some (s', x) \<Longrightarrow> config_reach e s'"
| number: "config_reach e s \<Longrightarrow> configs_setget_node_path_value s p q val k w = Some (s', y) \<Longrightarrow> config_reach e s'"
| set_str: "config_reach e s \<Longrightarrow> configs_set_node_path_str e s p q v = Some (s', r) \<Longrightarrow> config_reach e s'"
| get_str: "config_reach e s \<Longrightarrow> configs_get_node_path_str e s p q k = Some (s', t) \<Longrightarrow> config_reach e s'"
| set_prefix: "config_reach e s \<Longrightarrow> configs_set_prefix_path_str e s q q' v = Some (s', r) \<Longrightarrow> config_reach e s'"
| set_prefix_val: "config_reach e s \<Longrightarrow> configs_set_prefix_path_valonpath e s q v' = Some (s', r) \<Longrightarrow> config_reach e s'"
| listing: "config_reach e s \<Longrightarrow> configs_list_path_nodes e s v' k m buf = Some (s', t) \<Longrightarrow> config_reach e s'"
| open_dev: "config_reach e (dcfg d) \<Longrightarrow> configs_open d i ok = Some (d', f) \<Longrightarrow> config_reach e (dcfg d')"
| close_dev: "config_reach e (dcfg d) \<Longrightarrow> configs_close d f' = Some (d', r) \<Longrightarrow> config_reach e (dcfg d')"
| ioctl_dev: "config_reach e (dcfg d) \<Longrightarrow> configs_ioctl e d f' ioc = Some (d', u) \<Longrightarrow> config_reach e (dcfg d')"

lemma config_reach_tree: "config_reach e s \<Longrightarrow> tree_ok s"
proof (induction rule: config_reach.induct)
  case (start s s' r)
  then show ?case using system_init_ok by fastforce
next
  case (number s p q val k w s' y)
  then show ?case using touches_setget touches_tree_ok by (metis surj_pair)
qed (blast intro: media_init_ok configs_init_new_node_ok configs_register_node_ok configs_register_path_node_ok
    configs_register_configs_ok configs_register_path_configs_ok configs_del_endnode_ok touches_tree_ok
    touches_end touches_set_str touches_get_str touches_prefix_str touches_prefix_valonpath touches_list_path
    touches_open touches_close touches_ioctl)+

text \<open>C33: The tree is well-formed in every reachable state, whatever operations run and in whatever order.  A node below
  the root is at most eight levels deep, no node is above itself, its rights are among the rights of every node above it,
  and releasing it ends and takes one reference from it and from each node above it.\<close>

theorem config_tree_invariant:
  assumes "config_reach e s" and "rooted s (b # as)"
  shows "length as \<le> 8 \<and> distinct (b # as) \<and>
     (\<exists>n. nodes s b = Some n \<and> ndepth n = int (length as) \<and>
        (\<forall>a\<in>set as. \<exists>m. nodes s a = Some m \<and> rw_flags m AND rw_flags n = rw_flags n)) \<and>
     configs_put_node s (Some b) True None = Some (add_refs (\<lambda>x. - tally (b # as) x) s)"
proof -
  have t: "tree_ok s" by (rule config_reach_tree [OF assms(1)])
  obtain n where n: "nodes s b = Some n" "ndepth n = int (length as)" by (rule rooted_node [OF t assms(2)])
  have "\<exists>m. nodes s a = Some m \<and> rw_flags m AND rw_flags n = rw_flags n" if a: "a \<in> set as" for a
  proof -
    obtain xs ys where "as = xs @ a # ys" using a by (auto simp: in_set_conv_decomp)
    then have "rooted s (a # ys)" using assms(2) rooted_suffix [of s "b # xs" a ys] by simp
    then obtain m where "nodes s a = Some m" using rooted_node [OF t] by metis
    then show ?thesis using rooted_rights [OF t assms(2) _ _ n(1)] a by auto
  qed
  then show ?thesis
    using n rooted_depth [OF t assms(2)] rooted_distinct [OF t assms(2)] rooted_put [OF t assms(2)] by blast
qed

theorem config_tree_invariant_witness:
  "\<exists>s. config_reach plain_conv s \<and> rooted s [root_node] \<and>
     configs_put_node s (Some root_node) True None = Some (add_refs (\<lambda>x. - tally [root_node] x) s)"
proof -
  have "raw_store demo_store" by (auto simp: raw_store_def demo_store_def root_node_def)
  then obtain s where s: "config_reach plain_conv s"
    using system_init_ok config_reach.start by blast
  then show ?thesis using config_tree_invariant [OF s, of root_node "[]"] by auto
qed

section \<open>Registered nodes are found\<close>

lemma node_at_rooted:
  "node_at s a nms = Some b \<Longrightarrow> rooted s (a # as) \<Longrightarrow> \<exists>bs. rooted s (b # bs)"
proof (induction nms arbitrary: a as)
  case (Cons nm nms)
  then obtain c where c: "son_named s a nm = Some c" "node_at s c nms = Some b" by (auto split: option.splits)
  then have "rooted s (c # a # as)" using Cons.prems(2) son_named_is_son by auto
  then show ?case using Cons.IH [OF c(2)] by blast
qed auto

text \<open>C34: A registered node is found.  Let the parent be at the path with the names \<open>nms\<close>, let no son of it have the name
  of the new node, let it have room, let all names be usable in a path and let no reference count be exhausted.  Then
  registration returns 0; \<open>configs_get_node_path_end_node\<close> finds the new node under the path of the parent followed by its
  name, and under every path of such names under which it found a node it still finds that node; and the new node has only
  rights that its parent has.\<close>

theorem config_register_lookup:
  assumes t: "tree_ok s" and l: "fresh_leaf s new" and n: "nodes s new = Some n" "\<not> linked n" "nname n = Some nm" "nprefix n = []"
    and pa: "node_at s root_node nms = Some pa" "new \<noteq> pa" "nodes s pa = Some p" "nname p = Some pname"
    and room: "ndepth p < MAX_DEPTH" "length (nprefix p) + length pname < MAX_PREFIX_NAME - 2"
    and free: "\<forall>b\<in>set (sons_of s pa). \<not> has_name s nm b"
    and names: "\<forall>x\<in>set (nms @ [nm]). name_ok x" "nms @ [nm] \<noteq> [''root'']" and hold: "holdable s 0" "can_hold s new"
  shows "\<exists>s'. configs_register_node s (Some pa) new = Some (s', 0) \<and>
     (\<exists>s1. configs_get_node_path_end_node s' None (Some (path_str nms nm)) = Some (s1, Some new)) \<and>
     (\<forall>nms' nm' b s1. (\<forall>x\<in>set (nms' @ [nm']). name_ok x) \<and>
        configs_get_node_path_end_node s None (Some (path_str nms' nm')) = Some (s1, Some b) \<longrightarrow>
        (\<exists>s2. configs_get_node_path_end_node s' None (Some (path_str nms' nm')) = Some (s2, Some b))) \<and>
     (\<exists>m. nodes s' new = Some m \<and> rw_flags m = rw_flags p AND rw_flags n)"
proof -
  obtain bs where r: "rooted s (pa # bs)" using node_at_rooted [OF pa(1) rooted_root] by blast
  obtain sons where sons: "son_node_list p = Some sons" using rooted_node [OF t r] pa(3) by (metis option.exhaust option.inject)
  have none: "List.find (has_name s nm) (sons_of s pa) = None" using free by (simp add: find_None_iff)
  then have get: "configs_get_node_with_name s (Some pa) (Some nm) = Some (s, None)"
    using get_node_with_name_eq [OF t r, of nm] by (simp add: son_named_def)
  have "\<exists>px. son_prefix p pname n = Some px" using room n(4) by (simp add: son_prefix_def Let_def)
  then obtain s' where k: "link_node s pa pname new = Some s'" "\<exists>m. nodes s' new = Some m \<and> rw_flags m = rw_flags p AND rw_flags n"
    using pa n sons by (auto simp: link_node_def)
  have reg: "configs_register_node s (Some pa) new = Some (s', 0)"
    using pa n room get k(1) by (simp add: configs_register_node_def)
  have t': "tree_ok s'" by (rule link_node_ok [OF t l pa(2,3) room(1) k(1)])
  have h': "holdable s' 0" by (rule holdable_link [OF k(1) pa(2) hold])
  note keep = node_at_link [OF t pa(2) l k(1)]
  have "son_named s' pa nm = Some new"
    using son_named_link [OF t pa(2) l k(1), of pa nm] none n by (simp add: has_name_def)
  then have "node_at s' root_node (nms @ [nm]) = Some new" using keep [OF pa(1)] by (simp add: node_at_append)
  then have found: "\<exists>s1. configs_get_node_path_end_node s' None (Some (path_str nms nm)) = Some (s1, Some new)"
    using end_node_eq [OF t' h' names] by auto
  have still: "\<exists>s2. configs_get_node_path_end_node s' None (Some (path_str nms' nm')) = Some (s2, Some b)"
    if ok: "\<forall>x\<in>set (nms' @ [nm']). name_ok x"
      and b: "configs_get_node_path_end_node s None (Some (path_str nms' nm')) = Some (s1, Some b)" for nms' nm' b s1
  proof (cases "nms' @ [nm'] = [''root'']")
    case True
    then show ?thesis using b end_node_root [OF t] end_node_root [OF t'] by auto
  next
    case False
    then have "node_at s root_node (nms' @ [nm']) = Some b" using end_node_eq [OF t hold(1) ok] b by auto
    then show ?thesis using keep end_node_eq [OF t' h' ok False] by auto
  qed
  show ?thesis using reg found still k(2) by blast
qed

definition demo_fresh :: cfg where
  "demo_fresh = demo_cfg\<lparr>nodes := (nodes demo_cfg)(2 \<mapsto> zero_node\<lparr>nname := Some ''audio'', rw_flags := 1, active := 1, nlink := Self,
     son_node_list := Some []\<rparr>)\<rparr>"

lemma demo_fresh_tree: "tree_ok demo_fresh"
  by (auto simp: tree_ok_def node_ok_def demo_fresh_def demo_defs zero_node_def son_ok_def is_son_def)

theorem config_register_lookup_witness:
  "\<exists>s' s1. configs_register_node demo_fresh (Some 1) 2 = Some (s', 0) \<and>
     configs_get_node_path_end_node s' None (Some ''media.audio'') = Some (s1, Some 2)"
proof -
  let ?n = "zero_node\<lparr>nname := Some ''audio'', rw_flags := 1, active := 1, nlink := Self, son_node_list := Some []\<rparr>"
  have p: "path_str [''media''] ''audio'' = ''media.audio''" by simp
  have "holdable demo_fresh 0" "can_hold demo_fresh 2"
    by (auto simp: holdable_def can_hold_def demo_fresh_def demo_defs zero_node_def)
  then have "\<exists>s'. configs_register_node demo_fresh (Some 1) 2 = Some (s', 0) \<and>
     (\<exists>s1. configs_get_node_path_end_node s' None (Some (path_str [''media''] ''audio'')) = Some (s1, Some 2)) \<and>
     (\<forall>nms' nm' b s1. (\<forall>x\<in>set (nms' @ [nm']). name_ok x) \<and>
        configs_get_node_path_end_node demo_fresh None (Some (path_str nms' nm')) = Some (s1, Some b) \<longrightarrow>
        (\<exists>s2. configs_get_node_path_end_node s' None (Some (path_str nms' nm')) = Some (s2, Some b))) \<and>
     (\<exists>m. nodes s' 2 = Some m \<and> rw_flags m = rw_flags demo_media AND rw_flags ?n)"
    by (intro config_register_lookup [OF demo_fresh_tree])
      (auto simp: fresh_leaf_def demo_fresh_def demo_defs zero_node_def linked_def son_named_def has_name_def sons_of_def is_active_def
        name_ok_def blank_def)
  then show ?thesis unfolding p by auto
qed

text \<open>A son of that name that was deleted while it was in use stays in the list: the new node is registered
  behind it and is not found.\<close>

lemma config_register_shadowed:
  assumes t: "tree_ok s" and l: "fresh_leaf s new" and n: "nodes s new = Some n" "nname n = Some nm" and ne: "new \<noteq> pa"
    and k: "link_node s pa pname new = Some s'"
    and b: "List.find (has_name s nm) (sons_of s pa) = Some b" "\<not> is_active s b"
  shows "son_named s' pa nm = None"
  using son_named_link [OF t ne l k, of pa nm] b by (simp add: son_named_def)

section \<open>Listings\<close>

text \<open>Nine levels are enough for a well-formed tree: more fuel changes nothing.\<close>

lemma list_sons_cong:
  assumes "\<And>b px base size' buf. b \<in> set bs \<Longrightarrow> f b px base size' buf = g b px base size' buf"
  shows "list_sons f bs cpx base size' buf pn = list_sons g bs cpx base size' buf pn"
  using assms
proof (induction bs arbitrary: buf pn)
  case (Cons b bs)
  then show ?case by (simp cong: Option.bind_cong)
qed simp

lemma list_fuel:
  assumes t: "tree_ok s"
  shows "rooted s (a # as) \<Longrightarrow> 9 \<le> fuel + length as \<Longrightarrow>
      list_nodes_in (fuel + k) e s mode a px base size' buf = list_nodes_in fuel e s mode a px base size' buf"
proof (induction fuel arbitrary: a as px base size' buf)
  case 0
  then show ?case using rooted_depth [OF t, of a as] by simp
next
  case (Suc fuel)
  obtain n where n: "nodes s a = Some n" "son_node_list n \<noteq> None" by (rule rooted_node [OF t Suc.prems(1)])
  then obtain l where l: "son_node_list n = Some l" by auto
  have "list_nodes_in (fuel + k) e s mode b px base size' buf = list_nodes_in fuel e s mode b px base size' buf"
    if "b \<in> set l" for b px base size' buf
    by (rule Suc.IH [of b "a # as"]) (use Suc.prems that son_list [OF n(1) l] in auto)
  then have "list_sons (list_nodes_in (fuel + k) e s mode) l cpx base size' buf pn =
      list_sons (list_nodes_in fuel e s mode) l cpx base size' buf pn"
    for cpx base size' buf pn by (rule list_sons_cong)
  then show ?case using n(1) l by (simp add: Let_def cong: if_cong)
qed

text \<open>The first line of the items of a node.\<close>

definition item_line :: "mconfig_node \<Rightarrow> mconfig \<Rightarrow> string" where
  "item_line n c = '' '' @ name_text n @ ''.'' @ item_name c @ ''=''"

text \<open>C38: A listing that does not fit is not cut but leaves its buffer.  For a node with one item whose value is printed,
  the listing is the line with the value and a newline if that and the terminator fit; otherwise the value is cut to the
  buffer and the newline is appended behind it, which writes past the end.\<close>

theorem config_list_overrun:
  assumes n: "nodes s a = Some n" "rw_flags n AND CONFIG_FOR_R \<noteq> 0" "rw_flags n AND CONFIG_FOR_T = 0" "mode AND LIST_MODE_VAL \<noteq> 0"
    and c: "nconfigs n = Some arr" "arrays s arr = Some [c]" "configs_num n = 1"
    and buf: "length buf = nat k" "8 < k" "int (length (item_line n c)) + 1 < k" "CHR 0x00 \<notin> set (item_line n c)"
    and t: "config_text e s c (k - int (length (item_line n c))) = Some (int (length t), Some t)" "t \<noteq> []" "CHR 0x00 \<notin> set t"
  shows "configs_list_node_configs e s a k mode buf =
     (if int (length (item_line n c)) + int (length t) + 1 < k
      then Some (item_line n c @ t @ [CHR 0x0A, CHR 0x00] @ drop (length (item_line n c) + length t + 2) buf,
        int (length (item_line n c)) + int (length t) + 1)
      else None)"
proof -
  let ?l = "item_line n c" and ?L = "length (item_line n c)"
  have line: "'' '' @ [] @ name_text n @ ''.'' @ item_name c @ (if rw_flags n AND CONFIG_FOR_R \<noteq> 0 then ''='' else []) = ?l"
    using n(2) by (simp add: item_line_def)
  let ?b1 = "?l @ CHR 0x00 # drop (?L + 1) buf"
  have b1: "snprintf_at buf 0 k ?l = Some (?b1, int ?L)"
    using buf by (simp add: snprintf_at_def put_text_def)
  let ?m = "nat (k - int ?L) - 1"
  have conv: "configs_config2str e s c (k - int ?L) = Some (if k - int ?L \<le> int (length t) then k - int ?L - 1 else int (length t), Some (take ?m t))"
    using t(1) buf by (simp add: configs_config2str_def)
  define v where "v = take ?m t"
  have lv: "int (length v) = (if k - int ?L \<le> int (length t) then k - int ?L - 1 else int (length t))"
    using buf(3) by (auto simp: v_def min_def)
  have v0: "0 < int (length v)" using lv buf(3) t(2) by (auto split: if_splits)
  have vz: "CHR 0x00 \<notin> set v" using t(3) by (auto simp: v_def dest: in_set_takeD)
  have fit: "?L + length v < nat k" using lv buf(3) by (auto split: if_splits)
  let ?b2 = "?l @ v @ CHR 0x00 # drop (?L + length v + 1) buf"
  have b2: "put_text ?b1 ?L v = Some ?b2"
    using fit buf(1) by (simp add: put_text_def add.commute)
  have tw: "takeWhile (\<lambda>c. c \<noteq> CHR 0x00) ?b2 = ?l @ v"
  proof -
    have "takeWhile (\<lambda>c. c \<noteq> CHR 0x00) ((?l @ v) @ CHR 0x00 # drop (?L + length v + 1) buf) = ?l @ v"
      using buf(4) vz by (subst takeWhile_append2) auto
    then show ?thesis by simp
  qed
  have b3: "strcat_at ?b2 0 [CHR 0x0A] =
      (if ?L + length v + 1 < nat k then Some (?l @ v @ [CHR 0x0A, CHR 0x00] @ drop (?L + length v + 2) buf) else None)"
    using fit buf(1) tw by (simp add: strcat_at_def put_text_def)
  have whole: "v = t" if "?L + length v + 1 < nat k"
    using that lv by (auto simp: v_def split: if_splits)
  have ok: "?L + length v + 1 < nat k \<longleftrightarrow> int ?L + int (length t) + 1 < k"
    using lv buf(3) by (auto split: if_splits)
  have lt: "int ?L + int (length v) < k" using fit by linarith
  have "list_configs e s n [] mode 0 k [c] buf 0 =
      do { b \<leftarrow> strcat_at ?b2 0 [CHR 0x0A]; Some (b, int ?L + int (length v) + 1) }"
    unfolding list_configs.simps line
    using buf(2) n b1 b2 conv [folded v_def lv] v0 lt by simp
  then show ?thesis using n(1) c buf(2) b3 ok whole by (simp add: configs_list_node_configs_def configs_list_node_configs_locked_def)
qed

definition demo_line :: cfg where
  "demo_line = demo_cfg\<lparr>nodes := (nodes demo_cfg)(2 \<mapsto> demo_media\<lparr>nname := Some ''m'', nconfigs := Some 8, configs_num := 1\<rparr>),
     arrays := (arrays demo_cfg)(8 \<mapsto> [\<lparr>c_type = 22, c_id = 0, item_name = ''zone'', ldata0 = 12, ldata1 = 0, c_size = 0\<rparr>])\<rparr>"

theorem config_list_overrun_witness:
  "configs_list_node_configs plain_conv demo_line 2 11 LIST_MODE_VAL (replicate 11 (CHR ''-'')) = None"
proof -
  let ?n = "demo_media\<lparr>nname := Some ''m'', nconfigs := Some 8, configs_num := 1\<rparr>"
  let ?c = "\<lparr>c_type = 22, c_id = 0, item_name = ''zone'', ldata0 = 12, ldata1 = 0, c_size = 0\<rparr> :: mconfig"
  have r: "radix 10 12 = ''12''" by (simp add: radix.simps [of 10 12] radix.simps [of 10 1] radix.simps [of 10 "Suc 0"])
  have l: "item_line ?n ?c = '' m.zone=''" by (simp add: item_line_def name_text_def)
  have t: "config_text plain_conv demo_line ?c (11 - int (length (item_line ?n ?c))) = Some (int (length ''12''), Some ''12'')"
    by (simp add: config_text_def Let_def r)
  have "configs_list_node_configs plain_conv demo_line 2 11 LIST_MODE_VAL (replicate 11 (CHR ''-'')) =
     (if int (length (item_line ?n ?c)) + int (length ''12'') + 1 < 11
      then Some (item_line ?n ?c @ ''12'' @ [CHR 0x0A, CHR 0x00] @
          drop (length (item_line ?n ?c) + length ''12'' + 2) (replicate 11 (CHR ''-'')),
        int (length (item_line ?n ?c)) + int (length ''12'') + 1)
      else None)"
    by (rule config_list_overrun [where arr = 8, OF _ _ _ _ _ _ _ _ _ _ _ t])
      (simp_all add: item_line_def name_text_def demo_line_def demo_media_def)
  then show ?thesis by (simp add: l)
qed

text \<open>A request through a device whose name does not start the path is refused silently.\<close>

lemma config_ioctl_other_path:
  assumes "zstr (p @ v) = Some path" and "zstr v = Some val" and "take (length (dev_name_of f)) path \<noteq> dev_name_of f"
  shows "configs_ioctl e d f (Set_Cmd_Str p v True) = Some (d, f\<lparr>access_set_cnt := access_set_cnt f + 1\<rparr>, None, None, 0)"
  using assms by (simp add: configs_ioctl_def ioctl_set_def dev_name_of_def)

end
