(* ===== verification/Spec2Isabelle.thy ===== *)
theory Spec2Isabelle
  imports Unifykey_Store Canvas_Mgr Config_Module
begin

text \<open>
  Verification of the Amlogic A311D support code of this repository, \<open>src/a311d/soc/amlogic\<close>: the storage of
  device keys (\<open>unifykey\<close>, \<open>mmc\<close>), the canvas driver (\<open>canvas\<close>) and the configuration tree of the media drivers
  (\<open>media/common/codec_mm/configs\<close>).

  \<^bold>\<open>The program.\<close>  User space reads and writes named keys through the unified key device (\<open>unifykey.c\<close>).  The
  table of keys comes from the device tree (\<open>unifykey_dts.c\<close>); an entry says whether a key lives in the efuse
  (\<open>efuse.c\<close>, \<open>efuse_api.c\<close>, \<open>efuse_burn.c\<close>, on firmware calls) or in the key storage (\<open>storage_key.c\<close>).  The
  storage keeps its keys in the firmware (\<open>security_key.c\<close>) or, as normal keys, in a list that is encoded into a
  block (\<open>normal_key.c\<close>) and handed to a storage driver; here that is the key area of the eMMC, two copies of
  256 KiB with checksums and stamps (\<open>emmc_key.c\<close>), behind the partition table (\<open>emmc_partitions.c\<close>).  The canvas
  driver (\<open>canvas.c\<close>) manages windows on memory for video hardware, and its pool (\<open>canvas_mgr.c\<close>) who has which of
  the 256 canvases.  The configuration tree (\<open>configs.c\<close>, \<open>configs_module.c\<close>) has nodes with reference counts and items
  that are read and written by path, from drivers and from user space.

  \<^bold>\<open>The theories.\<close>  Definitions have the names of the C functions and follow their order.
  \<^item> \<open>Aml_Prelude\<close>: integer types, byte buffers with checked access, little-endian fields.
  \<^item> \<open>Kernel_Text\<close>: numbers as \<open>printf\<close> writes them, and strings in pages.
  \<^item> \<open>Key_Map_Spec\<close> (locale \<open>key_store\<close>) and \<open>Named_Store\<close> (locale \<open>named_store\<close>): what a store of keys promises.
  \<^item> \<open>Normal_Key_Tlv\<close>, \<open>Normal_Key\<close>: the codec and the list of normal keys; state \<open>nk_state\<close>.
  \<^item> \<open>Emmc_Block\<close>, \<open>Emmc_Partitions\<close>, \<open>Emmc_Key\<close>: transfers (locales \<open>block_io\<close>, \<open>block_io_live\<close>), partition table
    and device tree copies, key area; state \<open>ek_state\<close> over a card whose device is a parameter.
  \<^item> \<open>Security_Key\<close>, \<open>Storage_Key\<close> (locale \<open>key_block_store\<close>: what the storage driver promises), \<open>Key_Stack\<close> (the
    eMMC key area as that driver, the start of the board); state \<open>uk_store\<close>.
  \<^item> \<open>Efuse\<close>; state \<open>efuse_st\<close>.
  \<^item> \<open>Unifykey\<close>, \<open>Unifykey_Store\<close>: the device on both storages, each an instance of \<open>named_store\<close>; state
    \<open>aml_uk_dev\<close>, steps \<open>uk_reach\<close>.
  \<^item> \<open>Canvas\<close> (steps \<open>canvas_reach\<close>), \<open>Canvas_Mgr\<close> (locale \<open>slot_pool\<close>, use \<open>pool_use\<close>).
  \<^item> \<open>Configs\<close>, \<open>Config_Values\<close>, \<open>Config_Module\<close>: the tree as a store of nodes, values of items, listings and
    the module; state \<open>cfg\<close>, steps \<open>config_reach\<close>.
  \<^item> This theory: the properties of the whole key storage.

  \<^bold>\<open>How the code is modelled.\<close>  Functions take and return the state.  A buffer is the list of its bytes; an access
  outside a buffer, through \<open>NULL\<close>, or to freed or uninitialised memory has the value \<open>None\<close>, and so has a loop that
  does not end.  A theorem that an operation returns \<open>Some\<close> therefore says that it ends without such an access.
  Integers are words of their width where the width matters.  Allocators and the hash service are functions of the
  number of the call, so that any pattern of failures is covered.  What is not part of the sources is a parameter with
  a contract: the SHA-256 transform (\<open>crypto_ok\<close>), the MMC core and card (\<open>ek_io\<close> for a device that may fail, \<open>ek_live\<close>
  for one that does not), the efuse firmware (\<open>efuse_fw_ok\<close>: a blank range can be programmed, nothing is said of
  one that was programmed before), \<open>kzalloc\<close> with its size classes (\<open>kzalloc_ok\<close>), the canvas provider
  (\<open>meson_ok\<close>), the text conversions (\<open>conversions_ok\<close>, \<open>conv_ok\<close>).  Each contract has an instance among the
  witnesses.

  \<^bold>\<open>What is shown.\<close>
  \<^item> Normal keys: the codec is inverted by its reader; a saved store is loaded again; a damaged block is refused; the
    requests refine a finite map whatever allocations fail, and only the hashes need the hash service.
  \<^item> eMMC: a failing write leaves one good copy, a written key is found valid after a restart, a lost copy is repaired;
    device tree copies and their file; partition table.
  \<^item> The storage: a key that is reported as written is there after a reboot; it is written exactly when all keys fit;
    secure keys reach the firmware whole, with one length check that wraps around.
  \<^item> Efuse and device: keys are read back from blank fuses if the copy of the input is terminated; transfers stay
    within the area; keys without write permission never change; tables are well-formed; encrypted keys are never
    readable.
  \<^item> Canvas: cached words are never stale; ranges are taken whole or not at all; the pool refines a map; tables are
    freed as they were allocated, except that canvas 0 is lost; the listing fits its page; a search gives up early.
  \<^item> Configuration: depth, rights and reference counts in every reachable state; lookups end and find registered
    nodes; numbers and texts are read back, with the exceptions that are proved; a listing can leave its buffer.

  \<^bold>\<open>Bounds.\<close>  Loops of the code are structural recursions, functions with a measure or \<open>partial_function (option)\<close>
  whose result is then proved.  Fuel is used twice: 9 levels for the listing of the tree (lemma \<open>list_fuel\<close>: the depth
  is at most 8, so more changes nothing) and 256 rounds for \<open>aml_emmc_key_check\<close>, whose counter has 8 bits.  Key contents
  are below \<open>2 ^ 30\<close> bytes, where the code's \<open>int\<close> lengths do not overflow.

  \<^bold>\<open>What is not modelled.\<close>  Locks and concurrency: operations run one after the other.  Messages to the log.
  Registration of classes, devices and files, except as outcomes that a probe meets.  The codec memory manager
  (\<open>codec_mm.c\<close> and its scatter lists, keeper and secure memory), whose steps are calls of the allocators of the kernel
  interleaved with work queues; the 2D engine (\<open>ge2d\<close>), serial port, keypad, display phys, audio converter, register
  map, secure monitor, restart, suspend and processor version, which program registers or call the firmware; the
  hardware interfaces in \<open>src/a311d/hardware\<close>, which adapt libraries that are not part of the sources; device trees.
\<close>

unbundle bit_operations_syntax

section \<open>Properties of the key storage stack\<close>

text \<open>C6: A key survives a reboot.  In a running key manager on the eMMC, let \<open>amlkey_write\<close> report a
  non-zero count: the count is the length of the key.  Let the board then start afresh on the same
  disk, with a card in any earlier state: \<open>emmc_key_init\<close> scans the area and registers the driver,
  \<open>amlkey_if_init\<close> finds no secure storage and chooses normal keys, \<open>amlkey_init\<close> loads them.  Then all
  this succeeds, the store holds the keys it held before with the new one added or replaced, and
  \<open>amlkey_read\<close> and \<open>amlkey_get_attr\<close> return its content and attribute.\<close>

theorem key_write_survives_reboot:
  assumes run: "normal_running (emmc_key_read e) (emmc_key_write e) (ek_live e part user c k cap off) 262144 H s"
    and nif: "amlkey_if s = Some IFTYPE_NORMAL_STORAGE" and ke: "kernel_ok H env"
    and l: "unat len \<le> length buf" "unat len < 2 ^ 30"
    and w: "amlkey_write env s (Some nm) buf len attr = Some (s1, r)" "r \<noteq> 0"
    and boot: "boot_store s0" "ek_live e part user c0 k0 cap off (sdev s0)"
      "user (dev (kmmc (sdev s0))) = user (dev (kmmc (sdev s1)))"
    and env0: "kernel_ok H env0" "u_blocksize env0 \<in> {None, Some 262144}"
      "snd (security_key_init (u_smc env0) (u_mm env0) (u_share_ok env0) (sk s0)) = - EOPNOTSUPP"
    and rb: "unat len \<le> unat rlen" "unat len \<le> length rbuf"
  shows "r = int (unat len) \<and>
    (\<exists>s2. key_stack_start e env0 s0 = Some (s2, 0) \<and>
       nk_map (keys (nk s2)) = (nk_map (keys (nk s)))(nm \<mapsto> (take (unat len) buf, attr)) \<and>
       amlkey_read env0 s2 (Some nm) rbuf rlen = Some (s2, take (unat len) buf @ drop (unat len) rbuf, len) \<and>
       amlkey_get_attr env0 s2 (Some nm) = Some (s2, attr))"
proof -
  have "amlkey_write_normal env s (Some nm) (Some buf) len attr = Some (s1, r)"
    using w(1) nif by (simp add: amlkey_write_def)
  then obtain b where r: "r = int (unat len)"
    and m: "nk_map (keys (nk s1)) = (nk_map (keys (nk s)))(nm \<mapsto> (take (unat len) buf, attr))"
    and im: "ek_image user off (sdev s1) = Some b" "nk_image H b 262144 (keys (nk s1)) (rawhead (nk s1))"
    and run1: "normal_running (emmc_key_read e) (emmc_key_write e) (ek_live e part user c k cap off) 262144 H s1"
    using emmc_keys.write_normal_image [OF run ke l, of nm attr] w(2) by auto
  have im0: "ek_image user off (sdev s0) = Some b" using im(1) boot(3) by (simp add: ek_image_def)
  have ks: "list_all (nk_obj_ok H) (keys (nk s1))" "distinct (map obj_name (keys (nk s1)))"
    using run1 by (auto simp: normal_running_def nk_inv_def)
  obtain s2 c2 where s2: "key_stack_start e env0 s0 = Some (s2, 0)" "amlkey_if s2 = Some IFTYPE_NORMAL_STORAGE"
    "normal_running (emmc_key_read e) (emmc_key_write e) (ek_live e part user c2 k0 cap off) 262144 H s2"
    "nk_map (keys (nk s2)) = nk_map (keys (nk s1))"
    using key_stack_start_image [OF boot(2) im0 boot(1) env0 im(2) ks] by blast
  have inv2: "nk_inv H (nk s2)" using s2(3) by (simp add: normal_running_def)
  have get: "nk_map (keys (nk s2)) nm = Some (take (unat len) buf, attr)" using s2(4) m by simp
  show ?thesis
    using amlkey_read_normal_spec [OF inv2 get, of rlen rbuf] l rb s2 m r
    by (auto simp: amlkey_read_def amlkey_get_attr_def min_absorb2)
qed


theorem key_write_survives_reboot_witness:
  "\<exists>s1 s2. amlkey_write plain_env serving (Some [0x6D]) [1, 2] 2 0 = Some (s1, 2) \<and>
     key_stack_start ram_env plain_env (booted (snd (dev (kmmc (sdev s1))))) = Some (s2, 0) \<and>
     amlkey_read plain_env s2 (Some [0x6D]) [0, 0, 0] 3 = Some (s2, [1, 2, 0], 2)"
proof -
  obtain s1 where w: "amlkey_write plain_env serving (Some [0x6D]) [1, 2] 2 0 = Some (s1, 2)"
    using serving_write by blast
  have b: "u_blocksize plain_env \<in> {None, Some 262144}" by (simp add: plain_env_def)
  show ?thesis
    using key_write_survives_reboot [OF serving_running serving_keys(2) plain_ok _ _ w _ booted_ok(1,2,3) plain_ok b
        booted_ok(4), of 3 "[0, 0, 0]"] w
    by auto
qed

text \<open>C7: A key is written exactly when it fits.  For a key the store accepts, \<open>amlkey_write\<close> returns its
  length exactly when the 1024 bytes of heads and the encoded keys together fit the 256 KiB of the
  key area; then the eMMC holds, as a valid copy, the encoded block of all keys with the new one.  When
  they do not fit, it returns 0 and the disk is as before, but the key manager in memory already has the
  new key.\<close>

theorem amlkey_write_iff_fits:
  assumes run: "normal_running (emmc_key_read e) (emmc_key_write e) (ek_live e part user c k cap off) 262144 H s"
    and nif: "amlkey_if s = Some IFTYPE_NORMAL_STORAGE" and ke: "kernel_ok H env"
    and acc: "key_acceptable (nk_map (keys (nk s))) nm buf len attr"
    and m: "m = (nk_map (keys (nk s)))(nm \<mapsto> (take (unat len) buf, attr))"
  shows "\<exists>s'. amlkey_write env s (Some nm) buf len attr =
       Some (s', if 1024 + store_space m \<le> 262144 then int (unat len) else 0) \<and>
     nk_map (keys (nk s')) = m \<and>
     (if 1024 + store_space m \<le> 262144
      then \<exists>b. ek_image user off (sdev s') = Some b \<and> nk_image H b 262144 (keys (nk s')) (rawhead (nk s'))
      else sdev s' = sdev s)"
  using emmc_keys.write_normal_iff_fits [OF run ke acc m] nif
  by (auto simp: amlkey_write_def split: if_splits)

theorem amlkey_write_iff_fits_witness:
  "(\<exists>s' b. amlkey_write plain_env serving (Some [0x6D]) (replicate 261004 7) 261004 0 = Some (s', 261004) \<and>
      ek_image snd 0x2400000 (sdev s') = Some b \<and> nk_image good_hash b 262144 (keys (nk s')) (rawhead (nk s'))) \<and>
   (\<exists>s'. amlkey_write plain_env serving (Some [0x6D]) (replicate 261005 7) 261005 0 = Some (s', 0) \<and>
      nk_map (keys (nk s')) [0x6D] = Some (replicate 261005 7, 0) \<and> sdev s' = sdev serving)"
proof -
  have a: "key_acceptable (nk_map (keys (nk serving))) [0x6D] (replicate n 7) (of_nat n) 0" if "0 < n" "n < 2 ^ 30" for n
    using that by (simp add: key_acceptable_def serving_keys unat_of_nat32 word_unat_eq_iff)
  note W = amlkey_write_iff_fits [OF serving_running serving_keys(2) plain_ok a refl]
  show ?thesis
    using W [of 261004] W [of 261005]
    by (auto simp: serving_keys space_one obj_space_def)
qed
end
